(* ===== verification/Prelude.thy ===== *)
theory Prelude
  imports Main "HOL-Library.Word" "HOL-Library.Sublist"
begin

text \<open>
  What every component shares: the widths of the Go integers, Go's run-time panics as
  values, bounds-checked indexing and slicing, the two \<^verbatim>\<open>strconv\<close> functions the program
  uses (\<^verbatim>\<open>FormatInt\<close> on non-negative values and \<^verbatim>\<open>ParseUint\<close>), \<^verbatim>\<open>strings.Contains\<close>, and the list
  lemmas that several components need.
\<close>

type_synonym u8 = "8 word"
type_synonym u32 = "32 word"
type_synonym u64 = "64 word"

named_theorems sentinel_defs "definitions of the named constants of the program"
named_theorems hist_simps "equations of the calls that only extend a history"

section \<open>Panics\<close>

datatype 'a outcome = Ret 'a | Panic string

fun obind :: "'a outcome \<Rightarrow> ('a \<Rightarrow> 'b outcome) \<Rightarrow> 'b outcome" where
  "obind (Ret x) f = f x"
| "obind (Panic m) f = Panic m"

fun panics :: "'a outcome \<Rightarrow> bool" where
  "panics (Ret _) = False"
| "panics (Panic _) = True"

lemma panics_iff: "panics r \<longleftrightarrow> (\<forall>x. r \<noteq> Ret x)"
  by (cases r) auto

lemma obind_Ret_iff [simp]: "obind r f = Ret y \<longleftrightarrow> (\<exists>x. r = Ret x \<and> f x = Ret y)"
  by (cases r) auto

text \<open>An index or slice expression of Go panics when it is out of range.\<close>

definition goIndex :: "'a list \<Rightarrow> nat \<Rightarrow> 'a outcome" where
  "goIndex xs i = (if i < length xs then Ret (xs ! i) else Panic ''index out of range'')"

definition goSlice :: "'a list \<Rightarrow> nat \<Rightarrow> nat \<Rightarrow> 'a list outcome" where
  "goSlice xs lo hi =
     (if lo \<le> hi \<and> hi \<le> length xs then Ret (take (hi - lo) (drop lo xs))
      else Panic ''slice bounds out of range'')"

section \<open>Decimal printing and parsing (strconv)\<close>

definition digitChar :: "nat \<Rightarrow> char" where
  "digitChar d = char_of (48 + d)"

fun dec :: "nat \<Rightarrow> string" where
  "dec n = (if n < 10 then [digitChar n] else dec (n div 10) @ [digitChar (n mod 10)])"

declare dec.simps [simp del]

definition isDecDigit :: "char \<Rightarrow> bool" where
  "isDecDigit c \<longleftrightarrow> 48 \<le> (of_char c :: nat) \<and> (of_char c :: nat) \<le> 57"

definition digitVal :: "char \<Rightarrow> nat" where
  "digitVal c = of_char c - 48"

definition decVal :: "string \<Rightarrow> nat" where
  "decVal s = foldl (\<lambda>n c. 10 * n + digitVal c) 0 s"

text \<open>\<^verbatim>\<open>strconv.ParseUint(s, 10, 64)\<close>: an error for an empty string, for any character that
  is not a digit, and for a value that does not fit.\<close>

definition parseUint64 :: "string \<Rightarrow> u64 option" where
  "parseUint64 s =
     (if s \<noteq> [] \<and> list_all isDecDigit s \<and> decVal s < 2 ^ 64 then Some (of_nat (decVal s)) else None)"

lemma of_char_digitChar [simp]: "d < 10 \<Longrightarrow> of_char (digitChar d) = (48 + d :: nat)"
  by (simp add: digitChar_def)

lemma isDecDigit_digitChar [simp]: "d < 10 \<Longrightarrow> isDecDigit (digitChar d)"
  by (simp add: isDecDigit_def)

lemma digitVal_digitChar [simp]: "d < 10 \<Longrightarrow> digitVal (digitChar d) = d"
  by (simp add: digitVal_def)

lemma dec_not_Nil [simp]: "dec n \<noteq> []"
  by (subst dec.simps) simp

lemma dec_digits: "list_all isDecDigit (dec n)"
proof (induction n rule: dec.induct)
  case (1 n)
  then show ?case by (subst dec.simps) auto
qed

lemma decVal_dec [simp]: "decVal (dec n) = n"
proof (induction n rule: dec.induct)
  case (1 n)
  then show ?case
    by (cases "n < 10") (simp_all add: dec.simps [of n] decVal_def)
qed

lemma inj_dec: "dec m = dec n \<longleftrightarrow> m = n"
  by (metis decVal_dec)

lemma parseUint64_dec: "parseUint64 (dec n) = (if n < 2 ^ 64 then Some (of_nat n) else None)"
  by (simp add: parseUint64_def dec_digits)

lemma parseUint64_Some: "parseUint64 s = Some v \<Longrightarrow> unat v = decVal s"
  by (auto simp: parseUint64_def unat_of_nat split: if_splits)

section \<open>strings.Contains\<close>

fun strContains :: "string \<Rightarrow> string \<Rightarrow> bool" where
  "strContains [] t = (t = [])"
| "strContains (c # s) t = (take (length t) (c # s) = t \<or> strContains s t)"

lemma strContains_infix: "strContains (a @ t @ b) t"
proof (induction a)
  case Nil
  have "take (length t) (t @ b) = t" by simp
  then show ?case by (cases "t @ b") (simp_all del: append_eq_Cons_conv)
next
  case (Cons c a)
  then show ?case by simp
qed

section \<open>Lists\<close>

lemma filter_subseq: "subseq (filter P xs) xs"
  by (induction xs) auto

lemma subseq_set: "subseq xs ys \<Longrightarrow> set xs \<subseteq> set ys"
  by (induction rule: list_emb.induct) auto

lemma subseq_distinct: "subseq xs ys \<Longrightarrow> distinct ys \<Longrightarrow> distinct xs"
  by (induction rule: list_emb.induct) (auto dest: subseq_set)

lemma distinct_snoc_iff: "distinct (xs @ [x]) \<longleftrightarrow> distinct xs \<and> x \<notin> set xs"
  by auto

end
