(* ===== verification/Stringer.thy ===== *)
theory Stringer
  imports Prelude
begin

text \<open>
  The code that the \<^verbatim>\<open>stringer\<close> generator writes for every enumeration of the program: one
  string with all names, an index of where each name starts, and a \<^verbatim>\<open>String\<close> method that slices
  the one by the other or prints the number. The locale states what the two tables must satisfy
  for the method to be right; the enumerations interpret it on their own tables.
\<close>

definition stringerString :: "string \<Rightarrow> string \<Rightarrow> nat list \<Rightarrow> nat \<Rightarrow> string outcome" where
  "stringerString tyname name index idx =
     (if length index - 1 \<le> idx then Ret (tyname @ ''('' @ dec idx @ '')'')
      else obind (goIndex index idx)
             (\<lambda>lo. obind (goIndex index (idx + 1)) (\<lambda>hi. goSlice name lo hi)))"

text \<open>The name the tables hold for entry \<open>i\<close>.\<close>

definition stringerLabel :: "string \<Rightarrow> nat list \<Rightarrow> nat \<Rightarrow> string" where
  "stringerLabel name index i = take (index ! (i + 1) - index ! i) (drop (index ! i) name)"

definition stringerLabels :: "string \<Rightarrow> nat list \<Rightarrow> string list" where
  "stringerLabels name index = map (stringerLabel name index) [0..<length index - 1]"

text \<open>The generated function \<^verbatim>\<open>_\<close> indexes an array of length one with the difference of each constant and
  the value it had when the tables were written; the compiler refuses an index out of range.\<close>

definition constantsUnchanged :: "('a :: len word \<times> int) list \<Rightarrow> bool" where
  "constantsUnchanged cs \<longleftrightarrow> list_all (\<lambda>(c, v). 0 \<le> uint c - v \<and> uint c - v < 1) cs"

locale stringer_tables =
  fixes tyname :: string and name :: string and index :: "nat list"
  assumes index_sorted: "sorted index"
    and index_bound: "\<forall>i \<in> set index. i \<le> length name"
    and labels_distinct: "distinct (stringerLabels name index)"
    and labels_plain: "\<forall>l \<in> set (stringerLabels name index). CHR ''('' \<notin> set l"
begin

lemma String_in_range:
  assumes "i < length index - 1"
  shows "stringerString tyname name index i = Ret (stringerLabel name index i)"
proof -
  have "index ! i \<le> index ! (i + 1)"
    using assms index_sorted by (intro sorted_nth_mono) auto
  moreover have "index ! (i + 1) \<le> length name"
    using assms index_bound by simp
  ultimately show ?thesis
    using assms by (simp add: stringerString_def goIndex_def goSlice_def stringerLabel_def)
qed

lemma String_out_of_range:
  "length index - 1 \<le> i \<Longrightarrow> stringerString tyname name index i = Ret (tyname @ ''('' @ dec i @ '')'')"
  by (simp add: stringerString_def)

lemma String_never_panics: "\<exists>s. stringerString tyname name index i = Ret s"
  by (cases "i < length index - 1") (auto simp: String_in_range String_out_of_range)

lemma label_mem: "i < length index - 1 \<Longrightarrow> stringerLabel name index i \<in> set (stringerLabels name index)"
  by (auto simp: stringerLabels_def)

lemma label_inj:
  "i < length index - 1 \<Longrightarrow> j < length index - 1 \<Longrightarrow>
   stringerLabel name index i = stringerLabel name index j \<Longrightarrow> i = j"
  using labels_distinct by (auto simp: stringerLabels_def distinct_map inj_on_def)

text \<open>No two values print alike, the ones outside the table included.\<close>

lemma String_inj:
  assumes "stringerString tyname name index i = stringerString tyname name index j"
  shows "i = j"
proof -
  let ?n = "length index - 1"
  have plain: "CHR ''('' \<notin> set (stringerLabel name index k)" if "k < ?n" for k
    using label_mem [OF that] labels_plain by blast
  consider (in_in) "i < ?n" "j < ?n" | (in_out) "i < ?n" "?n \<le> j"
    | (out_in) "?n \<le> i" "j < ?n" | (out_out) "?n \<le> i" "?n \<le> j"
    by linarith
  then show ?thesis
  proof cases
    case in_in
    with assms show ?thesis by (simp add: String_in_range label_inj)
  next
    case in_out
    with assms have "stringerLabel name index i = tyname @ ''('' @ dec j @ '')''"
      by (simp add: String_in_range String_out_of_range)
    with plain [OF in_out(1)] show ?thesis by simp
  next
    case out_in
    with assms have "tyname @ ''('' @ dec i @ '')'' = stringerLabel name index j"
      by (simp add: String_in_range String_out_of_range)
    with plain [OF out_in(2)] show ?thesis by (metis UnI1 UnI2 list.set_intros(1) set_append)
  next
    case out_out
    with assms show ?thesis by (simp add: String_out_of_range inj_dec)
  qed
qed

end

end
