(* ===== verification/K8s.thy ===== *)
theory K8s
  imports Prelude
begin

text \<open>
  What the program sees of the packages it is built on. Errors are values: the program's own
  sentinels, the errors \<^verbatim>\<open>fmt.Errorf\<close> builds (with the errors its \<^verbatim>\<open>%w\<close> verbs wrap; the text is cut
  to its constant part) and opaque errors of code outside the repository. A Kubernetes object is an
  interface value: its dynamic type and a pointer. The classification functions and accessors of
  \<^verbatim>\<open>k8s.io/apimachinery\<close> are not in the repository: they are the fields of the record \<open>k8s\<close>, a
  parameter of every definition that calls them.
\<close>

section \<open>Errors\<close>

datatype sentinel =
    ErrInvalidType | ErrBookmarkChanged | ErrListRecovery | ErrPermanent
  | EOF | Canceled | DeadlineExceeded

text \<open>\<open>Ext n ss\<close> is an error of code outside the repository; \<open>ss\<close> are the sentinels it wraps.\<close>

datatype gerr = Sent sentinel | Msg string | Wrap string "gerr list" | Ext nat "sentinel list"

text \<open>\<^verbatim>\<open>errors.Is\<close>, the search through the tree of wrapped errors.\<close>

fun errors_Is :: "gerr \<Rightarrow> sentinel \<Rightarrow> bool" where
  "errors_Is (Sent s) t = (s = t)"
| "errors_Is (Msg _) t = False"
| "errors_Is (Wrap _ es) t = list_ex (\<lambda>e. errors_Is e t) es"
| "errors_Is (Ext _ ss) t = (t \<in> set ss)"

section \<open>Objects\<close>

datatype kind =
    KNode | KPod | KNamespace | KPersistentVolume | KClusterRole | KClusterRoleBinding
  | KRole | KRoleBinding | KService | KDeployment | KIngress | KEndpoints | KOther string

type_synonym ref = nat

text \<open>A non-nil \<^verbatim>\<open>runtime.Object\<close> interface value; \<open>optr = None\<close> is a typed nil pointer. A nil
  interface is \<open>None\<close> of \<open>robj option\<close>.\<close>

record robj =
  okind :: kind
  optr :: "ref option"

record objMeta =
  annotations :: "string \<Rightarrow> string option"
  resourceVersionOf :: string

record gvr =
  Group :: string
  Version :: string
  Resource :: string

definition gvr_Empty :: "gvr \<Rightarrow> bool" where
  "gvr_Empty g \<longleftrightarrow> Group g = [] \<and> Version g = [] \<and> Resource g = []"

section \<open>Watch events\<close>

datatype eventType = Added | Modified | Deleted | Bookmark | ErrorEvent | OtherEvent string

record event =
  evType :: eventType
  evObject :: "robj option"

section \<open>Functions of apimachinery\<close>

type_synonym lobj = nat

record k8s =
  isNotFound :: "gerr \<Rightarrow> bool"
  isForbidden :: "gerr \<Rightarrow> bool"
  isUnauthorized :: "gerr \<Rightarrow> bool"
  isInvalid :: "gerr \<Rightarrow> bool"
  isResourceExpired :: "gerr \<Rightarrow> bool"
  isGone :: "gerr \<Rightarrow> bool"
  isBadRequest :: "gerr \<Rightarrow> bool"
  statusCauses :: "gerr \<Rightarrow> (string \<times> string) list option option"
    \<comment> \<open>\<^verbatim>\<open>errors.As\<close> to an \<^verbatim>\<open>APIStatus\<close>; then its \<^verbatim>\<open>Details\<close>; then field and message of each cause\<close>
  getUID :: "robj \<Rightarrow> string"
  asMetaObject :: "robj \<Rightarrow> objMeta option" \<comment> \<open>the type assertion to \<^verbatim>\<open>metav1.Object\<close>\<close>
  initialEventsKey :: string
  fromObject :: "robj option \<Rightarrow> gerr"
  listAccessor :: "lobj \<Rightarrow> gerr + string \<times> string" \<comment> \<open>resource version and continue token\<close>
  extractList :: "lobj \<Rightarrow> gerr + robj option list"

section \<open>internal/apierr and the classifications of the reader\<close>

text \<open>\<^verbatim>\<open>apierr.Permanent\<close>; \<open>None\<close> is a nil error.\<close>

definition Permanent :: "k8s \<Rightarrow> gerr option \<Rightarrow> gerr option" where
  "Permanent K err =
     (case err of
        None \<Rightarrow> None
      | Some e \<Rightarrow>
          if isNotFound K e \<or> isForbidden K e \<or> isUnauthorized K e \<or> isInvalid K e
          then Some (Wrap [] [e, Sent ErrPermanent]) else Some e)"

definition watchListFeatureDisabled :: "k8s \<Rightarrow> gerr option \<Rightarrow> bool" where
  "watchListFeatureDisabled K err =
     (case err of
        None \<Rightarrow> False
      | Some e \<Rightarrow>
          if \<not> isInvalid K e then False
          else (case statusCauses K e of
                  Some (Some causes) \<Rightarrow>
                    list_ex (\<lambda>(fld, msg). fld = ''sendInitialEvents''
                                \<and> strContains msg ''WatchList feature gate'') causes
                | _ \<Rightarrow> False))"

definition staleResourceVersion :: "k8s \<Rightarrow> gerr option \<Rightarrow> bool" where
  "staleResourceVersion K err =
     (case err of None \<Rightarrow> False | Some e \<Rightarrow> isResourceExpired K e \<or> isGone K e)"

definition invalidWatchRequest :: "k8s \<Rightarrow> gerr option \<Rightarrow> bool" where
  "invalidWatchRequest K err =
     (case err of None \<Rightarrow> False | Some e \<Rightarrow> isBadRequest K e \<or> isInvalid K e)"

definition rejectedResourceVersion :: "k8s \<Rightarrow> gerr option \<Rightarrow> bool" where
  "rejectedResourceVersion K err \<longleftrightarrow> staleResourceVersion K err \<or> invalidWatchRequest K err"

lemma Permanent_None_iff [simp]: "Permanent K err = None \<longleftrightarrow> err = None"
  by (simp add: Permanent_def split: option.split)

text \<open>The error that comes back still wraps all that the error that went in wraps.\<close>

lemma Permanent_Is_mono:
  "Permanent K (Some e) = Some e' \<Longrightarrow> errors_Is e t \<Longrightarrow> errors_Is e' t"
  by (auto simp: Permanent_def split: if_splits)

lemma Permanent_Is_other:
  "Permanent K (Some e) = Some e' \<Longrightarrow> t \<noteq> ErrPermanent \<Longrightarrow> errors_Is e' t = errors_Is e t"
  by (auto simp: Permanent_def split: if_splits)

end
