(* ===== verification/Data.thy ===== *)
theory Data
  imports Stringer K8s
begin

text \<open>
  The package \<^verbatim>\<open>data\<close>: the three enumerations with their generated \<^verbatim>\<open>String\<close> and \<^verbatim>\<open>Valid\<close>
  methods, the \<^verbatim>\<open>Entry\<close> every stage passes on, its constructors and its typed accessors.
\<close>

section \<open>Enumerations\<close>

definition STUnknown :: u8 where [sentinel_defs]: "STUnknown = 0"
definition STInformer :: u8 where [sentinel_defs]: "STInformer = 1"
definition STWatchList :: u8 where [sentinel_defs]: "STWatchList = 2"
definition STEtcd :: u8 where [sentinel_defs]: "STEtcd = 3"

definition OTUnknown :: u8 where [sentinel_defs]: "OTUnknown = 0"
definition OTNode :: u8 where [sentinel_defs]: "OTNode = 1"
definition OTPod :: u8 where [sentinel_defs]: "OTPod = 2"
definition OTNamespace :: u8 where [sentinel_defs]: "OTNamespace = 3"
definition OTPersistentVolume :: u8 where [sentinel_defs]: "OTPersistentVolume = 4"
definition OTClusterRole :: u8 where [sentinel_defs]: "OTClusterRole = 5"
definition OTClusterRoleBinding :: u8 where [sentinel_defs]: "OTClusterRoleBinding = 6"
definition OTRole :: u8 where [sentinel_defs]: "OTRole = 7"
definition OTRoleBinding :: u8 where [sentinel_defs]: "OTRoleBinding = 8"
definition OTService :: u8 where [sentinel_defs]: "OTService = 9"
definition OTDeployment :: u8 where [sentinel_defs]: "OTDeployment = 10"
definition OTIngressController :: u8 where [sentinel_defs]: "OTIngressController = 11"
definition OTEndpoint :: u8 where [sentinel_defs]: "OTEndpoint = 12"

definition CTUnknown :: u8 where [sentinel_defs]: "CTUnknown = 0"
definition CTAdd :: u8 where [sentinel_defs]: "CTAdd = 1"
definition CTUpdate :: u8 where [sentinel_defs]: "CTUpdate = 2"
definition CTDelete :: u8 where [sentinel_defs]: "CTDelete = 3"
definition CTSnapshot :: u8 where [sentinel_defs]: "CTSnapshot = 4"

subsection \<open>Generated methods\<close>

definition ObjectType_checks :: "(u8 \<times> int) list" where
  "ObjectType_checks =
     [(OTUnknown, 0), (OTNode, 1), (OTPod, 2), (OTNamespace, 3), (OTPersistentVolume, 4), (OTClusterRole, 5),
      (OTClusterRoleBinding, 6), (OTRole, 7), (OTRoleBinding, 8), (OTService, 9), (OTDeployment, 10),
      (OTIngressController, 11), (OTEndpoint, 12)]"

definition ObjectType_name :: string where
  "ObjectType_name = ''UnknownNodePodNamespacePersistentVolumeClusterRoleClusterRoleBindingRoleRoleBindingServiceDeploymentIngressControllerEndpoint''"

definition ObjectType_index :: "nat list" where
  "ObjectType_index = [0, 7, 11, 14, 23, 39, 50, 68, 72, 83, 90, 100, 117, 125]"

definition ObjectType_String :: "u8 \<Rightarrow> string outcome" where
  "ObjectType_String i = stringerString ''ObjectType'' ObjectType_name ObjectType_index (unat i)"

definition ObjectType_Valid :: "u8 \<Rightarrow> bool" where
  "ObjectType_Valid i =
     (if i = 0 then False
      else if length ObjectType_index - 1 \<le> unat i then False else True)"

definition ChangeType_checks :: "(u8 \<times> int) list" where
  "ChangeType_checks = [(CTUnknown, 0), (CTAdd, 1), (CTUpdate, 2), (CTDelete, 3), (CTSnapshot, 4)]"

definition ChangeType_name :: string where
  "ChangeType_name = ''UnknownAddUpdateDeleteSnapshot''"

definition ChangeType_index :: "nat list" where
  "ChangeType_index = [0, 7, 10, 16, 22, 30]"

definition ChangeType_String :: "u8 \<Rightarrow> string outcome" where
  "ChangeType_String i = stringerString ''ChangeType'' ChangeType_name ChangeType_index (unat i)"

definition ChangeType_Valid :: "u8 \<Rightarrow> bool" where
  "ChangeType_Valid i =
     (if i = 0 then False
      else if length ChangeType_index - 1 \<le> unat i then False else True)"

definition SourceType_checks :: "(u8 \<times> int) list" where
  "SourceType_checks = [(STUnknown, 0), (STInformer, 1), (STWatchList, 2), (STEtcd, 3)]"

definition SourceType_name :: string where
  "SourceType_name = ''UnknownInformerWatchListEtcd''"

definition SourceType_index :: "nat list" where
  "SourceType_index = [0, 7, 15, 24, 28]"

definition SourceType_String :: "u8 \<Rightarrow> string outcome" where
  "SourceType_String i = stringerString ''SourceType'' SourceType_name SourceType_index (unat i)"

definition SourceType_Valid :: "u8 \<Rightarrow> bool" where
  "SourceType_Valid i =
     (if i = 0 then False
      else if length SourceType_index - 1 \<le> unat i then False else True)"

interpretation objectType: stringer_tables "''ObjectType''" ObjectType_name ObjectType_index
  by (unfold_locales; code_simp)

interpretation changeType: stringer_tables "''ChangeType''" ChangeType_name ChangeType_index
  by (unfold_locales; code_simp)

interpretation sourceType: stringer_tables "''SourceType''" SourceType_name SourceType_index
  by (unfold_locales; code_simp)

lemma ObjectType_Valid_iff: "ObjectType_Valid i \<longleftrightarrow> 1 \<le> i \<and> i \<le> 12"
  by (simp add: ObjectType_Valid_def ObjectType_index_def word_le_nat_alt unat_gt_0 Suc_le_eq
      flip: word_neq_0_conv)

lemma ChangeType_Valid_iff: "ChangeType_Valid i \<longleftrightarrow> 1 \<le> i \<and> i \<le> 4"
  by (simp add: ChangeType_Valid_def ChangeType_index_def word_le_nat_alt unat_gt_0 Suc_le_eq
      flip: word_neq_0_conv)

lemma SourceType_Valid_iff: "SourceType_Valid i \<longleftrightarrow> 1 \<le> i \<and> i \<le> 3"
  by (simp add: SourceType_Valid_def SourceType_index_def word_le_nat_alt unat_gt_0 Suc_le_eq
      flip: word_neq_0_conv)

text \<open>Every constant has the value its table was written for, and prints under its name.\<close>

lemma checks_hold:
  "constantsUnchanged ObjectType_checks" "constantsUnchanged ChangeType_checks" "constantsUnchanged SourceType_checks"
  by (simp_all add: constantsUnchanged_def ObjectType_checks_def ChangeType_checks_def SourceType_checks_def sentinel_defs)

lemma constant_names:
  "map (ObjectType_String \<circ> fst) ObjectType_checks =
     map Ret [''Unknown'', ''Node'', ''Pod'', ''Namespace'', ''PersistentVolume'', ''ClusterRole'', ''ClusterRoleBinding'',
       ''Role'', ''RoleBinding'', ''Service'', ''Deployment'', ''IngressController'', ''Endpoint'']"
  "map (ChangeType_String \<circ> fst) ChangeType_checks = map Ret [''Unknown'', ''Add'', ''Update'', ''Delete'', ''Snapshot'']"
  "map (SourceType_String \<circ> fst) SourceType_checks = map Ret [''Unknown'', ''Informer'', ''WatchList'', ''Etcd'']"
  by code_simp+

section \<open>Entries\<close>

record entry =
  data :: "robj option"
  uid :: string
  sourceType :: u8
  changeType :: u8
  objectType :: u8

text \<open>\<^verbatim>\<open>newEntry\<close>: a typed nil pointer is refused, otherwise the object and its UID are packed.\<close>

definition newEntry :: "k8s \<Rightarrow> robj \<Rightarrow> u8 \<Rightarrow> u8 \<Rightarrow> u8 \<Rightarrow> gerr + entry" where
  "newEntry K obj ot st ct =
     (if optr obj = None then Inl (Msg ''new object is nil'')
      else Inr \<lparr>data = Some obj, uid = getUID K obj, sourceType = st, changeType = ct,
                objectType = ot\<rparr>)"

text \<open>\<^verbatim>\<open>NewEntry\<close>: the type switch of the constructor, case by case.\<close>

definition NewEntry :: "k8s \<Rightarrow> robj option \<Rightarrow> u8 \<Rightarrow> u8 \<Rightarrow> gerr + entry" where
  "NewEntry K obj st ct =
     (case obj of
        None \<Rightarrow> Inl (Sent ErrInvalidType)
      | Some v \<Rightarrow>
          (case okind v of
             KNode \<Rightarrow> newEntry K v OTNode st ct
           | KPod \<Rightarrow> newEntry K v OTPod st ct
           | KNamespace \<Rightarrow> newEntry K v OTNamespace st ct
           | KPersistentVolume \<Rightarrow> newEntry K v OTPersistentVolume st ct
           | KClusterRole \<Rightarrow> newEntry K v OTClusterRole st ct
           | KClusterRoleBinding \<Rightarrow> newEntry K v OTClusterRoleBinding st ct
           | KRole \<Rightarrow> newEntry K v OTRole st ct
           | KRoleBinding \<Rightarrow> newEntry K v OTRoleBinding st ct
           | KService \<Rightarrow> newEntry K v OTService st ct
           | KDeployment \<Rightarrow> newEntry K v OTDeployment st ct
           | KIngress \<Rightarrow> newEntry K v OTIngressController st ct
           | KEndpoints \<Rightarrow> newEntry K v OTEndpoint st ct
           | KOther _ \<Rightarrow> Inl (Sent ErrInvalidType)))"

definition MustNewEntry :: "k8s \<Rightarrow> robj option \<Rightarrow> u8 \<Rightarrow> u8 \<Rightarrow> entry outcome" where
  "MustNewEntry K obj st ct =
     (case NewEntry K obj st ct of Inl err \<Rightarrow> Panic ''MustNewEntry'' | Inr e \<Rightarrow> Ret e)"

definition WatchEventToEntry :: "k8s \<Rightarrow> event \<Rightarrow> gerr + entry" where
  "WatchEventToEntry K ev =
     (case evType ev of
        Added \<Rightarrow> NewEntry K (evObject ev) STWatchList CTAdd
      | Modified \<Rightarrow> NewEntry K (evObject ev) STWatchList CTUpdate
      | Deleted \<Rightarrow> NewEntry K (evObject ev) STWatchList CTDelete
      | _ \<Rightarrow> Inl (Msg ''unknown event type''))"

text \<open>The plain accessors.\<close>

definition Entry_UID :: "entry \<Rightarrow> string" where
  "Entry_UID e = uid e"
definition Entry_ObjectType :: "entry \<Rightarrow> u8" where
  "Entry_ObjectType e = objectType e"
definition Entry_ChangeType :: "entry \<Rightarrow> u8" where
  "Entry_ChangeType e = changeType e"
definition Entry_SourceType :: "entry \<Rightarrow> u8" where
  "Entry_SourceType e = sourceType e"
definition Entry_Object :: "entry \<Rightarrow> robj option" where
  "Entry_Object e = data e"

lemmas plain_accessor_defs = Entry_UID_def Entry_ObjectType_def Entry_ChangeType_def Entry_SourceType_def Entry_Object_def

text \<open>The typed accessors all go through the generic \<^verbatim>\<open>assert\<close>, a type assertion. Their result is
  the typed pointer.\<close>

definition assertKind :: "kind \<Rightarrow> robj option \<Rightarrow> gerr + ref option" where
  "assertKind k obj =
     (case obj of
        None \<Rightarrow> Inl (Msg ''object is nil'')
      | Some v \<Rightarrow> if okind v = k then Inr (optr v) else Inl (Msg ''object is not of type''))"

definition Entry_Node :: "entry \<Rightarrow> gerr + ref option" where
  "Entry_Node e = assertKind KNode (data e)"
definition Entry_Pod :: "entry \<Rightarrow> gerr + ref option" where
  "Entry_Pod e = assertKind KPod (data e)"
definition Entry_Namespace :: "entry \<Rightarrow> gerr + ref option" where
  "Entry_Namespace e = assertKind KNamespace (data e)"
definition Entry_PersistentVolume :: "entry \<Rightarrow> gerr + ref option" where
  "Entry_PersistentVolume e = assertKind KPersistentVolume (data e)"
definition Entry_ClusterRole :: "entry \<Rightarrow> gerr + ref option" where
  "Entry_ClusterRole e = assertKind KClusterRole (data e)"
definition Entry_ClusterRoleBinding :: "entry \<Rightarrow> gerr + ref option" where
  "Entry_ClusterRoleBinding e = assertKind KClusterRoleBinding (data e)"
definition Entry_Role :: "entry \<Rightarrow> gerr + ref option" where
  "Entry_Role e = assertKind KRole (data e)"
definition Entry_RoleBinding :: "entry \<Rightarrow> gerr + ref option" where
  "Entry_RoleBinding e = assertKind KRoleBinding (data e)"
definition Entry_Service :: "entry \<Rightarrow> gerr + ref option" where
  "Entry_Service e = assertKind KService (data e)"
definition Entry_Deployment :: "entry \<Rightarrow> gerr + ref option" where
  "Entry_Deployment e = assertKind KDeployment (data e)"
definition Entry_IngressController :: "entry \<Rightarrow> gerr + ref option" where
  "Entry_IngressController e = assertKind KIngress (data e)"
definition Entry_Endpoint :: "entry \<Rightarrow> gerr + ref option" where
  "Entry_Endpoint e = assertKind KEndpoints (data e)"

lemmas accessor_defs = Entry_Node_def Entry_Pod_def Entry_Namespace_def Entry_PersistentVolume_def
  Entry_ClusterRole_def Entry_ClusterRoleBinding_def Entry_Role_def Entry_RoleBinding_def
  Entry_Service_def Entry_Deployment_def Entry_IngressController_def Entry_Endpoint_def

section \<open>Well-formed entries\<close>

text \<open>What every constructed entry satisfies and every consumer relies on: the object is there, its
  pointer is not nil, and the object type is the one of its dynamic type.\<close>

fun kindOT :: "kind \<Rightarrow> u8 option" where
  "kindOT KNode = Some OTNode"
| "kindOT KPod = Some OTPod"
| "kindOT KNamespace = Some OTNamespace"
| "kindOT KPersistentVolume = Some OTPersistentVolume"
| "kindOT KClusterRole = Some OTClusterRole"
| "kindOT KClusterRoleBinding = Some OTClusterRoleBinding"
| "kindOT KRole = Some OTRole"
| "kindOT KRoleBinding = Some OTRoleBinding"
| "kindOT KService = Some OTService"
| "kindOT KDeployment = Some OTDeployment"
| "kindOT KIngress = Some OTIngressController"
| "kindOT KEndpoints = Some OTEndpoint"
| "kindOT (KOther _) = None"

definition wf_entry :: "entry \<Rightarrow> bool" where
  "wf_entry e \<longleftrightarrow>
     (case data e of
        None \<Rightarrow> False
      | Some v \<Rightarrow> optr v \<noteq> None \<and> kindOT (okind v) = Some (objectType e))"

text \<open>The constructor in one equation: which objects it takes, and what it makes of them.\<close>

lemma NewEntry_eq:
  "NewEntry K obj st ct =
     (case obj of
        None \<Rightarrow> Inl (Sent ErrInvalidType)
      | Some v \<Rightarrow>
          (case kindOT (okind v) of
             None \<Rightarrow> Inl (Sent ErrInvalidType)
           | Some ot \<Rightarrow> newEntry K v ot st ct))"
  by (simp add: NewEntry_def split: option.split kind.split)

lemma newEntry_Inr_iff:
  "newEntry K v ot st ct = Inr e \<longleftrightarrow>
     optr v \<noteq> None \<and>
     e = \<lparr>data = Some v, uid = getUID K v, sourceType = st, changeType = ct, objectType = ot\<rparr>"
  by (auto simp: newEntry_def)

lemma NewEntry_Inr_iff:
  "NewEntry K obj st ct = Inr e \<longleftrightarrow>
     (\<exists>v ot. obj = Some v \<and> optr v \<noteq> None \<and> kindOT (okind v) = Some ot \<and>
        e = \<lparr>data = Some v, uid = getUID K v, sourceType = st, changeType = ct, objectType = ot\<rparr>)"
  by (auto simp: NewEntry_eq newEntry_Inr_iff split: option.split)

lemma NewEntry_wf: "NewEntry K obj st ct = Inr e \<Longrightarrow> wf_entry e"
  by (auto simp: NewEntry_Inr_iff wf_entry_def)

lemma WatchEventToEntry_wf: "WatchEventToEntry K ev = Inr e \<Longrightarrow> wf_entry e"
  by (auto simp: WatchEventToEntry_def NewEntry_wf split: eventType.splits)

lemma kindOT_inj: "kindOT j = Some t \<Longrightarrow> kindOT k = Some t \<Longrightarrow> j = k"
  by (cases j; cases k) (auto simp: sentinel_defs)

lemma kindOT_Valid: "kindOT k = Some t \<Longrightarrow> ObjectType_Valid t"
  by (cases k) (auto simp: sentinel_defs ObjectType_Valid_iff)

lemma kindOT_onto: "ObjectType_Valid t \<Longrightarrow> \<exists>k. kindOT k = Some t"
proof -
  assume "ObjectType_Valid t"
  then have "unat t \<in> set [1..<13]"
    by (auto simp: ObjectType_Valid_iff word_le_nat_alt)
  then have "(of_nat (unat t) :: u8) \<in> of_nat ` set [1..<13]"
    by (rule imageI)
  then have "t \<in> {1, 2, 3, 4, 5, 6, 7, 8, 9, 10, 11, 12}"
    by (simp add: upt_rec)
  then show ?thesis
    by (elim insertE emptyE) (metis kindOT.simps sentinel_defs)+
qed

lemma kindOT_simps [simp]:
  "kindOT k = Some OTPod \<longleftrightarrow> k = KPod"
  "kindOT k = Some OTDeployment \<longleftrightarrow> k = KDeployment"
  by (cases k; simp add: sentinel_defs)+

lemma wf_entry_Pod:
  "wf_entry e \<Longrightarrow> objectType e = OTPod \<Longrightarrow> \<exists>p. Entry_Pod e = Inr (Some p) \<and> data e = Some \<lparr>okind = KPod, optr = Some p\<rparr>"
  by (auto simp: wf_entry_def Entry_Pod_def assertKind_def split: option.splits)

lemma wf_entry_Deployment:
  "wf_entry e \<Longrightarrow> objectType e = OTDeployment \<Longrightarrow>
   \<exists>p. Entry_Deployment e = Inr (Some p) \<and> data e = Some \<lparr>okind = KDeployment, optr = Some p\<rparr>"
  by (auto simp: wf_entry_def Entry_Deployment_def assertKind_def split: option.splits)

end
