(* ===== verification/Heap.thy ===== *)
theory Heap
  imports Data
begin

text \<open>
  The memory the pipeline shares. Entries carry pointers, pod specs carry slices of containers and
  containers carry slices of environment variables, and the scrubber writes through all of them, so
  the objects and the backing arrays live in a store. Struct fields no code of the repository
  touches are one opaque value of type \<open>'x\<close>. The store is typed, as Go's memory is: one map for
  each type of cell.
\<close>

record slice =
  sArr :: ref
  sOff :: nat
  sLen :: nat

record 'x envVar =
  evName :: string
  evValue :: string
  evRest :: 'x

text \<open>\<^verbatim>\<open>corev1.Container\<close> and the common part of \<^verbatim>\<open>corev1.EphemeralContainer\<close>.\<close>

record 'x container =
  cEnv :: slice
  cRest :: 'x

record 'x podSpec =
  Containers :: slice
  InitContainers :: slice
  EphemeralContainers :: slice
  psRest :: 'x

record 'x pod =
  pSpec :: "'x podSpec"
  pRest :: 'x

record 'x deployment =
  dTemplateSpec :: "'x podSpec"
  dRest :: 'x

record 'x heap =
  pods :: "ref \<Rightarrow> 'x pod"
  deployments :: "ref \<Rightarrow> 'x deployment"
  contArrs :: "ref \<Rightarrow> 'x container list"
  ephArrs :: "ref \<Rightarrow> 'x container list"
  envArrs :: "ref \<Rightarrow> 'x envVar list"
  otherMem :: "kind \<Rightarrow> ref \<Rightarrow> 'x"

text \<open>A slice lies inside its backing array: Go guarantees it for every slice it makes.\<close>

definition inBounds :: "'a list \<Rightarrow> slice \<Rightarrow> bool" where
  "inBounds arr sl \<longleftrightarrow> sOff sl + sLen sl \<le> length arr"

definition elems :: "'a list \<Rightarrow> slice \<Rightarrow> 'a list" where
  "elems arr sl = take (sLen sl) (drop (sOff sl) arr)"

lemma length_elems: "inBounds arr sl \<Longrightarrow> length (elems arr sl) = sLen sl"
  by (simp add: elems_def inBounds_def)

lemma elems_nth: "inBounds arr sl \<Longrightarrow> i < sLen sl \<Longrightarrow> elems arr sl ! i = arr ! (sOff sl + i)"
  by (simp add: elems_def inBounds_def)

lemma in_elems_iff:
  "inBounds arr sl \<Longrightarrow> x \<in> set (elems arr sl) \<longleftrightarrow> (\<exists>i < sLen sl. x = arr ! (sOff sl + i))"
  by (auto simp: in_set_conv_nth length_elems elems_nth)

section \<open>What an entry reaches\<close>

definition envOf :: "'x heap \<Rightarrow> 'x container \<Rightarrow> 'x envVar list" where
  "envOf h c = elems (envArrs h (sArr (cEnv c))) (cEnv c)"

definition specContainers :: "'x heap \<Rightarrow> 'x podSpec \<Rightarrow> 'x container list" where
  "specContainers h s =
     elems (contArrs h (sArr (Containers s))) (Containers s) @
     elems (contArrs h (sArr (InitContainers s))) (InitContainers s) @
     elems (ephArrs h (sArr (EphemeralContainers s))) (EphemeralContainers s)"

definition specEnv :: "'x heap \<Rightarrow> 'x podSpec \<Rightarrow> 'x envVar list" where
  "specEnv h s = concat (map (envOf h) (specContainers h s))"

text \<open>The pod spec inside the object of an entry, where there is one.\<close>

definition entrySpec :: "'x heap \<Rightarrow> entry \<Rightarrow> 'x podSpec option" where
  "entrySpec h e =
     (case data e of
        None \<Rightarrow> None
      | Some v \<Rightarrow>
          (case optr v of
             None \<Rightarrow> None
           | Some p \<Rightarrow>
               if okind v = KPod then Some (pSpec (pods h p))
               else if okind v = KDeployment then Some (dTemplateSpec (deployments h p))
               else None))"

definition entryEnv :: "'x heap \<Rightarrow> entry \<Rightarrow> 'x envVar list" where
  "entryEnv h e = (case entrySpec h e of None \<Rightarrow> [] | Some s \<Rightarrow> specEnv h s)"

text \<open>Every slice in memory is in bounds.\<close>

definition wf_spec :: "'x heap \<Rightarrow> 'x podSpec \<Rightarrow> bool" where
  "wf_spec h s \<longleftrightarrow>
     inBounds (contArrs h (sArr (Containers s))) (Containers s) \<and>
     inBounds (contArrs h (sArr (InitContainers s))) (InitContainers s) \<and>
     inBounds (ephArrs h (sArr (EphemeralContainers s))) (EphemeralContainers s)"

definition wf_heap :: "'x heap \<Rightarrow> bool" where
  "wf_heap h \<longleftrightarrow>
     (\<forall>p. wf_spec h (pSpec (pods h p))) \<and>
     (\<forall>p. wf_spec h (dTemplateSpec (deployments h p))) \<and>
     (\<forall>a. \<forall>c \<in> set (contArrs h a). inBounds (envArrs h (sArr (cEnv c))) (cEnv c)) \<and>
     (\<forall>a. \<forall>c \<in> set (ephArrs h a). inBounds (envArrs h (sArr (cEnv c))) (cEnv c))"

end
