(* ===== verification/Stage.thy ===== *)
theory Stage
  imports Data
begin

text \<open>
  A pipeline stage: a goroutine that takes every entry of its input channel, handles it, sends it on
  or drops it, and closes its output channel when its input is closed. The locale fixes the handler
  of one entry and the loop over the input; both stages of the pipeline interpret it. \<open>'h\<close> is the
  memory the handler works on.
\<close>

locale stage =
  fixes step :: "'h \<Rightarrow> entry \<Rightarrow> ('h \<times> entry option) outcome"
    and run :: "'h \<Rightarrow> entry list \<Rightarrow> ('h \<times> entry list) outcome"
  assumes run_Nil: "run h [] = Ret (h, [])"
    and run_Cons: "run h (e # es) =
      obind (step h e) (\<lambda>(h, sent). obind (run h es)
        (\<lambda>(h, out). Ret (h, (case sent of None \<Rightarrow> out | Some e \<Rightarrow> e # out))))"
    and step_forwards: "step h e = Ret (h', Some e') \<Longrightarrow> e' = e"
begin

text \<open>Order is kept and nothing is made up or duplicated.\<close>

lemma run_subseq: "run h es = Ret (h', out) \<Longrightarrow> subseq out es"
proof (induction es arbitrary: h h' out)
  case Nil
  then show ?case by (simp add: run_Nil)
next
  case (Cons e es)
  from Cons.prems obtain h1 sent out1 where
    *: "step h e = Ret (h1, sent)" "run h1 es = Ret (h', out1)"
       "out = (case sent of None \<Rightarrow> out1 | Some e \<Rightarrow> e # out1)"
    by (auto simp: run_Cons)
  from Cons.IH [OF *(2)] have "subseq out1 es" .
  with * step_forwards show ?case by (cases sent) auto
qed

text \<open>How the input is cut into portions does not matter.\<close>

lemma run_append:
  "run h (xs @ ys) =
     obind (run h xs) (\<lambda>(h, out). obind (run h ys) (\<lambda>(h', out'). Ret (h', out @ out')))"
proof (induction xs arbitrary: h)
  case Nil
  then show ?case by (cases "run h ys") (auto simp: run_Nil)
next
  case (Cons x xs)
  show ?case
  proof (cases "step h x")
    case (Ret r)
    then obtain h1 sent where step: "step h x = Ret (h1, sent)" by (cases r) auto
    show ?thesis
    proof (cases "run h1 xs")
      case (Ret q)
      then obtain h2 out where "run h1 xs = Ret (h2, out)" by (cases q) auto
      then show ?thesis
        by (cases "run h2 ys") (auto simp: run_Cons step Cons.IH split: option.split)
    next
      case (Panic m)
      then show ?thesis by (simp add: run_Cons step Cons.IH)
    qed
  next
    case (Panic m)
    then show ?thesis by (simp add: run_Cons)
  qed
qed

text \<open>An invariant of the memory and a property of every entry sent on, established when it is sent
  and kept by every later step, hold at the end.\<close>

lemma run_inv:
  assumes "run h es = Ret (h', out)" and "I h" and "\<And>e. e \<in> set es \<Longrightarrow> ok e"
    and "\<And>h e h1 sent. I h \<Longrightarrow> ok e \<Longrightarrow> step h e = Ret (h1, sent) \<Longrightarrow> I h1"
    and "\<And>h e h1 e'. I h \<Longrightarrow> ok e \<Longrightarrow> step h e = Ret (h1, Some e') \<Longrightarrow> P h1 e'"
    and "\<And>h e h1 sent e'. I h \<Longrightarrow> ok e \<Longrightarrow> step h e = Ret (h1, sent) \<Longrightarrow> P h e' \<Longrightarrow> P h1 e'"
  shows "I h' \<and> (\<forall>e \<in> set out. P h' e) \<and> (\<forall>e. P h e \<longrightarrow> P h' e)"
  using assms(1-3)
proof (induction es arbitrary: h out)
  case Nil
  then show ?case by (simp add: run_Nil)
next
  case (Cons e es)
  from Cons.prems(1) obtain h1 sent out1 where
    *: "step h e = Ret (h1, sent)" "run h1 es = Ret (h', out1)"
       "out = (case sent of None \<Rightarrow> out1 | Some e \<Rightarrow> e # out1)"
    by (auto simp: run_Cons)
  have ok: "ok e" using Cons.prems(3) by simp
  have I1: "I h1" using assms(4) [OF Cons.prems(2) ok *(1)] .
  have rest: "I h' \<and> (\<forall>e \<in> set out1. P h' e) \<and> (\<forall>e. P h1 e \<longrightarrow> P h' e)"
    using Cons.IH [OF *(2) I1] Cons.prems(3) by simp
  have keep: "P h e' \<Longrightarrow> P h1 e'" for e'
    using assms(6) [OF Cons.prems(2) ok *(1)] .
  show ?case
  proof (cases sent)
    case None
    with * rest keep show ?thesis by auto
  next
    case (Some e')
    then have "P h1 e'" using assms(5) [OF Cons.prems(2) ok] *(1) by simp
    with Some * rest keep show ?thesis by auto
  qed
qed

text \<open>A stage whose handler never panics never panics.\<close>

lemma run_total:
  assumes "\<And>h e. e \<in> set es \<Longrightarrow> \<exists>r. step h e = Ret r"
  shows "\<exists>r. run h es = Ret r"
  using assms
proof (induction es arbitrary: h)
  case Nil
  then show ?case by (simp add: run_Nil)
next
  case (Cons e es)
  from Cons.prems [of e h] obtain h1 sent where "step h e = Ret (h1, sent)" by auto
  moreover from Cons.IH [of h1] Cons.prems obtain r where "run h1 es = Ret r" by auto
  ultimately show ?case by (cases r) (simp add: run_Cons)
qed

end

end
