(* ===== verification/Safety.thy ===== *)
theory Safety
  imports Heap Stage
begin

text \<open>
  The package \<^verbatim>\<open>internal/safety\<close>: the scrubber that overwrites the value of every environment
  variable of a pod or of a deployment's pod template, in place. The loops of the source are folds
  over the indices that read and write the store cell by cell. The reference they are proved equal
  to is \<open>redactSet\<close>, which redacts a set of cells at once.
\<close>

section \<open>The scrubber\<close>

definition redacted :: string where
  "redacted = ''REDACTED''"

definition envAssign :: "slice \<Rightarrow> nat \<Rightarrow> 'x envVar \<Rightarrow> 'x heap \<Rightarrow> 'x heap" where
  "envAssign sl i ev h =
     h\<lparr>envArrs := (envArrs h)(sArr sl := (envArrs h (sArr sl))[sOff sl + i := ev])\<rparr>"

definition contAssign :: "slice \<Rightarrow> nat \<Rightarrow> 'x container \<Rightarrow> 'x heap \<Rightarrow> 'x heap" where
  "contAssign sl i c h =
     h\<lparr>contArrs := (contArrs h)(sArr sl := (contArrs h (sArr sl))[sOff sl + i := c])\<rparr>"

definition ephAssign :: "slice \<Rightarrow> nat \<Rightarrow> 'x container \<Rightarrow> 'x heap \<Rightarrow> 'x heap" where
  "ephAssign sl i c h =
     h\<lparr>ephArrs := (ephArrs h)(sArr sl := (ephArrs h (sArr sl))[sOff sl + i := c])\<rparr>"

text \<open>\<^verbatim>\<open>for i, ev := range env { ev.Value = redacted; env[i] = ev }\<close>\<close>

definition scrubEnv :: "'x heap \<Rightarrow> slice \<Rightarrow> 'x heap \<times> slice" where
  "scrubEnv h env =
     (fold (\<lambda>i h. let ev = envArrs h (sArr env) ! (sOff env + i);
                      ev = ev\<lparr>evValue := redacted\<rparr>
                  in envAssign env i ev h) [0..<sLen env] h,
      env)"

definition scrubContainer :: "'x heap \<Rightarrow> 'x container \<Rightarrow> 'x heap \<times> 'x container" where
  "scrubContainer h c = (let (h, env) = scrubEnv h (cEnv c) in (h, c\<lparr>cEnv := env\<rparr>))"

definition scrubContainers :: "slice \<Rightarrow> 'x heap \<Rightarrow> 'x heap" where
  "scrubContainers sl h =
     fold (\<lambda>i h. let cont = contArrs h (sArr sl) ! (sOff sl + i);
                     (h, cont) = scrubContainer h cont
                 in contAssign sl i cont h) [0..<sLen sl] h"

definition scrubEphemerals :: "slice \<Rightarrow> 'x heap \<Rightarrow> 'x heap" where
  "scrubEphemerals sl h =
     fold (\<lambda>i h. let cont = ephArrs h (sArr sl) ! (sOff sl + i);
                     (h, env) = scrubEnv h (cEnv cont)
                 in ephAssign sl i (cont\<lparr>cEnv := env\<rparr>) h) [0..<sLen sl] h"

definition scrubPodSpec :: "'x heap \<Rightarrow> 'x podSpec \<Rightarrow> 'x heap \<times> 'x podSpec" where
  "scrubPodSpec h spec =
     (let h = scrubContainers (Containers spec) h;
          h = scrubContainers (InitContainers spec) h;
          h = scrubEphemerals (EphemeralContainers spec) h
      in (h, spec))"

text \<open>A nil pod pointer panics when its field is read.\<close>

definition scrubPod :: "'x heap \<Rightarrow> ref option \<Rightarrow> 'x heap outcome" where
  "scrubPod h p =
     (case p of
        None \<Rightarrow> Panic ''nil pointer dereference''
      | Some r \<Rightarrow>
          (let (h, s) = scrubPodSpec h (pSpec (pods h r))
           in Ret (h\<lparr>pods := (pods h)(r := (pods h r)\<lparr>pSpec := s\<rparr>)\<rparr>)))"

text \<open>The handler of one entry. The second component of the result is what is sent on: an entry
  whose cast fails is logged and not sent.\<close>

definition scrubber :: "'x heap \<Rightarrow> entry \<Rightarrow> ('x heap \<times> entry option) outcome" where
  "scrubber h e =
     (if objectType e = OTPod then
        (case Entry_Pod e of
           Inl _ \<Rightarrow> Ret (h, None)
         | Inr p \<Rightarrow> obind (scrubPod h p) (\<lambda>h. Ret (h, Some e)))
      else if objectType e = OTDeployment then
        (case Entry_Deployment e of
           Inl _ \<Rightarrow> Ret (h, None)
         | Inr None \<Rightarrow> Panic ''nil pointer dereference''
         | Inr (Some r) \<Rightarrow>
             (let (h, s) = scrubPodSpec h (dTemplateSpec (deployments h r))
              in Ret (h\<lparr>deployments := (deployments h)(r := (deployments h r)\<lparr>dTemplateSpec := s\<rparr>)\<rparr>,
                      Some e)))
      else Ret (h, Some e))"

text \<open>\<^verbatim>\<open>Secrets.run\<close>: every entry of the input channel until it is closed; then the output channel is
  closed. The result is the memory and what was sent on the output channel before that.\<close>

fun Secrets_run :: "'x heap \<Rightarrow> entry list \<Rightarrow> ('x heap \<times> entry list) outcome" where
  "Secrets_run h [] = Ret (h, [])"
| "Secrets_run h (e # es) =
     obind (scrubber h e)
       (\<lambda>(h, sent). obind (Secrets_run h es)
          (\<lambda>(h, out). Ret (h, (case sent of None \<Rightarrow> out | Some e \<Rightarrow> e # out))))"

section \<open>The reference: redacting a set of cells\<close>

definition redactVar :: "'x envVar \<Rightarrow> 'x envVar" where
  "redactVar v = v\<lparr>evValue := redacted\<rparr>"

definition redactSet :: "(ref \<times> nat) set \<Rightarrow> 'x heap \<Rightarrow> 'x heap" where
  "redactSet S h =
     h\<lparr>envArrs := (\<lambda>a. map (\<lambda>i. if (a, i) \<in> S then redactVar (envArrs h a ! i) else envArrs h a ! i)
                        [0..<length (envArrs h a)])\<rparr>"

definition sliceCells :: "slice \<Rightarrow> (ref \<times> nat) set" where
  "sliceCells sl = (\<lambda>i. (sArr sl, sOff sl + i)) ` {..<sLen sl}"

definition arrCells :: "'x container list \<Rightarrow> slice \<Rightarrow> (ref \<times> nat) set" where
  "arrCells arr sl = (\<Union>i\<in>{..<sLen sl}. sliceCells (cEnv (arr ! (sOff sl + i))))"

definition specCells :: "'x heap \<Rightarrow> 'x podSpec \<Rightarrow> (ref \<times> nat) set" where
  "specCells h s =
     arrCells (contArrs h (sArr (Containers s))) (Containers s) \<union>
     arrCells (contArrs h (sArr (InitContainers s))) (InitContainers s) \<union>
     arrCells (ephArrs h (sArr (EphemeralContainers s))) (EphemeralContainers s)"

definition entryCells :: "'x heap \<Rightarrow> entry \<Rightarrow> (ref \<times> nat) set" where
  "entryCells h e = (case entrySpec h e of None \<Rightarrow> {} | Some s \<Rightarrow> specCells h s)"

lemma redactVar_idem [simp]: "redactVar (redactVar v) = redactVar v"
  by (simp add: redactVar_def)

lemma redactVar_sel [simp]:
  "evValue (redactVar v) = redacted" "evName (redactVar v) = evName v" "evRest (redactVar v) = evRest v"
  by (simp_all add: redactVar_def)

lemma redactSet_sel [simp]:
  "pods (redactSet S h) = pods h" "deployments (redactSet S h) = deployments h"
  "contArrs (redactSet S h) = contArrs h" "ephArrs (redactSet S h) = ephArrs h"
  "otherMem (redactSet S h) = otherMem h"
  "length (envArrs (redactSet S h) a) = length (envArrs h a)"
  by (simp_all add: redactSet_def)

lemma redactSet_nth:
  "i < length (envArrs h a) \<Longrightarrow>
   envArrs (redactSet S h) a ! i =
     (if (a, i) \<in> S then redactVar (envArrs h a ! i) else envArrs h a ! i)"
  by (simp add: redactSet_def)

lemma heap_eqI:
  fixes h h' :: "'x heap"
  assumes "pods h = pods h'" "deployments h = deployments h'" "contArrs h = contArrs h'"
    "ephArrs h = ephArrs h'" "otherMem h = otherMem h'"
    and "\<And>a. length (envArrs h a) = length (envArrs h' a)"
    and "\<And>a i. i < length (envArrs h a) \<Longrightarrow> envArrs h a ! i = envArrs h' a ! i"
  shows "h = h'"
proof -
  have "envArrs h = envArrs h'"
    using assms(6,7) by (intro ext nth_equalityI) auto
  with assms(1-5) show ?thesis by simp
qed

lemma redactSet_empty [simp]: "redactSet {} h = h"
  by (rule heap_eqI) (auto simp: redactSet_nth)

lemma redactSet_redactSet [simp]: "redactSet S (redactSet T h) = redactSet (S \<union> T) h"
  by (rule heap_eqI) (auto simp: redactSet_nth)

lemma envAssign_redact:
  "envAssign sl i ((envArrs h (sArr sl) ! (sOff sl + i))\<lparr>evValue := redacted\<rparr>) h =
     redactSet {(sArr sl, sOff sl + i)} h"
  by (rule heap_eqI)
    (auto simp: redactSet_nth envAssign_def nth_list_update redactVar_def)

section \<open>The loops equal the reference\<close>

lemma sliceCells_Suc:
  "(\<lambda>i. (a, k + i)) ` {..<Suc n} = insert (a, k + n) ((\<lambda>i. (a, k + i)) ` {..<n :: nat})"
  by (simp add: lessThan_Suc)

lemma scrubEnv_eq: "scrubEnv h env = (redactSet (sliceCells env) h, env)"
proof -
  let ?step = "\<lambda>i h. let ev = envArrs h (sArr env) ! (sOff env + i); ev = ev\<lparr>evValue := redacted\<rparr>
                 in envAssign env i ev h"
  have "fold ?step [0..<n] h = redactSet ((\<lambda>i. (sArr env, sOff env + i)) ` {..<n}) h" for n
  proof (induction n)
    case (Suc n)
    then show ?case by (simp add: Let_def envAssign_redact sliceCells_Suc)
  qed simp
  then show ?thesis by (simp add: scrubEnv_def sliceCells_def)
qed

lemma contAssign_self: "contAssign sl i (contArrs h (sArr sl) ! (sOff sl + i)) h = h"
  by (simp add: contAssign_def)

lemma ephAssign_self: "ephAssign sl i (ephArrs h (sArr sl) ! (sOff sl + i)) h = h"
  by (simp add: ephAssign_def)

lemma scrubContainer_eq: "scrubContainer h c = (redactSet (sliceCells (cEnv c)) h, c)"
  by (simp add: scrubContainer_def scrubEnv_eq)

lemma scrubContainers_eq:
  "scrubContainers sl h = redactSet (arrCells (contArrs h (sArr sl)) sl) h"
proof -
  let ?step = "\<lambda>i h. let cont = contArrs h (sArr sl) ! (sOff sl + i); (h, cont) = scrubContainer h cont
                 in contAssign sl i cont h"
  have "fold ?step [0..<n] h =
      redactSet (\<Union>i\<in>{..<n}. sliceCells (cEnv (contArrs h (sArr sl) ! (sOff sl + i)))) h" for n
  proof (induction n)
    case (Suc n)
    have self: "contAssign sl n (contArrs h (sArr sl) ! (sOff sl + n)) (redactSet S h) = redactSet S h" for S
      using contAssign_self [of sl n "redactSet S h"] by simp
    from Suc show ?case by (simp add: Let_def scrubContainer_eq self lessThan_Suc)
  qed simp
  then show ?thesis by (simp add: scrubContainers_def arrCells_def)
qed

lemma scrubEphemerals_eq:
  "scrubEphemerals sl h = redactSet (arrCells (ephArrs h (sArr sl)) sl) h"
proof -
  let ?step = "\<lambda>i h. let cont = ephArrs h (sArr sl) ! (sOff sl + i); (h, env) = scrubEnv h (cEnv cont)
                 in ephAssign sl i (cont\<lparr>cEnv := env\<rparr>) h"
  have "fold ?step [0..<n] h =
      redactSet (\<Union>i\<in>{..<n}. sliceCells (cEnv (ephArrs h (sArr sl) ! (sOff sl + i)))) h" for n
  proof (induction n)
    case (Suc n)
    have self: "ephAssign sl n (ephArrs h (sArr sl) ! (sOff sl + n)) (redactSet S h) = redactSet S h" for S
      using ephAssign_self [of sl n "redactSet S h"] by simp
    from Suc show ?case by (simp add: Let_def scrubEnv_eq self lessThan_Suc)
  qed simp
  then show ?thesis by (simp add: scrubEphemerals_def arrCells_def)
qed

lemma scrubPodSpec_eq: "scrubPodSpec h s = (redactSet (specCells h s) h, s)"
  by (simp add: scrubPodSpec_def scrubContainers_eq scrubEphemerals_eq specCells_def Let_def Un_ac)

lemma specCells_redactSet [simp]: "specCells (redactSet S h) s = specCells h s"
  by (simp add: specCells_def)

lemma entrySpec_redactSet [simp]: "entrySpec (redactSet S h) e = entrySpec h e"
  by (simp add: entrySpec_def split: option.split)

lemma entryCells_redactSet [simp]: "entryCells (redactSet S h) e = entryCells h e"
  by (simp add: entryCells_def split: option.split)

lemma scrubPod_Some:
  "scrubPod h (Some r) = Ret (redactSet (specCells h (pSpec (pods h r))) h)"
  by (simp add: scrubPod_def scrubPodSpec_eq)

text \<open>The handler, for an entry that one of the constructors made: every cell the entry reaches is
  redacted, nothing else changes, and the entry is sent on.\<close>

lemma scrubber_wf:
  assumes "wf_entry e"
  shows "scrubber h e = Ret (redactSet (entryCells h e) h, Some e)"
proof -
  consider "objectType e = OTPod" | "objectType e = OTDeployment" "objectType e \<noteq> OTPod"
    | "objectType e \<noteq> OTPod" "objectType e \<noteq> OTDeployment" by blast
  then show ?thesis
  proof cases
    case 1
    with assms wf_entry_Pod obtain p where
      "Entry_Pod e = Inr (Some p)" "data e = Some \<lparr>okind = KPod, optr = Some p\<rparr>" by blast
    with 1 show ?thesis
      by (simp add: scrubber_def scrubPod_Some entryCells_def entrySpec_def)
  next
    case 2
    with assms wf_entry_Deployment obtain p where
      "Entry_Deployment e = Inr (Some p)" "data e = Some \<lparr>okind = KDeployment, optr = Some p\<rparr>" by blast
    with 2 show ?thesis
      by (simp add: scrubber_def scrubPodSpec_eq entryCells_def entrySpec_def)
  next
    case 3
    with assms have "entrySpec h e = None"
      by (auto simp: wf_entry_def entrySpec_def split: option.splits)
    with 3 show ?thesis by (simp add: scrubber_def entryCells_def)
  qed
qed

section \<open>What the reference means for what an entry shows\<close>

definition allRedacted :: "'x heap \<Rightarrow> entry \<Rightarrow> bool" where
  "allRedacted h e \<longleftrightarrow> (\<forall>v \<in> set (entryEnv h e). evValue v = redacted)"

lemma wf_heap_redactSet [simp]: "wf_heap (redactSet S h) = wf_heap h"
  by (simp add: wf_heap_def wf_spec_def inBounds_def)

lemma envOf_redactSet:
  assumes "inBounds (envArrs h (sArr (cEnv c))) (cEnv c)"
  shows "envOf (redactSet S h) c =
    map (\<lambda>i. let a = sArr (cEnv c); k = sOff (cEnv c) + i
              in if (a, k) \<in> S then redactVar (envArrs h a ! k) else envArrs h a ! k) [0..<sLen (cEnv c)]"
  using assms
  by (intro nth_equalityI)
    (auto simp: envOf_def length_elems elems_nth inBounds_def redactSet_nth Let_def)

lemma container_inBounds:
  assumes "wf_heap h" "wf_spec h s" "c \<in> set (specContainers h s)"
  shows "inBounds (envArrs h (sArr (cEnv c))) (cEnv c)"
proof -
  have "elems arr sl \<noteq> [] \<Longrightarrow> x \<in> set (elems arr sl) \<Longrightarrow> x \<in> set arr" for arr sl and x :: "'a container"
    by (auto simp: elems_def dest: in_set_takeD in_set_dropD)
  then have "(\<exists>a. c \<in> set (contArrs h a)) \<or> (\<exists>a. c \<in> set (ephArrs h a))"
    using assms(3) by (auto simp: specContainers_def dest!: in_set_takeD in_set_dropD simp: elems_def)
  with assms(1) show ?thesis by (auto simp: wf_heap_def)
qed

lemma container_cells:
  assumes "wf_spec h s" "c \<in> set (specContainers h s)"
  shows "sliceCells (cEnv c) \<subseteq> specCells h s"
  using assms by (auto simp: specContainers_def specCells_def arrCells_def wf_spec_def in_elems_iff)

lemma entrySpec_wf: "wf_heap h \<Longrightarrow> entrySpec h e = Some s \<Longrightarrow> wf_spec h s"
  by (auto simp: entrySpec_def wf_heap_def split: option.splits if_splits)

lemma specContainers_redactSet [simp]: "specContainers (redactSet S h) s = specContainers h s"
  by (simp add: specContainers_def)

lemma specEnv_redactSet_value:
  assumes "wf_heap h" "wf_spec h s" "v \<in> set (specEnv (redactSet S h) s)"
  obtains "evValue v = redacted"
  | "v \<in> set (specEnv h s)" "\<not> specCells h s \<subseteq> S"
proof -
  from assms(3) obtain c where c: "c \<in> set (specContainers h s)" "v \<in> set (envOf (redactSet S h) c)"
    by (auto simp: specEnv_def)
  note ib = container_inBounds [OF assms(1,2) c(1)]
  from c(2) obtain i where i: "i < sLen (cEnv c)"
    "v = (if (sArr (cEnv c), sOff (cEnv c) + i) \<in> S then redactVar (envArrs h (sArr (cEnv c)) ! (sOff (cEnv c) + i))
          else envArrs h (sArr (cEnv c)) ! (sOff (cEnv c) + i))"
    by (auto simp: envOf_redactSet [OF ib] Let_def)
  show thesis
  proof (cases "(sArr (cEnv c), sOff (cEnv c) + i) \<in> S")
    case True
    with i show thesis by (intro that(1)) simp
  next
    case False
    have "(sArr (cEnv c), sOff (cEnv c) + i) \<in> specCells h s"
      using container_cells [OF assms(2) c(1)] i(1) by (auto simp: sliceCells_def)
    with False have "\<not> specCells h s \<subseteq> S" by blast
    moreover from False i ib have "v \<in> set (envOf h c)"
      by (auto simp: envOf_def in_elems_iff)
    with c(1) have "v \<in> set (specEnv h s)" by (auto simp: specEnv_def)
    ultimately show thesis by (rule that(2) [rotated])
  qed
qed

lemma allRedacted_now: "wf_heap h \<Longrightarrow> entryCells h e \<subseteq> S \<Longrightarrow> allRedacted (redactSet S h) e"
  by (auto simp: allRedacted_def entryEnv_def entryCells_def split: option.splits
      elim: specEnv_redactSet_value dest: entrySpec_wf)

lemma allRedacted_stays:
  assumes "wf_heap h" and "allRedacted h e"
  shows "allRedacted (redactSet S h) e"
proof (cases "entrySpec h e")
  case (Some s)
  with assms have "wf_spec h s" and "\<forall>v \<in> set (specEnv h s). evValue v = redacted"
    by (simp_all add: entrySpec_wf allRedacted_def entryEnv_def)
  with assms(1) Some show ?thesis
    by (auto simp: allRedacted_def entryEnv_def elim: specEnv_redactSet_value)
qed (simp add: allRedacted_def entryEnv_def)

text \<open>Names and the rest of the variables survive.\<close>

lemma envOf_names:
  assumes "inBounds (envArrs h (sArr (cEnv c))) (cEnv c)"
  shows "map (\<lambda>v. (evName v, evRest v)) (envOf (redactSet S h) c) = map (\<lambda>v. (evName v, evRest v)) (envOf h c)"
  using assms
  by (intro nth_equalityI)
    (auto simp: envOf_def length_elems elems_nth inBounds_def redactSet_nth Let_def)

lemma entryEnv_names:
  assumes "wf_heap h"
  shows "map (\<lambda>v. (evName v, evRest v)) (entryEnv (redactSet S h) e) = map (\<lambda>v. (evName v, evRest v)) (entryEnv h e)"
proof (cases "entrySpec h e")
  case (Some s)
  have "map (\<lambda>v. (evName v, evRest v)) (envOf (redactSet S h) c) = map (\<lambda>v. (evName v, evRest v)) (envOf h c)"
    if "c \<in> set (specContainers h s)" for c
    using envOf_names container_inBounds [OF assms entrySpec_wf [OF assms Some] that] by blast
  then have "map (map (\<lambda>v. (evName v, evRest v)) \<circ> envOf (redactSet S h)) (specContainers h s) =
      map (map (\<lambda>v. (evName v, evRest v)) \<circ> envOf h) (specContainers h s)"
    by simp
  from arg_cong [OF this, of concat] Some show ?thesis
    by (simp add: entryEnv_def specEnv_def map_concat del: map_eq_conv)
qed (simp add: entryEnv_def)

section \<open>The stage\<close>

lemma scrubber_forwards: "scrubber h e = Ret (h', Some e') \<Longrightarrow> e' = e"
  by (auto simp: scrubber_def Let_def split_beta split: if_splits sum.splits option.splits)

interpretation secrets: stage scrubber Secrets_run
  by unfold_locales (simp_all add: scrubber_forwards)

text \<open>On constructed entries the stage sends on every entry and redacts what they all reach.\<close>

lemma Secrets_run_wf:
  assumes "\<forall>e \<in> set es. wf_entry e"
  shows "Secrets_run h es = Ret (redactSet (\<Union>e \<in> set es. entryCells h e) h, es)"
  using assms
proof (induction es arbitrary: h)
  case (Cons e es)
  then show ?case by (simp add: scrubber_wf Un_commute)
qed simp

end
