(* ===== verification/Preprocess.thy ===== *)
theory Preprocess
  imports Stage Heap
begin

text \<open>
  The package \<^verbatim>\<open>internal/preprocess\<close>: a stage that applies the user's functions to every entry and
  drops the entry at the first error. A processor is given the entry by value but may write through
  its pointer, so it is a function on the memory.
\<close>

type_synonym 'x processor = "'x heap \<Rightarrow> entry \<Rightarrow> 'x heap \<times> gerr option"

fun processEntry :: "'x processor list \<Rightarrow> 'x heap \<Rightarrow> entry \<Rightarrow> 'x heap \<times> gerr option" where
  "processEntry [] h e = (h, None)"
| "processEntry (p # ps) h e =
     (case p h e of
        (h, Some err) \<Rightarrow> (h, Some err)
      | (h, None) \<Rightarrow> processEntry ps h e)"

text \<open>\<^verbatim>\<open>Runner.run\<close>: the memory and what was sent on the output channel before it is closed.\<close>

fun Preprocess_run :: "'x processor list \<Rightarrow> 'x heap \<Rightarrow> entry list \<Rightarrow> 'x heap \<times> entry list" where
  "Preprocess_run ps h [] = (h, [])"
| "Preprocess_run ps h (e # es) =
     (case processEntry ps h e of
        (h, Some err) \<Rightarrow> Preprocess_run ps h es
      | (h, None) \<Rightarrow> (let (h, out) = Preprocess_run ps h es in (h, e # out)))"

text \<open>The handler of one entry, in the form the pipeline composes.\<close>

definition preStep :: "'x processor list \<Rightarrow> 'x heap \<Rightarrow> entry \<Rightarrow> 'x heap \<times> entry option" where
  "preStep ps h e =
     (let (h, err) = processEntry ps h e in (h, if err = None then Some e else None))"

interpretation preprocess: stage "\<lambda>h e. Ret (preStep ps h e)" "\<lambda>h es. Ret (Preprocess_run ps h es)"
  for ps :: "'x processor list"
  by unfold_locales
    (auto simp: preStep_def Let_def split_beta split: option.splits if_splits)

text \<open>The processors run in order, each on the memory its predecessor left, and stop at the first
  error.\<close>

lemma processEntry_append:
  "processEntry (ps @ qs) h e =
     (case processEntry ps h e of
        (h, Some err) \<Rightarrow> (h, Some err)
      | (h, None) \<Rightarrow> processEntry qs h e)"
  by (induction ps arbitrary: h) (auto split: prod.split option.split)

lemma processEntry_inv:
  assumes "\<And>p h. p \<in> set ps \<Longrightarrow> I h \<Longrightarrow> I (fst (p h e))" and "I h"
  shows "I (fst (processEntry ps h e))"
  using assms
proof (induction ps arbitrary: h)
  case (Cons p ps)
  have "I (fst (p h e))" using Cons.prems by simp
  with Cons show ?case by (cases "p h e") (auto split: option.split)
qed simp

text \<open>Processors whose verdict does not depend on the memory act as a filter.\<close>

lemma Preprocess_run_filter:
  assumes "\<And>h e. snd (processEntry ps h e) = None \<longleftrightarrow> keep e"
  shows "snd (Preprocess_run ps h es) = filter keep es"
proof (induction es arbitrary: h)
  case (Cons e es)
  from assms [of h e] Cons show ?case
    by (auto simp: split_beta Let_def split: prod.splits option.splits)
qed simp

end
