(* ===== verification/Separation.thy ===== *)
theory Separation
  imports Safety Preprocess
begin

text \<open>
  What the user's processors may do. Objects that were decoded apart share no memory: two entries are
  separate when they carry different objects and reach no common container or variable. A processor
  is local when it stays within the memory of its own entry; it may rewrite that as it likes.
\<close>

section \<open>Footprints\<close>

definition entryConts :: "'x heap \<Rightarrow> entry \<Rightarrow> (ref \<times> nat) set" where
  "entryConts h e =
     (case entrySpec h e of None \<Rightarrow> {} | Some s \<Rightarrow> sliceCells (Containers s) \<union> sliceCells (InitContainers s))"

definition entryEphs :: "'x heap \<Rightarrow> entry \<Rightarrow> (ref \<times> nat) set" where
  "entryEphs h e = (case entrySpec h e of None \<Rightarrow> {} | Some s \<Rightarrow> sliceCells (EphemeralContainers s))"

definition footprint :: "'x heap \<Rightarrow> entry \<Rightarrow> (ref \<times> nat) set \<times> (ref \<times> nat) set \<times> (ref \<times> nat) set" where
  "footprint h e = (entryConts h e, entryEphs h e, entryCells h e)"

definition separate :: "'x heap \<Rightarrow> entry \<Rightarrow> entry \<Rightarrow> bool" where
  "separate h e e' \<longleftrightarrow>
     data e \<noteq> data e' \<and> entryConts h e \<inter> entryConts h e' = {} \<and> entryEphs h e \<inter> entryEphs h e' = {} \<and>
     entryCells h e \<inter> entryCells h e' = {}"

lemma separate_sym: "separate h e e' \<longleftrightarrow> separate h e' e"
  by (auto simp: separate_def)

lemma separate_cong:
  "footprint h' e = footprint h e \<Longrightarrow> footprint h' e' = footprint h e' \<Longrightarrow> separate h' e e' = separate h e e'"
  by (simp add: footprint_def separate_def)

lemma footprint_redactSet [simp]: "footprint (redactSet S h) e = footprint h e"
  by (simp add: footprint_def entryConts_def entryEphs_def split: option.split)

definition apart :: "'x heap \<Rightarrow> entry list \<Rightarrow> bool" where
  "apart h es \<longleftrightarrow> distinct es \<and> pairwise (separate h) (set es)"

lemma apart_redactSet [simp]: "apart (redactSet S h) es = apart h es"
  using separate_cong [of "redactSet S h" _ h] by (simp add: apart_def pairwise_def)

lemma apart_subseq: "apart h es \<Longrightarrow> subseq es' es \<Longrightarrow> apart h es'"
  by (auto simp: apart_def dest: subseq_distinct subseq_set pairwise_subset)

section \<open>Local processors\<close>

definition leavesAlone :: "'x heap \<Rightarrow> entry \<Rightarrow> entry \<Rightarrow> 'x heap \<Rightarrow> bool" where
  "leavesAlone h e e' h' \<longleftrightarrow>
     entryEnv h' e' = entryEnv h e' \<and> footprint h' e' = footprint h e' \<and> separate h' e e'"

definition proc_local :: "'x processor \<Rightarrow> bool" where
  "proc_local p \<longleftrightarrow>
     (\<forall>h e. wf_heap h \<longrightarrow> wf_heap (fst (p h e)) \<and> (\<forall>e'. separate h e e' \<longrightarrow> leavesAlone h e e' (fst (p h e))))"

lemma preStep_local:
  assumes "\<forall>p \<in> set procs. proc_local p" and "wf_heap h"
  shows "wf_heap (fst (preStep procs h e)) \<and>
     (separate h e e' \<longrightarrow> leavesAlone h e e' (fst (preStep procs h e)))"
proof -
  let ?I = "\<lambda>h'. wf_heap h' \<and> (separate h e e' \<longrightarrow> leavesAlone h e e' h')"
  have "?I (fst (p h' e))" if "p \<in> set procs" "?I h'" for p h'
    using assms(1) that by (auto simp: proc_local_def leavesAlone_def)
  moreover have "?I h" using assms(2) by (simp add: leavesAlone_def)
  ultimately have "?I (fst (processEntry procs h e))" using processEntry_inv [where I = ?I] by blast
  then show ?thesis by (simp add: preStep_def split_beta Let_def)
qed

text \<open>A local step on an entry keeps the others apart.\<close>

lemma apart_local:
  assumes "apart h es" and "e \<in> set es" and "\<And>e'. separate h e e' \<Longrightarrow> leavesAlone h e e' h'"
  shows "apart h' es"
proof -
  have foot: "leavesAlone h e x h'" if "x \<in> set es" "x \<noteq> e" for x
    using assms that by (auto simp: apart_def pairwise_def)
  have "separate h' x y" if "x \<in> set es" "y \<in> set es" "x \<noteq> y" for x y
  proof (cases "x = e \<or> y = e")
    case True
    with foot that show ?thesis unfolding leavesAlone_def using separate_sym by blast
  next
    case False
    then have "footprint h' x = footprint h x" "footprint h' y = footprint h y"
      using foot that by (auto simp: leavesAlone_def)
    then have "separate h' x y = separate h x y" by (rule separate_cong)
    with assms(1) that show ?thesis by (simp add: apart_def pairwise_def)
  qed
  with assms(1) show ?thesis by (simp add: apart_def pairwise_def)
qed

section \<open>A processor that writes\<close>

text \<open>Overwriting the values of one's own variables is local: the notion does not rule out processors
  that alter data.\<close>

definition overwrite :: "string \<Rightarrow> 'x processor" where
  "overwrite x h e =
     (h\<lparr>envArrs := (\<lambda>a. map (\<lambda>i. if (a, i) \<in> entryCells h e then (envArrs h a ! i)\<lparr>evValue := x\<rparr> else envArrs h a ! i)
                        [0..<length (envArrs h a)])\<rparr>, None)"

lemma overwrite_sel [simp]:
  "pods (fst (overwrite x h e)) = pods h" "deployments (fst (overwrite x h e)) = deployments h"
  "contArrs (fst (overwrite x h e)) = contArrs h" "ephArrs (fst (overwrite x h e)) = ephArrs h"
  "length (envArrs (fst (overwrite x h e)) a) = length (envArrs h a)"
  by (simp_all add: overwrite_def)

lemma entrySpec_cong:
  "pods h' = pods h \<Longrightarrow> deployments h' = deployments h \<Longrightarrow> entrySpec h' e = entrySpec h e"
  by (simp add: entrySpec_def split: option.split)

lemma footprint_cong:
  assumes "pods h' = pods h" "deployments h' = deployments h" "contArrs h' = contArrs h" "ephArrs h' = ephArrs h"
  shows "footprint h' e = footprint h e"
  using assms entrySpec_cong [OF assms(1,2), of e]
  by (simp add: footprint_def entryConts_def entryEphs_def entryCells_def specCells_def split: option.split)

lemma entryEnv_cong:
  assumes same: "pods h' = pods h" "deployments h' = deployments h" "contArrs h' = contArrs h" "ephArrs h' = ephArrs h"
    and wf: "wf_heap h" and len: "\<And>a. length (envArrs h' a) = length (envArrs h a)"
    and cells: "\<And>a i. (a, i) \<in> entryCells h e \<Longrightarrow> i < length (envArrs h a) \<Longrightarrow> envArrs h' a ! i = envArrs h a ! i"
  shows "entryEnv h' e = entryEnv h e"
proof (cases "entrySpec h e")
  case (Some s)
  note s = entrySpec_wf [OF wf Some]
  have "envOf h' c = envOf h c" if c: "c \<in> set (specContainers h s)" for c
  proof -
    have ib: "inBounds (envArrs h (sArr (cEnv c))) (cEnv c)" by (rule container_inBounds [OF wf s c])
    have "sliceCells (cEnv c) \<subseteq> entryCells h e"
      using container_cells [OF s c] Some by (simp add: entryCells_def)
    then have "envArrs h' (sArr (cEnv c)) ! (sOff (cEnv c) + i) = envArrs h (sArr (cEnv c)) ! (sOff (cEnv c) + i)"
      if "i < sLen (cEnv c)" for i
      using that ib by (intro cells) (auto simp: sliceCells_def inBounds_def)
    then show ?thesis
      using ib len by (intro nth_equalityI) (simp_all add: envOf_def length_elems elems_nth inBounds_def)
  qed
  moreover have "specContainers h' s = specContainers h s" using same by (simp add: specContainers_def)
  ultimately have "specEnv h' s = specEnv h s" by (simp add: specEnv_def cong: map_cong)
  with Some entrySpec_cong [OF same(1,2), of e] show ?thesis by (simp add: entryEnv_def)
qed (simp add: entryEnv_def entrySpec_cong [OF same(1,2), of e])

lemma overwrite_local: "proc_local (overwrite x)"
  unfolding proc_local_def
proof (intro allI impI conjI)
  fix h :: "'a heap" and e
  assume wf: "wf_heap h"
  then show "wf_heap (fst (overwrite x h e))"
    by (simp add: wf_heap_def wf_spec_def inBounds_def)
  fix e'
  assume sep: "separate h e e'"
  have foot: "footprint (fst (overwrite x h e)) d = footprint h d" for d
    by (rule footprint_cong) simp_all
  have "entryEnv (fst (overwrite x h e)) e' = entryEnv h e'"
  proof (rule entryEnv_cong [OF _ _ _ _ wf])
    fix a i
    assume "(a, i) \<in> entryCells h e'" and "i < length (envArrs h a)"
    then show "envArrs (fst (overwrite x h e)) a ! i = envArrs h a ! i"
      using sep by (auto simp: overwrite_def separate_def)
  qed simp_all
  then show "leavesAlone h e e' (fst (overwrite x h e))"
    using sep foot separate_cong [OF foot foot] by (simp add: leavesAlone_def)
qed

end
