(* ===== verification/Steps.thy ===== *)
theory Steps
  imports Main
begin

text \<open>
  Two notions that the step relations of the program share: one that decreases a list of measures ends,
  and one that is simulated by another reaches only what the other reaches.
\<close>

locale terminating =
  fixes step :: "'s \<Rightarrow> 's \<Rightarrow> bool" and ranks :: "('s \<Rightarrow> nat) list"
  assumes decreases: "step s t \<Longrightarrow> (t, s) \<in> measures ranks"
begin

lemma wf_step: "wf {(t, s). step s t}"
  by (rule wf_subset [OF wf_measures [of ranks]]) (auto simp: decreases)

text \<open>So every state has a state of rest before it.\<close>

lemma rests: "\<exists>s. step\<^sup>*\<^sup>* s0 s \<and> (\<forall>t. \<not> step s t)"
proof (induction s0 rule: wf_induct [OF wf_step])
  case (1 s0)
  show ?case
  proof (cases "\<exists>t. step s0 t")
    case True
    then obtain t where t: "step s0 t" by blast
    with 1 obtain s where "step\<^sup>*\<^sup>* t s" "\<forall>u. \<not> step s u" by blast
    with converse_rtranclp_into_rtranclp [where r = step, OF t] show ?thesis by blast
  qed blast
qed

end

locale simulation =
  fixes step :: "'c \<Rightarrow> 'c \<Rightarrow> bool" and spec :: "'a \<Rightarrow> 'a \<Rightarrow> bool" and abs :: "'c \<Rightarrow> 'a" and inv :: "'c \<Rightarrow> bool"
  assumes keeps: "step s t \<Longrightarrow> inv s \<Longrightarrow> inv t"
    and simulates: "step s t \<Longrightarrow> inv s \<Longrightarrow> spec\<^sup>=\<^sup>= (abs s) (abs t)"
begin

lemma reach: "step\<^sup>*\<^sup>* s t \<Longrightarrow> inv s \<Longrightarrow> inv t \<and> spec\<^sup>*\<^sup>* (abs s) (abs t)"
proof (induction rule: rtranclp_induct)
  case (step t u)
  then have t: "inv t" "spec\<^sup>*\<^sup>* (abs s) (abs t)" by simp_all
  with keeps [OF step(2)] simulates [OF step(2)] show ?case by (auto intro: rtranclp.rtrancl_into_rtrancl)
qed simp

end

text \<open>Two simulations, one on top of the other, are one.\<close>

locale simulation_chain =
  lower: simulation step mid abs inv + upper: simulation mid spec abs' inv'
  for step :: "'c \<Rightarrow> 'c \<Rightarrow> bool" and mid :: "'m \<Rightarrow> 'm \<Rightarrow> bool" and spec :: "'a \<Rightarrow> 'a \<Rightarrow> bool"
    and abs :: "'c \<Rightarrow> 'm" and inv :: "'c \<Rightarrow> bool" and abs' :: "'m \<Rightarrow> 'a" and inv' :: "'m \<Rightarrow> bool" +
  assumes fits: "inv s \<Longrightarrow> inv' (abs s)"

sublocale simulation_chain \<subseteq> whole: simulation step spec "\<lambda>s. abs' (abs s)" inv
proof unfold_locales
  fix s t assume st: "step s t" "inv s"
  then show "inv t" by (rule lower.keeps)
  from lower.simulates [OF st] upper.simulates [of "abs s" "abs t"] fits [OF st(2)]
  show "spec\<^sup>=\<^sup>= (abs' (abs s)) (abs' (abs t))" by auto
qed

end
