(* ===== verification/Pipeline.thy ===== *)
theory Pipeline
  imports Separation Steps
begin

text \<open>
  The pipeline that \<^verbatim>\<open>tattler.New\<close> wires up, as the goroutines really run: the preprocessing stage,
  the scrubber and the router each take an entry, work on it and pass it on, in any interleaving,
  over one shared memory. The two channels \<^verbatim>\<open>New\<close> makes have a buffer of one entry. A stage handles
  one entry at once (\<open>Fine\<close> takes its accesses apart, and shows that nothing is lost). Without preprocessors there is no preprocessing stage and the scrubber reads
  the input channel itself.
\<close>

record 'x pipe =
  mem :: "'x heap"
  inQ :: "entry list"           \<comment> \<open>what the input channel has still to deliver\<close>
  preHold :: "entry option"     \<comment> \<open>processed, waiting to be sent to the scrubber\<close>
  secretsInQ :: "entry list"
  secHold :: "entry option"     \<comment> \<open>scrubbed, waiting to be sent to the router\<close>
  routerInQ :: "entry list"
  routed :: "entry list"        \<comment> \<open>taken by the router, in order\<close>

definition chanBuffer :: nat where
  "chanBuffer = 1"

definition pipeInit :: "'x heap \<Rightarrow> entry list \<Rightarrow> 'x pipe" where
  "pipeInit h es = \<lparr>mem = h, inQ = es, preHold = None, secretsInQ = [], secHold = None,
     routerInQ = [], routed = []\<rparr>"

inductive pipe_step :: "'x processor list option \<Rightarrow> 'x pipe \<Rightarrow> 'x pipe \<Rightarrow> bool"
  for ps :: "'x processor list option" where
  pre_take: "ps = Some procs \<Longrightarrow> inQ s = e # q \<Longrightarrow> preHold s = None \<Longrightarrow>
     preStep procs (mem s) e = (m, sent) \<Longrightarrow>
     pipe_step ps s (s\<lparr>mem := m, inQ := q, preHold := sent\<rparr>)"
| pre_send: "preHold s = Some e \<Longrightarrow> length (secretsInQ s) < chanBuffer \<Longrightarrow>
     pipe_step ps s (s\<lparr>preHold := None, secretsInQ := secretsInQ s @ [e]\<rparr>)"
| sec_take: "secretsInQ s = e # q \<Longrightarrow> secHold s = None \<Longrightarrow> scrubber (mem s) e = Ret (m, sent) \<Longrightarrow>
     pipe_step ps s (s\<lparr>mem := m, secretsInQ := q, secHold := sent\<rparr>)"
| sec_direct: "ps = None \<Longrightarrow> inQ s = e # q \<Longrightarrow> secHold s = None \<Longrightarrow>
     scrubber (mem s) e = Ret (m, sent) \<Longrightarrow>
     pipe_step ps s (s\<lparr>mem := m, inQ := q, secHold := sent\<rparr>)"
| sec_send: "secHold s = Some e \<Longrightarrow> length (routerInQ s) < chanBuffer \<Longrightarrow>
     pipe_step ps s (s\<lparr>secHold := None, routerInQ := routerInQ s @ [e]\<rparr>)"
| router_take: "routerInQ s = e # q \<Longrightarrow>
     pipe_step ps s (s\<lparr>routerInQ := q, routed := routed s @ [e]\<rparr>)"

inductive_cases pipe_stepE: "pipe_step ps s t"

section \<open>Order\<close>

definition hold :: "entry option \<Rightarrow> entry list" where
  "hold x = (case x of None \<Rightarrow> [] | Some e \<Rightarrow> [e])"

lemma hold_simps [simp]: "hold None = []" "hold (Some e) = [e]"
  by (simp_all add: hold_def)

text \<open>Everything the pipeline holds, the oldest entry first.\<close>

definition content :: "'x pipe \<Rightarrow> entry list" where
  "content s = routed s @ routerInQ s @ hold (secHold s) @ secretsInQ s @ hold (preHold s) @ inQ s"

lemma content_init [simp]: "content (pipeInit h es) = es"
  by (simp add: content_def pipeInit_def)

lemma subseq_remove: "subseq (xs @ hold sent @ ys) (xs @ e # ys)" if "\<forall>e'. sent = Some e' \<longrightarrow> e' = e"
  using that by (cases sent) (auto intro: list_emb_append_mono)

lemma preStep_forwards: "preStep procs h e = (m, Some e') \<Longrightarrow> e' = e"
  by (auto simp: preStep_def Let_def split_beta split: if_splits)

text \<open>Without preprocessors the first two places stay empty.\<close>

definition direct_inv :: "'x processor list option \<Rightarrow> 'x pipe \<Rightarrow> bool" where
  "direct_inv ps s \<longleftrightarrow> (ps = None \<longrightarrow> secretsInQ s = [] \<and> preHold s = None)"

lemma direct_inv_step: "pipe_step ps s t \<Longrightarrow> direct_inv ps s \<Longrightarrow> direct_inv ps t"
  by (induction rule: pipe_step.induct) (auto simp: direct_inv_def)

lemma step_content: "pipe_step ps s t \<Longrightarrow> direct_inv ps s \<Longrightarrow> subseq (content t) (content s)"
proof (induction rule: pipe_step.induct)
  case (pre_take procs s e q m sent)
  then have fw: "\<forall>e'. sent = Some e' \<longrightarrow> e' = e" by (auto dest: preStep_forwards)
  from pre_take subseq_remove [OF fw, of "routed s @ routerInQ s @ hold (secHold s) @ secretsInQ s" q] show ?case
    by (simp add: content_def)
next
  case (sec_take s e q m sent)
  then have fw: "\<forall>e'. sent = Some e' \<longrightarrow> e' = e" by (auto dest: scrubber_forwards)
  from sec_take subseq_remove [OF fw, of "routed s @ routerInQ s" "q @ hold (preHold s) @ inQ s"] show ?case
    by (simp add: content_def)
next
  case (sec_direct s e q m sent)
  then have fw: "\<forall>e'. sent = Some e' \<longrightarrow> e' = e" by (auto dest: scrubber_forwards)
  from sec_direct subseq_remove [OF fw, of "routed s @ routerInQ s" q] show ?case
    by (simp add: content_def direct_inv_def)
qed (simp_all add: content_def)

lemma direct_inv_init [simp]: "direct_inv ps (pipeInit h es)"
  by (simp add: direct_inv_def pipeInit_def)

lemma reach_content:
  "(pipe_step ps)\<^sup>*\<^sup>* (pipeInit h es) s \<Longrightarrow> direct_inv ps s \<and> subseq (content s) es"
proof (induction rule: rtranclp_induct)
  case (step s t)
  then show ?case
    using direct_inv_step step_content subseq_order.trans by blast
qed simp

lemma reach_subset: "(pipe_step ps)\<^sup>*\<^sup>* (pipeInit h es) s \<Longrightarrow> set (content s) \<subseteq> set es"
  by (drule reach_content) (auto dest: subseq_set)

section \<open>Nothing is lost\<close>

text \<open>On constructed entries the scrubber drops nothing, so without preprocessors the content is the
  input, whatever the interleaving.\<close>

lemma step_content_direct:
  "pipe_step None s t \<Longrightarrow> direct_inv None s \<Longrightarrow> \<forall>e \<in> set (content s). wf_entry e \<Longrightarrow> content t = content s"
  by (erule pipe_stepE) (auto simp: content_def direct_inv_def scrubber_wf)

lemma reach_content_direct:
  assumes "(pipe_step None)\<^sup>*\<^sup>* (pipeInit h es) s" and "\<forall>e \<in> set es. wf_entry e"
  shows "content s = es"
  using assms(1)
proof (induction rule: rtranclp_induct)
  case (step s t)
  then show ?case
    using step_content_direct [OF step(2)] reach_content [OF step(1)] assms(2) by simp
qed simp

section \<open>Redaction\<close>

text \<open>The invariant: what has passed the scrubber is redacted in the memory of now, and nothing
  behind it in the pipeline is the same entry.\<close>

definition scrubbed :: "'x pipe \<Rightarrow> entry list" where
  "scrubbed s = routed s @ routerInQ s @ hold (secHold s)"

definition redact_inv :: "'x pipe \<Rightarrow> bool" where
  "redact_inv s \<longleftrightarrow>
     wf_heap (mem s) \<and> apart (mem s) (content s) \<and> (\<forall>e \<in> set (content s). wf_entry e) \<and>
     (\<forall>e \<in> set (scrubbed s). allRedacted (mem s) e)"

lemma allRedacted_cong: "entryEnv h e = entryEnv h' e \<Longrightarrow> allRedacted h e = allRedacted h' e"
  by (simp add: allRedacted_def)

lemma redact_inv_content:
  "redact_inv s \<Longrightarrow> subseq (content t) (content s) \<Longrightarrow>
   apart (mem s) (content t) \<and> (\<forall>e \<in> set (content t). wf_entry e)"
  by (auto simp: redact_inv_def dest: apart_subseq subseq_set)

lemma redact_inv_step:
  assumes step: "pipe_step ps s t" and inv: "redact_inv s" and dir: "direct_inv ps s"
    and loc: "\<forall>procs. ps = Some procs \<longrightarrow> (\<forall>p \<in> set procs. proc_local p)"
  shows "redact_inv t"
proof -
  note sub = step_content [OF step dir]
  have c: "apart (mem s) (content t) \<and> (\<forall>e \<in> set (content t). wf_entry e)"
    by (rule redact_inv_content [OF inv sub])
  have "wf_heap (mem t) \<and> apart (mem t) (content t) \<and> (\<forall>e \<in> set (scrubbed t). allRedacted (mem t) e)"
    using step
  proof cases
    case (pre_take procs e q m sent)
    have e: "e \<in> set (content s)" using pre_take by (simp add: content_def)
    have alone: "wf_heap m" "\<And>e'. separate (mem s) e e' \<Longrightarrow> leavesAlone (mem s) e e' m"
      using preStep_local [of procs "mem s" e] loc inv pre_take by (auto simp: redact_inv_def)
    have ap: "apart (mem s) (content s)" using inv by (simp add: redact_inv_def)
    have "apart m (content t)" using apart_subseq [OF apart_local [OF ap e alone(2)] sub] .
    moreover have "entryEnv m e' = entryEnv (mem s) e'" if "e' \<in> set (scrubbed s)" for e'
    proof -
      have "e' \<noteq> e" "e' \<in> set (content s)"
        using ap that pre_take by (auto simp: apart_def content_def scrubbed_def)
      then have "separate (mem s) e e'" using ap e by (auto simp: apart_def pairwise_def)
      with alone(2) show ?thesis by (simp add: leavesAlone_def)
    qed
    ultimately show ?thesis
      using inv pre_take alone(1) allRedacted_cong [of m _ "mem s"]
      by (auto simp: redact_inv_def scrubbed_def)
  next
    case (sec_take e q m sent)
    then have "wf_entry e" using inv by (auto simp: redact_inv_def content_def)
    then show ?thesis
      using inv sec_take c
      by (auto simp: redact_inv_def scrubbed_def scrubber_wf allRedacted_now allRedacted_stays)
  next
    case (sec_direct e q m sent)
    then have "wf_entry e" using inv by (auto simp: redact_inv_def content_def)
    then show ?thesis
      using inv sec_direct c
      by (auto simp: redact_inv_def scrubbed_def scrubber_wf allRedacted_now allRedacted_stays)
  qed (use inv c in \<open>auto simp: redact_inv_def scrubbed_def\<close>)
  with c show ?thesis by (simp add: redact_inv_def)
qed

lemma reach_redact_inv:
  assumes "(pipe_step ps)\<^sup>*\<^sup>* (pipeInit h es) s"
    and "wf_heap h" "apart h es" "\<forall>e \<in> set es. wf_entry e"
    and "\<forall>procs. ps = Some procs \<longrightarrow> (\<forall>p \<in> set procs. proc_local p)"
  shows "redact_inv s"
  using assms(1)
proof (induction rule: rtranclp_induct)
  case base
  show ?case using assms(2-4) by (simp add: redact_inv_def scrubbed_def) (simp add: pipeInit_def)
next
  case (step s t)
  then show ?case using redact_inv_step reach_content assms(5) by blast
qed

section \<open>Progress and termination\<close>

text \<open>Every step brings an entry one place further, so a run on a finite input ends; and it ends only
  when nothing is left on the way.\<close>

definition pipeMeasure :: "'x pipe \<Rightarrow> nat" where
  "pipeMeasure s = 5 * length (inQ s) + 4 * length (hold (preHold s)) + 3 * length (secretsInQ s)
     + 2 * length (hold (secHold s)) + length (routerInQ s)"

lemma pipeMeasure_step: "pipe_step ps s t \<Longrightarrow> pipeMeasure t < pipeMeasure s"
  by (erule pipe_stepE) (auto simp: pipeMeasure_def hold_def split: option.split)

interpretation pipe: terminating "pipe_step ps" "[pipeMeasure]" for ps :: "'x processor list option"
  by unfold_locales (simp add: pipeMeasure_step)

lemma pipe_progress:
  assumes "\<forall>e \<in> set (content s). wf_entry e" and "direct_inv ps s" and "content s \<noteq> routed s"
  shows "\<exists>t. pipe_step ps s t"
proof -
  have buf: "xs = [] \<Longrightarrow> length xs < chanBuffer" for xs :: "entry list" by (simp add: chanBuffer_def)
  show ?thesis
  proof (cases "routerInQ s")
    case (Cons e q)
    then show ?thesis by (blast intro: router_take)
  next
    case r: Nil
    show ?thesis
    proof (cases "secHold s")
      case (Some e)
      then show ?thesis using r by (blast intro: sec_send buf)
    next
      case sh: None
      have scrub: "\<exists>m sent. scrubber (mem s) e = Ret (m, sent)" if "e \<in> set (content s)" for e
        using assms(1) that scrubber_wf by blast
      show ?thesis
      proof (cases "secretsInQ s")
        case (Cons e q)
        then have "e \<in> set (content s)" by (simp add: content_def)
        then show ?thesis using Cons sh scrub sec_take by metis
      next
        case sq: Nil
        show ?thesis
        proof (cases "preHold s")
          case (Some e)
          then show ?thesis using sq by (blast intro: pre_send buf)
        next
          case ph: None
          with assms(3) r sh sq obtain e q where q: "inQ s = e # q"
            by (cases "inQ s") (auto simp: content_def)
          then have "e \<in> set (content s)" by (simp add: content_def)
          show ?thesis
          proof (cases ps)
            case None
            then show ?thesis using q sh scrub [OF \<open>e \<in> set (content s)\<close>] sec_direct by metis
          next
            case (Some procs)
            obtain m sent where "preStep procs (mem s) e = (m, sent)" by force
            then show ?thesis using Some q ph pre_take by metis
          qed
        qed
      qed
    qed
  qed
qed

text \<open>Without preprocessors, a pipeline at rest has routed its input.\<close>

lemma stuck_delivers:
  assumes "(pipe_step None)\<^sup>*\<^sup>* (pipeInit h es) s" and "\<forall>e \<in> set es. wf_entry e"
    and "\<forall>t. \<not> pipe_step None s t"
  shows "routed s = es"
proof -
  have c: "content s = es" using reach_content_direct [OF assms(1,2)] .
  have "direct_inv None s" using reach_content [OF assms(1)] by blast
  with pipe_progress [of s None] assms(2,3) c have "content s = routed s" by blast
  with c show ?thesis by simp
qed

section \<open>The specification: a queue that may drop\<close>

text \<open>All that the stages promise about entries: a queue from which the oldest entry moves to the output,
  or any entry is dropped. \<open>pipeAbs\<close> sees the channels and the hands of the stages as that queue.\<close>

inductive queue_step :: "entry list \<times> entry list \<Rightarrow> entry list \<times> entry list \<Rightarrow> bool" where
  queue_drop: "queue_step (xs @ e # ys, out) (xs @ ys, out)"
| queue_pass: "queue_step (e # q, out) (q, out @ [e])"

definition pipeAbs :: "'x pipe \<Rightarrow> entry list \<times> entry list" where
  "pipeAbs s = (routerInQ s @ hold (secHold s) @ secretsInQ s @ hold (preHold s) @ inQ s, routed s)"

lemma take_refines:
  assumes "\<forall>e'. sent = Some e' \<longrightarrow> e' = e"
  shows "queue_step\<^sup>=\<^sup>= (xs @ e # ys, out) (xs @ hold sent @ ys, out)"
  using assms queue_drop [of xs e ys out] by (cases sent) auto

text \<open>The simulation: a step of a stage is a step of the queue or invisible to it.\<close>

lemma pipe_refines: "pipe_step ps s t \<Longrightarrow> direct_inv ps s \<Longrightarrow> queue_step\<^sup>=\<^sup>= (pipeAbs s) (pipeAbs t)"
proof (induction rule: pipe_step.induct)
  case (pre_take procs s e q m sent)
  have "\<forall>e'. sent = Some e' \<longrightarrow> e' = e" using pre_take preStep_forwards by blast
  from take_refines [OF this, of "routerInQ s @ hold (secHold s) @ secretsInQ s" q "routed s"] pre_take show ?case
    by (simp add: pipeAbs_def)
next
  case (sec_take s e q m sent)
  have "\<forall>e'. sent = Some e' \<longrightarrow> e' = e" using sec_take scrubber_forwards by blast
  from take_refines [OF this, of "routerInQ s" "q @ hold (preHold s) @ inQ s" "routed s"] sec_take show ?case
    by (simp add: pipeAbs_def)
next
  case (sec_direct s e q m sent)
  have "\<forall>e'. sent = Some e' \<longrightarrow> e' = e" using sec_direct scrubber_forwards by blast
  from take_refines [OF this, of "routerInQ s" q "routed s"] sec_direct show ?case
    by (simp add: pipeAbs_def direct_inv_def)
next
  case (router_take s e q)
  then show ?case
    using queue_pass [of e "q @ hold (secHold s) @ secretsInQ s @ hold (preHold s) @ inQ s" "routed s"]
    by (simp add: pipeAbs_def)
qed (simp_all add: pipeAbs_def)

interpretation queue: simulation "pipe_step ps" queue_step pipeAbs "direct_inv ps" for ps :: "'x processor list option"
  by unfold_locales (rule direct_inv_step pipe_refines; assumption)+

lemma reach_refines: "(pipe_step ps)\<^sup>*\<^sup>* (pipeInit h es) s \<Longrightarrow> queue_step\<^sup>*\<^sup>* (es, []) (pipeAbs s)"
  using queue.reach [of ps "pipeInit h es" s] by (simp add: pipeAbs_def pipeInit_def direct_inv_def)

lemma queue_order:
  "queue_step\<^sup>*\<^sup>* (es, []) x \<Longrightarrow> subseq (snd x @ fst x) es"
proof (induction rule: rtranclp_induct)
  case (step x y)
  from step(2) have "subseq (snd y @ fst y) (snd x @ fst x)"
    by cases (auto intro: list_emb_append_mono)
  with step.IH show ?case using subseq_order.trans by blast
qed simp

lemma reach_order: "(pipe_step ps)\<^sup>*\<^sup>* (pipeInit h es) s \<Longrightarrow> subseq (routed s) es"
proof -
  assume "(pipe_step ps)\<^sup>*\<^sup>* (pipeInit h es) s"
  from queue_order [OF reach_refines [OF this]] have "subseq (routed s @ fst (pipeAbs s)) es" by (simp add: pipeAbs_def)
  then show ?thesis using subseq_order.trans prefix_imp_subseq by (metis prefixI)
qed

end
