(* ===== verification/Routing.thy ===== *)
theory Routing
  imports Data
begin

unbundle bit_operations_syntax

text \<open>
  The package \<^verbatim>\<open>internal/routing\<close>: a router sends every entry of its input to every registered
  route, waiting for a slow route in blocking mode and counting the drop otherwise. What it does is
  written to a history: sends, attempts, metrics, log lines and the closing of the routes. The answer
  of \<^verbatim>\<open>chans.TryPut\<close> is the parameter \<open>tp\<close>, an arbitrary function of the history so far.
\<close>

type_synonym chanId = nat

record route =
  routeOut :: chanId
  routeName :: string
  dropped :: u64

record router =
  routerIn :: chanId
  routes :: "route list"
  rStarted :: bool
  rBlocking :: bool

datatype ract =
    RSend chanId entry          \<comment> \<open>a blocking send that completed\<close>
  | RTry chanId entry bool      \<comment> \<open>\<^verbatim>\<open>chans.TryPut\<close> and its answer\<close>
  | RMetric entry               \<comment> \<open>\<^verbatim>\<open>metrics.DataEntry\<close>\<close>
  | RLog string u64             \<comment> \<open>the drop log line: route and count\<close>
  | RClose chanId

type_synonym rhist = "ract list"
type_synonym tryPut = "rhist \<Rightarrow> chanId \<Rightarrow> entry \<Rightarrow> bool"

section \<open>Construction and registration\<close>

definition newRoute :: "string \<Rightarrow> chanId \<Rightarrow> route" where
  "newRoute name out = \<lparr>routeOut = out, routeName = name, dropped = 0\<rparr>"

definition Routing_WithBlocking :: "router \<Rightarrow> gerr + router" where
  "Routing_WithBlocking b = Inr (b\<lparr>rBlocking := True\<rparr>)"

fun applyOptions :: "('r \<Rightarrow> gerr + 'r) list \<Rightarrow> 'r \<Rightarrow> gerr + 'r" where
  "applyOptions [] b = Inr b"
| "applyOptions (o1 # os) b = (case o1 b of Inl err \<Rightarrow> Inl err | Inr b \<Rightarrow> applyOptions os b)"

definition Routing_New :: "chanId option \<Rightarrow> (router \<Rightarrow> gerr + router) list \<Rightarrow> gerr + router" where
  "Routing_New in_ch options =
     (case in_ch of
        None \<Rightarrow> Inl (Msg ''routing.New: input channel cannot be nil'')
      | Some c \<Rightarrow>
          applyOptions options \<lparr>routerIn = c, routes = [], rStarted = False, rBlocking = False\<rparr>)"

definition Register :: "router \<Rightarrow> string \<Rightarrow> chanId option \<Rightarrow> gerr + router" where
  "Register b name ch =
     (if rStarted b then Inl (Msg ''cannot Register a route after Start() is called'')
      else if name = [] then Inl (Msg ''cannot Register a route with an empty name'')
      else (case ch of
              None \<Rightarrow> Inl (Msg ''cannot Register a route with a nil channel'')
            | Some c \<Rightarrow> Inr (b\<lparr>routes := routes b @ [newRoute name c]\<rparr>)))"

fun Exists_loop :: "string \<Rightarrow> route list \<Rightarrow> bool" where
  "Exists_loop name [] = False"
| "Exists_loop name (r # rs) = (if routeName r = name then True else Exists_loop name rs)"

definition Exists :: "router \<Rightarrow> string \<Rightarrow> bool" where
  "Exists b name = Exists_loop name (routes b)"

section \<open>Routing\<close>

text \<open>\<^verbatim>\<open>push\<close>: the new counter value when the entry was dropped, otherwise 0. The counter is shared by
  all copies of the route, so the route comes back updated.\<close>

definition push :: "tryPut \<Rightarrow> bool \<Rightarrow> route \<Rightarrow> entry \<Rightarrow> rhist \<Rightarrow> u64 \<times> route \<times> rhist" where
  "push tp blocking r e h =
     (if blocking then (0, r, h @ [RSend (routeOut r) e])
      else
        (let ok = tp h (routeOut r) e; h = h @ [RTry (routeOut r) e ok] in
         if \<not> ok then (dropped r + 1, r\<lparr>dropped := dropped r + 1\<rparr>, h)
         else (0, r, h)))"

definition logNow :: "u64 \<Rightarrow> bool" where
  "logNow n \<longleftrightarrow> n \<noteq> 0 \<and> n AND (n - 1) = 0"

fun routeLoop :: "tryPut \<Rightarrow> bool \<Rightarrow> entry \<Rightarrow> route list \<Rightarrow> rhist \<Rightarrow> route list \<times> rhist" where
  "routeLoop tp blocking e [] h = ([], h)"
| "routeLoop tp blocking e (r # rs) h =
     (let (n, r, h) = push tp blocking r e h;
          h = (if logNow n then h @ [RLog (routeName r) n] else h);
          (rs, h) = routeLoop tp blocking e rs h
      in (r # rs, h))"

definition route_entry :: "tryPut \<Rightarrow> bool \<Rightarrow> entry \<Rightarrow> route list \<Rightarrow> rhist \<Rightarrow> route list \<times> rhist" where
  "route_entry tp blocking e rs h = routeLoop tp blocking e rs (h @ [RMetric e])"

fun handleInput :: "tryPut \<Rightarrow> bool \<Rightarrow> entry list \<Rightarrow> route list \<Rightarrow> rhist \<Rightarrow> route list \<times> rhist" where
  "handleInput tp blocking [] rs h = (rs, h)"
| "handleInput tp blocking (e # es) rs h =
     (let (rs, h) = route_entry tp blocking e rs h in handleInput tp blocking es rs h)"

text \<open>Closing a closed channel panics.\<close>

fun closeRoutes :: "route list \<Rightarrow> rhist \<Rightarrow> rhist outcome" where
  "closeRoutes [] h = Ret h"
| "closeRoutes (r # rs) h =
     (if RClose (routeOut r) \<in> set h then Panic ''close of closed channel''
      else closeRoutes rs (h @ [RClose (routeOut r)]))"

text \<open>\<^verbatim>\<open>Router.Start\<close> checks for routes and starts a task; \<open>taskErr\<close> is the answer of the task pool.
  The task itself is \<open>Router_task\<close>, run on all that the input channel delivers before it closes.\<close>

definition Router_Start :: "gerr option \<Rightarrow> router \<Rightarrow> gerr + router" where
  "Router_Start taskErr b =
     (if routes b = [] then Inl (Msg ''routing.Batches: cannot start without registered routes'')
      else (case taskErr of
              Some err \<Rightarrow> Inl (Wrap ''routing.Batches.Start: could not start routing'' [err])
            | None \<Rightarrow> Inr (b\<lparr>rStarted := True\<rparr>)))"

definition Router_task :: "tryPut \<Rightarrow> router \<Rightarrow> entry list \<Rightarrow> rhist outcome" where
  "Router_task tp b es =
     (let (rs, h) = handleInput tp (rBlocking b) es (routes b) [] in closeRoutes rs h)"

section \<open>What a history delivers\<close>

definition offersOf :: "chanId \<Rightarrow> ract \<Rightarrow> entry list" where
  "offersOf c a = (case a of RSend d e \<Rightarrow> if d = c then [e] else []
                           | RTry d e ok \<Rightarrow> if d = c then [e] else [] | _ \<Rightarrow> [])"

definition delivsOf :: "chanId \<Rightarrow> ract \<Rightarrow> entry list" where
  "delivsOf c a = (case a of RSend d e \<Rightarrow> if d = c then [e] else []
                           | RTry d e ok \<Rightarrow> if d = c \<and> ok then [e] else [] | _ \<Rightarrow> [])"

definition dropsOf :: "chanId \<Rightarrow> ract \<Rightarrow> entry list" where
  "dropsOf c a = (case a of RTry d e ok \<Rightarrow> if d = c \<and> \<not> ok then [e] else [] | _ \<Rightarrow> [])"

definition offers :: "chanId \<Rightarrow> rhist \<Rightarrow> entry list" where
  "offers c h = concat (map (offersOf c) h)"

definition delivs :: "chanId \<Rightarrow> rhist \<Rightarrow> entry list" where
  "delivs c h = concat (map (delivsOf c) h)"

definition drops :: "chanId \<Rightarrow> rhist \<Rightarrow> entry list" where
  "drops c h = concat (map (dropsOf c) h)"

definition closes :: "rhist \<Rightarrow> chanId list" where
  "closes h = concat (map (\<lambda>a. case a of RClose c \<Rightarrow> [c] | _ \<Rightarrow> []) h)"

lemmas proj_defs = offers_def delivs_def drops_def closes_def offersOf_def delivsOf_def dropsOf_def

lemma chan_append [simp]:
  "offers c (h @ h') = offers c h @ offers c h'" "delivs c (h @ h') = delivs c h @ delivs c h'"
  "drops c (h @ h') = drops c h @ drops c h'" "closes (h @ h') = closes h @ closes h'"
  by (simp_all add: proj_defs)

lemma chan_Nil [simp]: "offers c [] = []" "delivs c [] = []" "drops c [] = []" "closes [] = []"
  by (simp_all add: proj_defs)

lemma delivs_subseq_offers: "subseq (delivs c h) (offers c h)"
proof (induction h)
  case (Cons a h)
  have "subseq (delivsOf c a) (offersOf c a)"
    by (cases a) (auto simp: delivsOf_def offersOf_def)
  with Cons show ?case by (auto simp: delivs_def offers_def intro: list_emb_append_mono)
qed simp

lemma offers_count: "length (offers c h) = length (delivs c h) + length (drops c h)"
proof (induction h)
  case (Cons a h)
  have "length (offersOf c a) = length (delivsOf c a) + length (dropsOf c a)"
    by (cases a) (auto simp: delivsOf_def offersOf_def dropsOf_def)
  with Cons show ?case by (simp add: delivs_def offers_def drops_def)
qed simp

lemma push_simps:
  "push tp blocking r e h = (n, r', h') \<Longrightarrow>
     routeOut r' = routeOut r \<and> routeName r' = routeName r \<and>
     dropped r' = dropped r + of_nat (length (drops (routeOut r) h') - length (drops (routeOut r) h)) \<and>
     offers c h' = offers c h @ (if c = routeOut r then [e] else []) \<and>
     (c \<noteq> routeOut r \<longrightarrow> drops c h' = drops c h \<and> delivs c h' = delivs c h) \<and>
     closes h' = closes h \<and>
     (blocking \<longrightarrow> n = 0 \<and> drops c h' = drops c h)"
  by (auto simp: push_def Let_def proj_defs split: if_splits)

lemma push_counts:
  "push tp blocking r e h = (n, r', h') \<Longrightarrow>
     dropped r' = dropped r + of_nat (length (drops (routeOut r) h')) - of_nat (length (drops (routeOut r) h))"
  by (auto simp: push_def Let_def proj_defs split: if_splits)

lemma logline_proj [simp]:
  "offers c (if b then h @ [RLog m n] else h) = offers c h"
  "delivs c (if b then h @ [RLog m n] else h) = delivs c h"
  "drops c (if b then h @ [RLog m n] else h) = drops c h"
  "closes (if b then h @ [RLog m n] else h) = closes h"
  by (simp_all add: proj_defs)

lemma metric_proj [simp]:
  "offers c [RMetric e] = []" "delivs c [RMetric e] = []" "drops c [RMetric e] = []"
  "closes [RMetric e] = []"
  by (simp_all add: proj_defs)

text \<open>The counter of a route against the drops in the history, modulo the width of the counter.\<close>

definition countsTo :: "rhist \<Rightarrow> route \<Rightarrow> u64" where
  "countsTo h r = dropped r - of_nat (length (drops (routeOut r) h))"

text \<open>One entry over all routes: each is offered the entry once, in order, and each counter moves
  with its drops.\<close>

lemma routeLoop_spec:
  assumes "routeLoop tp blocking e rs h = (rs', h')" and "distinct (map routeOut rs)"
  shows "map routeOut rs' = map routeOut rs \<and> map routeName rs' = map routeName rs \<and>
    (\<forall>c. offers c h' = offers c h @ (if c \<in> set (map routeOut rs) then [e] else [])) \<and>
    (\<forall>c. c \<notin> set (map routeOut rs) \<longrightarrow> drops c h' = drops c h \<and> delivs c h' = delivs c h) \<and>
    map (countsTo h') rs' = map (countsTo h) rs \<and> closes h' = closes h \<and>
    (blocking \<longrightarrow> (\<forall>c. drops c h' = drops c h))"
  using assms
proof (induction rs arbitrary: rs' h h')
  case (Cons r rs)
  obtain n r1 h1 where p: "push tp blocking r e h = (n, r1, h1)" by (metis prod_cases3)
  define h2 where "h2 = (if logNow n then h1 @ [RLog (routeName r1) n] else h1)"
  obtain rs1 where rl: "routeLoop tp blocking e rs h2 = (rs1, h')" and rs': "rs' = r1 # rs1"
    using Cons.prems(1) p by (auto simp: Let_def h2_def split: prod.splits)
  have d: "distinct (map routeOut rs)" and nin: "routeOut r \<notin> routeOut ` set rs"
    using Cons.prems(2) by auto
  note IH = Cons.IH [OF rl d]
  note ps = push_simps [OF p]
  have same [simp]: "offers c h2 = offers c h1" "delivs c h2 = delivs c h1" "drops c h2 = drops c h1"
    "closes h2 = closes h1" for c by (simp_all add: h2_def)
  have cnt: "countsTo h' r1 = countsTo h r"
    using IH ps nin push_counts [OF p] by (simp add: countsTo_def)
  have "drops (routeOut x) h1 = drops (routeOut x) h" if "x \<in> set rs" for x
  proof -
    have "routeOut x \<noteq> routeOut r" using that nin by (metis image_eqI)
    then show ?thesis using ps [of "routeOut x"] by blast
  qed
  then have "map (countsTo h2) rs = map (countsTo h) rs"
    by (simp add: countsTo_def)
  with IH cnt have "map (countsTo h') rs' = map (countsTo h) (r # rs)" by (simp add: rs')
  then show ?case
    using IH ps nin by (auto simp: rs')
qed (auto)

lemma handleInput_spec:
  assumes "handleInput tp blocking es rs h = (rs', h')" and "distinct (map routeOut rs)"
  shows "map routeOut rs' = map routeOut rs \<and> map routeName rs' = map routeName rs \<and>
    (\<forall>c \<in> set (map routeOut rs). offers c h' = offers c h @ es) \<and>
    map (countsTo h') rs' = map (countsTo h) rs \<and> closes h' = closes h \<and>
    (blocking \<longrightarrow> (\<forall>c. drops c h' = drops c h))"
  using assms
proof (induction es arbitrary: rs h)
  case (Cons e es)
  obtain rs1 h1 where r: "routeLoop tp blocking e rs (h @ [RMetric e]) = (rs1, h1)" by force
  note one = routeLoop_spec [OF r Cons.prems(2)]
  from Cons.prems(1) r have hi: "handleInput tp blocking es rs1 h1 = (rs', h')"
    by (simp add: route_entry_def)
  from one Cons.prems(2) have d: "distinct (map routeOut rs1)" by simp
  have "map (countsTo (h @ [RMetric e])) rs = map (countsTo h) rs"
    by (simp add: countsTo_def)
  with Cons.IH [OF hi d] one show ?case by simp
qed simp

lemma closeRoutes_Ret_iff:
  "(\<exists>h'. closeRoutes rs h = Ret h') \<longleftrightarrow>
     distinct (map routeOut rs) \<and> (\<forall>r \<in> set rs. RClose (routeOut r) \<notin> set h)"
  by (induction rs arbitrary: h) (auto simp: image_iff)

lemma closeRoutes_Ret: "closeRoutes rs h = Ret h' \<Longrightarrow> h' = h @ map (RClose \<circ> routeOut) rs"
proof (induction rs arbitrary: h)
  case (Cons r rs)
  then have "closeRoutes rs (h @ [RClose (routeOut r)]) = Ret h'" by (simp split: if_splits)
  from Cons.IH [OF this] show ?case by simp
qed simp

lemma closes_iff: "c \<in> set (closes h) \<longleftrightarrow> RClose c \<in> set h"
  by (induction h) (auto simp: closes_def split: ract.splits)

section \<open>When a drop is logged\<close>

lemma pow2_test_nat:
  assumes "0 < (n :: nat)" and "n AND (n - 1) = 0"
  shows "\<exists>k. n = 2 ^ k"
proof -
  obtain k where k: "2 ^ k \<le> n" "n < 2 ^ (k + 1)"
    using assms(1) ex_power_ivl1 [of 2 n] by auto
  show ?thesis
  proof (rule exI, rule ccontr)
    assume "n \<noteq> 2 ^ k"
    with k have "2 ^ k \<le> n - 1" "n - 1 < 2 ^ (k + 1)" by auto
    then have "(n - 1) div 2 ^ k = 1" "n div 2 ^ k = 1"
      using k by (auto intro!: div_nat_eqI)
    then have "bit n k" "bit (n - 1) k"
      by (simp_all add: bit_iff_odd)
    then have "bit (n AND (n - 1)) k" by (simp add: bit_and_iff)
    with assms(2) show False by simp
  qed
qed

lemma pow2_test_exp: "(2 ^ k :: nat) AND (2 ^ k - 1) = 0"
  unfolding mask_eq_exp_minus_1 [symmetric]
  by (rule bit_eqI) (auto simp: bit_and_iff bit_exp_iff bit_mask_iff)

lemma logNow_iff: "logNow n \<longleftrightarrow> (\<exists>k. unat n = 2 ^ k)"
proof (cases "n = 0")
  case False
  then have pos: "0 < unat n" by (simp add: unat_gt_0)
  have "unat (n AND (n - 1)) = unat n AND (unat n - 1)"
    using pos by (simp add: unsigned_and_eq unat_minus_one False)
  then have "logNow n \<longleftrightarrow> unat n AND (unat n - 1) = 0"
    using False by (metis logNow_def unat_eq_zero)
  with pow2_test_nat [OF pos] pow2_test_exp show ?thesis by metis
qed (simp add: logNow_def)

section \<open>Shutdown\<close>

lemma closeLog_proj:
  "offers c (map (RClose \<circ> routeOut) rs) = []" "delivs c (map (RClose \<circ> routeOut) rs) = []"
  "drops c (map (RClose \<circ> routeOut) rs) = []"
  by (induction rs) (simp_all add: proj_defs)

lemma closeLog_closes: "closes (map (RClose \<circ> routeOut) rs) = map routeOut rs"
  by (induction rs) (simp_all add: proj_defs)

lemma routeLoop_outs: "routeLoop tp blocking e rs h = (rs', h') \<Longrightarrow> map routeOut rs' = map routeOut rs"
proof (induction rs arbitrary: h rs')
  case (Cons r rs)
  obtain n r1 h1 where p: "push tp blocking r e h = (n, r1, h1)" by (metis prod_cases3)
  have "routeOut r1 = routeOut r" using push_simps [OF p, of 0] by blast
  with Cons p show ?case by (auto simp: Let_def split: prod.splits)
qed simp

lemma handleInput_outs: "handleInput tp blocking es rs h = (rs', h') \<Longrightarrow> map routeOut rs' = map routeOut rs"
  by (induction es arbitrary: rs h) (auto simp: route_entry_def dest: routeLoop_outs split: prod.splits)

text \<open>The whole task, on routes with different channels.\<close>

lemma Router_task_spec:
  assumes "distinct (map routeOut (routes b))"
  shows "\<exists>h. Router_task tp b es = Ret h \<and> closes h = map routeOut (routes b) \<and>
    (\<forall>c \<in> set (map routeOut (routes b)).
       offers c h = es \<and> subseq (delivs c h) es \<and> length (delivs c h) + length (drops c h) = length es \<and>
       (rBlocking b \<longrightarrow> delivs c h = es))"
proof -
  obtain rs h where run: "handleInput tp (rBlocking b) es (routes b) [] = (rs, h)" by force
  from handleInput_spec [OF run assms] have spec: "map routeOut rs = map routeOut (routes b)"
    "\<forall>c \<in> set (map routeOut (routes b)). offers c h = es" "closes h = []"
    "rBlocking b \<longrightarrow> (\<forall>c. drops c h = [])" by simp_all
  let ?h = "h @ map (RClose \<circ> routeOut) rs"
  have "\<forall>r \<in> set rs. RClose (routeOut r) \<notin> set h" using spec(3) closes_iff [of _ h] by simp
  with closeRoutes_Ret_iff [of rs h] closeRoutes_Ret [of rs h] assms spec(1)
  have close: "closeRoutes rs h = Ret ?h" by metis
  have at_end: "offers c ?h = offers c h \<and> delivs c ?h = delivs c h \<and> drops c ?h = drops c h" for c
    using closeLog_proj [of c rs] by simp
  have "closes ?h = map routeOut (routes b)" using spec(1,3) closeLog_closes [of rs] by simp
  moreover have "offers c ?h = es \<and> subseq (delivs c ?h) es \<and> length (delivs c ?h) + length (drops c ?h) = length es \<and>
      (rBlocking b \<longrightarrow> delivs c ?h = es)" if c: "c \<in> set (map routeOut (routes b))" for c
  proof -
    have o: "offers c h = es" using spec(2) c by blast
    have len: "length es = length (delivs c h) + length (drops c h)" using offers_count [of c h] o by simp
    have sub: "subseq (delivs c h) es" using delivs_subseq_offers [of c h] o by simp
    have "rBlocking b \<longrightarrow> delivs c h = es"
      using spec(4) len sub subseq_same_length [of "delivs c h" es] by auto
    with o len sub at_end [of c] show ?thesis by simp
  qed
  ultimately show ?thesis using run close by (simp add: Router_task_def)
qed

end
