(* ===== verification/Metrics.thy ===== *)
theory Metrics
  imports Data
begin

text \<open>
  The package \<^verbatim>\<open>internal/metrics/readers\<close>: two counters whose attribute sets are built once, in a
  table over source, change and object types, so that recording an entry is a lookup. The instruments
  are OpenTelemetry's; what is modelled is which attributes are recorded. \<open>meter\<close> answers the creation
  of a counter and \<open>evName\<close> prints a watch event type.
\<close>

type_synonym attrs = "(string \<times> string) list"

record counters =
  watchEventOpts :: "eventType \<Rightarrow> attrs option"
  dataEntryOpts :: "attrs outcome list list list"

definition subsystem :: string where "subsystem = ''tattler''"
definition eventTypeLabel :: string where "eventTypeLabel = ''event_type''"
definition keepLabel :: string where "keepLabel = ''keep''"
definition sourceTypeLabel :: string where "sourceTypeLabel = ''source_type''"
definition changeTypeLabel :: string where "changeTypeLabel = ''change_type''"
definition objectTypeLabel :: string where "objectTypeLabel = ''object_type''"

definition numSourceTypes :: nat where "numSourceTypes = unat STEtcd + 1"
definition numChangeTypes :: nat where "numChangeTypes = unat CTSnapshot + 1"
definition numObjectTypes :: nat where "numObjectTypes = unat OTEndpoint + 1"

definition metricName :: "string \<Rightarrow> string" where
  "metricName name = subsystem @ ''_'' @ name"

definition watchEventOpt :: "(eventType \<Rightarrow> string) \<Rightarrow> eventType \<Rightarrow> attrs" where
  "watchEventOpt evName et = [(eventTypeLabel, evName et)]"

definition dataEntryOpt :: "u8 \<Rightarrow> u8 \<Rightarrow> u8 \<Rightarrow> attrs outcome" where
  "dataEntryOpt st ct ot =
     obind (SourceType_String st) (\<lambda>s. obind (ChangeType_String ct) (\<lambda>c. obind (ObjectType_String ot)
       (\<lambda>t. Ret [(keepLabel, ''true''), (sourceTypeLabel, s), (changeTypeLabel, c), (objectTypeLabel, t)])))"

definition doInit :: "(eventType \<Rightarrow> string) \<Rightarrow> (string \<Rightarrow> gerr option) \<Rightarrow> gerr + counters" where
  "doInit evName meter =
     (case meter (metricName ''watch_event_total'') of
        Some err \<Rightarrow> Inl err
      | None \<Rightarrow>
          (case meter (metricName ''data_entry_total'') of
             Some err \<Rightarrow> Inl err
           | None \<Rightarrow> Inr
               \<lparr>watchEventOpts =
                  (\<lambda>et. if et \<in> {Added, Modified, Deleted, Bookmark, ErrorEvent}
                        then Some (watchEventOpt evName et) else None),
                dataEntryOpts =
                  map (\<lambda>st. map (\<lambda>ct. map (\<lambda>ot. dataEntryOpt (of_nat st) (of_nat ct) (of_nat ot))
                    [0..<numObjectTypes]) [0..<numChangeTypes]) [0..<numSourceTypes]\<rparr>))"

text \<open>The package variables: whether the \<^verbatim>\<open>sync.Once\<close> has run, and the counters in use, if any.\<close>

record metricsState =
  onceDone :: bool
  current :: "counters option"

definition metricsStart :: metricsState where
  "metricsStart = \<lparr>onceDone = False, current = None\<rparr>"

definition Metrics_Init ::
  "(eventType \<Rightarrow> string) \<Rightarrow> (string \<Rightarrow> gerr option) \<Rightarrow> metricsState \<Rightarrow> gerr option \<times> metricsState" where
  "Metrics_Init evName meter ms =
     (if onceDone ms then (None, ms)
      else (case doInit evName meter of
              Inl err \<Rightarrow> (Some err, ms\<lparr>onceDone := True\<rparr>)
            | Inr c \<Rightarrow> (None, ms\<lparr>onceDone := True, current := Some c\<rparr>)))"

text \<open>Recording: the attributes added to the counter, \<open>None\<close> while metrics are off.\<close>

definition WatchEvent :: "(eventType \<Rightarrow> string) \<Rightarrow> metricsState \<Rightarrow> event \<Rightarrow> attrs option" where
  "WatchEvent evName ms e =
     (case current ms of
        None \<Rightarrow> None
      | Some c \<Rightarrow>
          (case watchEventOpts c (evType e) of
             Some opts \<Rightarrow> Some opts
           | None \<Rightarrow> Some (watchEventOpt evName (evType e))))"

definition DataEntry :: "metricsState \<Rightarrow> entry \<Rightarrow> attrs outcome option" where
  "DataEntry ms e =
     (case current ms of
        None \<Rightarrow> None
      | Some c \<Rightarrow>
          (let st = sourceType e; ct = changeType e; ot = objectType e in
           Some (if unat st < numSourceTypes \<and> unat ct < numChangeTypes \<and> unat ot < numObjectTypes
                 then obind (goIndex (dataEntryOpts c) (unat st))
                        (\<lambda>row. obind (goIndex row (unat ct)) (\<lambda>col. obind (goIndex col (unat ot)) (\<lambda>x. x)))
                 else dataEntryOpt st ct ot)))"

lemma dataEntryOpt_Ret: "\<exists>a. dataEntryOpt st ct ot = Ret a"
  using sourceType.String_never_panics [of "unat st"] changeType.String_never_panics [of "unat ct"]
    objectType.String_never_panics [of "unat ot"]
  by (auto simp: dataEntryOpt_def SourceType_String_def ChangeType_String_def ObjectType_String_def)

lemma doInit_ok:
  "doInit evName meter = Inr c \<Longrightarrow>
     (\<forall>et. watchEventOpts c et \<in> {None, Some (watchEventOpt evName et)}) \<and>
     (\<forall>st ct ot. st < numSourceTypes \<longrightarrow> ct < numChangeTypes \<longrightarrow> ot < numObjectTypes \<longrightarrow>
        dataEntryOpts c ! st ! ct ! ot = dataEntryOpt (of_nat st) (of_nat ct) (of_nat ot)) \<and>
     length (dataEntryOpts c) = numSourceTypes \<and>
     (\<forall>st < numSourceTypes. length (dataEntryOpts c ! st) = numChangeTypes \<and>
        (\<forall>ct < numChangeTypes. length (dataEntryOpts c ! st ! ct) = numObjectTypes))"
  by (auto simp: doInit_def split: option.splits)

text \<open>Once the metrics are on, the table says what building the attributes afresh would say.\<close>

lemma DataEntry_table:
  assumes "doInit evName meter = Inr c" and "current ms = Some c"
  shows "DataEntry ms e = Some (dataEntryOpt (sourceType e) (changeType e) (objectType e))"
proof (cases "unat (sourceType e) < numSourceTypes \<and> unat (changeType e) < numChangeTypes
    \<and> unat (objectType e) < numObjectTypes")
  case True
  with doInit_ok [OF assms(1)]
  have "obind (goIndex (dataEntryOpts c) (unat (sourceType e)))
      (\<lambda>row. obind (goIndex row (unat (changeType e))) (\<lambda>col. obind (goIndex col (unat (objectType e))) (\<lambda>x. x)))
    = dataEntryOpt (sourceType e) (changeType e) (objectType e)"
    by (simp add: goIndex_def)
  with True assms(2) show ?thesis by (simp add: DataEntry_def Let_def)
next
  case False
  with assms(2) show ?thesis by (auto simp: DataEntry_def Let_def)
qed

lemma WatchEvent_table:
  assumes "doInit evName meter = Inr c" and "current ms = Some c"
  shows "WatchEvent evName ms e = Some (watchEventOpt evName (evType e))"
proof -
  from doInit_ok [OF assms(1)]
  have "watchEventOpts c (evType e) \<in> {None, Some (watchEventOpt evName (evType e))}" by blast
  with assms(2) show ?thesis by (auto simp: WatchEvent_def)
qed

lemma Metrics_Init_first:
  "Metrics_Init evName meter metricsStart =
     (case doInit evName meter of
        Inl err \<Rightarrow> (Some err, \<lparr>onceDone = True, current = None\<rparr>)
      | Inr c \<Rightarrow> (None, \<lparr>onceDone = True, current = Some c\<rparr>))"
  by (simp add: Metrics_Init_def metricsStart_def split: sum.split)

end
