(* ===== verification/Union.thy ===== *)
theory Union
  imports Stringer K8s
begin

text \<open>
  The generated tagged union \<^verbatim>\<open>recoveryMode\<close>: how a recovery watch delivers its snapshots. A value is
  a tag and an \<^verbatim>\<open>any\<close>; the getters check the tag and then assert the type, which panics on a value
  whose tag and content disagree.
\<close>

record listRecovery =
  lrObjects :: "robj option list"
  lrResourceVersion :: string

datatype anyVal = NilAny | InitialEventsAny | ListAny listRecovery

record recoveryMode =
  modeTag :: u8
  modeVal :: anyVal

definition recoveryModeTypeNotSet :: u8 where [sentinel_defs]: "recoveryModeTypeNotSet = 0"
definition recoveryModeTypeinitialEventsRecovery :: u8 where
  [sentinel_defs]: "recoveryModeTypeinitialEventsRecovery = 1"
definition recoveryModeTypelistRecovery :: u8 where [sentinel_defs]: "recoveryModeTypelistRecovery = 2"

definition recoveryModeType_name :: string where
  "recoveryModeType_name =
     ''recoveryModeTypeNotSetrecoveryModeTypeinitialEventsRecoveryrecoveryModeTypelistRecovery''"

definition recoveryModeType_index :: "nat list" where
  "recoveryModeType_index = [0, 22, 59, 87]"

definition recoveryModeType_String :: "u8 \<Rightarrow> string outcome" where
  "recoveryModeType_String t =
     stringerString ''recoveryModeType'' recoveryModeType_name recoveryModeType_index (unat t)"

definition zeroMode :: recoveryMode where
  "zeroMode = \<lparr>modeTag = 0, modeVal = NilAny\<rparr>"

definition mode_Type :: "recoveryMode \<Rightarrow> u8" where
  "mode_Type r = modeTag r"

definition SetinitialEventsRecovery :: "recoveryMode \<Rightarrow> recoveryMode" where
  "SetinitialEventsRecovery r =
     zeroMode\<lparr>modeTag := recoveryModeTypeinitialEventsRecovery, modeVal := InitialEventsAny\<rparr>"

definition SetlistRecovery :: "recoveryMode \<Rightarrow> listRecovery \<Rightarrow> recoveryMode" where
  "SetlistRecovery r v = zeroMode\<lparr>modeTag := recoveryModeTypelistRecovery, modeVal := ListAny v\<rparr>"

definition get_initialEventsRecovery :: "recoveryMode \<Rightarrow> unit outcome" where
  "get_initialEventsRecovery r =
     (if mode_Type r \<noteq> recoveryModeTypeinitialEventsRecovery then Ret ()
      else (case modeVal r of InitialEventsAny \<Rightarrow> Ret () | _ \<Rightarrow> Panic ''interface conversion''))"

definition get_listRecovery :: "recoveryMode \<Rightarrow> listRecovery outcome" where
  "get_listRecovery r =
     (if mode_Type r \<noteq> recoveryModeTypelistRecovery then Ret \<lparr>lrObjects = [], lrResourceVersion = []\<rparr>
      else (case modeVal r of ListAny v \<Rightarrow> Ret v | _ \<Rightarrow> Panic ''interface conversion''))"

interpretation recoveryModeType:
  stringer_tables "''recoveryModeType''" recoveryModeType_name recoveryModeType_index
  by (unfold_locales; code_simp)

lemmas mode_defs = mode_Type_def zeroMode_def SetinitialEventsRecovery_def SetlistRecovery_def

text \<open>The modes the setters can make.\<close>

definition wf_mode :: "recoveryMode \<Rightarrow> bool" where
  "wf_mode m \<longleftrightarrow> m = SetinitialEventsRecovery zeroMode \<or> (\<exists>l. m = SetlistRecovery zeroMode l)"

lemma mode_roundtrip:
  "mode_Type (SetinitialEventsRecovery r) = recoveryModeTypeinitialEventsRecovery"
  "mode_Type (SetlistRecovery r l) = recoveryModeTypelistRecovery"
  "get_listRecovery (SetlistRecovery r l) = Ret l"
  "get_initialEventsRecovery (SetinitialEventsRecovery r) = Ret ()"
  "get_listRecovery (SetinitialEventsRecovery r) = Ret \<lparr>lrObjects = [], lrResourceVersion = []\<rparr>"
  "get_initialEventsRecovery (SetlistRecovery r l) = Ret ()"
  by (simp_all add: mode_defs get_listRecovery_def get_initialEventsRecovery_def sentinel_defs)

lemma wf_mode_Set [simp]: "wf_mode (SetinitialEventsRecovery r)" "wf_mode (SetlistRecovery r l)"
  by (auto simp: wf_mode_def mode_defs)

end
