(* ===== verification/Bookmarks.thy ===== *)
theory Bookmarks
  imports K8s
begin

text \<open>
  The interface \<^verbatim>\<open>store.Bookmarks\<close> through which the reader keeps resource versions across restarts.
  \<open>look\<close> is what the store holds for a resource (empty for nothing), \<open>key\<close> the key under which the
  implementation files the resource. The laws are those the doc comments of the interface state; both
  implementations interpret the locale. The client lemmas are what the reader needs of any store.
\<close>

datatype bmOp = OpStore gvr string | OpDelete gvr string

text \<open>Running an operation on a store, and the key it concerns.\<close>

fun runOp :: "('s \<Rightarrow> gvr \<Rightarrow> string \<Rightarrow> 'r \<times> 's) \<Rightarrow> ('s \<Rightarrow> gvr \<Rightarrow> string \<Rightarrow> 'r \<times> 's) \<Rightarrow> bmOp \<Rightarrow> 's \<Rightarrow> 's" where
  "runOp store delete (OpStore g rv) s = snd (store s g rv)"
| "runOp store delete (OpDelete g rv) s = snd (delete s g rv)"

fun opKey :: "(gvr \<Rightarrow> 'k) \<Rightarrow> bmOp \<Rightarrow> 'k" where
  "opKey key (OpStore g rv) = key g"
| "opKey key (OpDelete g rv) = key g"

locale bookmarks =
  fixes load :: "'s \<Rightarrow> gvr \<Rightarrow> (gerr + string) \<times> 's"
    and store :: "'s \<Rightarrow> gvr \<Rightarrow> string \<Rightarrow> gerr option \<times> 's"
    and delete :: "'s \<Rightarrow> gvr \<Rightarrow> string \<Rightarrow> gerr option \<times> 's"
    and look :: "'s \<Rightarrow> gvr \<Rightarrow> string"
    and key :: "gvr \<Rightarrow> 'k"
    and ok :: "'s \<Rightarrow> bool"
  assumes load_look: "ok s \<Longrightarrow> \<not> gvr_Empty g \<Longrightarrow> load s g = (Inr v, s') \<Longrightarrow> v = look s g"
    and load_frame: "ok s \<Longrightarrow> load s g = (lr, s') \<Longrightarrow> look s' g' = look s g'"
    and store_ok: "ok s \<Longrightarrow> store s g rv = (None, s') \<Longrightarrow> look s' g = rv"
    and store_frame: "ok s \<Longrightarrow> key g' \<noteq> key g \<Longrightarrow> store s g rv = (r, s') \<Longrightarrow> look s' g' = look s g'"
    and store_fail: "ok s \<Longrightarrow> store s g rv = (Some err, s') \<Longrightarrow> look s' g' = look s g'"
    and store_refuses: "gvr_Empty g \<or> rv = [] \<Longrightarrow> fst (store s g rv) \<noteq> None"
    and delete_ok: "ok s \<Longrightarrow> \<not> gvr_Empty g \<Longrightarrow> delete s g rv = (None, s') \<Longrightarrow> look s' g = []"
    and delete_frame: "ok s \<Longrightarrow> key g' \<noteq> key g \<Longrightarrow> delete s g rv = (r, s') \<Longrightarrow> look s' g' = look s g'"
    and delete_match: "ok s \<Longrightarrow> look s g \<noteq> rv \<Longrightarrow> delete s g rv = (r, s') \<Longrightarrow> look s' g = look s g"
    and delete_changed: "ok s \<Longrightarrow> delete s g rv = (Some err, s') \<Longrightarrow> errors_Is err ErrBookmarkChanged \<Longrightarrow>
      look s g \<noteq> rv"
    and store_keeps: "ok s \<Longrightarrow> ok (snd (store s g rv))"
    and delete_keeps: "ok s \<Longrightarrow> ok (snd (delete s g rv))"
begin

text \<open>What was stored is what a restart loads, whatever happened to other resources between.\<close>

lemma runOp_ok: "ok s \<Longrightarrow> ok (runOp store delete p s)"
  by (cases p) (simp_all add: store_keeps delete_keeps)

lemma runOp_frame:
  assumes "ok s" and "opKey key p \<noteq> key g"
  shows "look (runOp store delete p s) g = look s g"
proof (cases p)
  case (OpStore g' rv)
  with assms store_frame [of s g g' rv] show ?thesis
    by (cases "store s g' rv") auto
next
  case (OpDelete g' rv)
  with assms delete_frame [of s g g' rv] show ?thesis
    by (cases "delete s g' rv") auto
qed

lemma runOps_frame:
  "ok s \<Longrightarrow> \<forall>p \<in> set ps. opKey key p \<noteq> key g \<Longrightarrow> look (fold (runOp store delete) ps s) g = look s g \<and> ok (fold (runOp store delete) ps s)"
  by (induction ps arbitrary: s) (auto simp: runOp_frame runOp_ok)

lemma store_load:
  assumes "ok s" and "\<not> gvr_Empty g" and st: "store s g rv = (None, s1)"
    and "\<forall>p \<in> set ps. opKey key p \<noteq> key g"
    and ld: "load (fold (runOp store delete) ps s1) g = (Inr v, s2)"
  shows "v = rv"
proof -
  have "ok s1" using store_keeps [OF assms(1), of g rv] st by simp
  with runOps_frame assms(4) have *: "look (fold (runOp store delete) ps s1) g = look s1 g" "ok (fold (runOp store delete) ps s1)"
    by blast+
  from load_look [OF *(2) assms(2) ld] * store_ok [OF assms(1) st] show ?thesis by simp
qed

text \<open>A conditional delete leaves another writer's bookmark alone.\<close>

lemma delete_guard: "ok s \<Longrightarrow> look s g \<noteq> rv \<Longrightarrow> look (snd (delete s g rv)) g = look s g"
  using delete_match [of s g rv] by (cases "delete s g rv") auto

end

section \<open>The reader's side\<close>

definition bookmarkName :: "gvr \<Rightarrow> string" where
  "bookmarkName g =
     (if gvr_Empty g then []
      else (let group = (if Group g = [] then ''core'' else Group g)
            in group @ ''.'' @ Version g @ ''.'' @ Resource g))"

text \<open>\<^verbatim>\<open>storeBookmark\<close> and \<^verbatim>\<open>clearBookmark\<close> over any store; \<open>None\<close> is a reader without one. The log
  line of a failed store is not modelled.\<close>

definition storeBookmark ::
  "('s \<Rightarrow> gvr \<Rightarrow> string \<Rightarrow> gerr option \<times> 's) option \<Rightarrow> 's \<Rightarrow> gvr \<Rightarrow> string \<Rightarrow> gerr option \<times> 's" where
  "storeBookmark st s g rv =
     (case st of None \<Rightarrow> (None, s)
      | Some store \<Rightarrow> (case store s g rv of (Some err, s) \<Rightarrow> (Some err, s) | (None, s) \<Rightarrow> (None, s)))"

definition clearBookmark ::
  "('s \<Rightarrow> gvr \<Rightarrow> string \<Rightarrow> gerr option \<times> 's) option \<Rightarrow> 's \<Rightarrow> gvr \<Rightarrow> string \<Rightarrow> gerr option \<times> 's" where
  "clearBookmark st s g rv =
     (case st of None \<Rightarrow> (None, s)
      | Some delete \<Rightarrow>
          if gvr_Empty g \<or> rv = [] then (None, s)
          else (case delete s g rv of
                  (None, s) \<Rightarrow> (None, s)
                | (Some err, s) \<Rightarrow>
                    if errors_Is err ErrBookmarkChanged then (None, s)
                    else (Some (Wrap ''error clearing bookmark'' [err]), s)))"

context bookmarks
begin

text \<open>After a clear that did not fail, the rejected version is gone; a version another writer put there
  is not touched.\<close>

lemma clear_effect:
  assumes "ok s" and "clearBookmark (Some delete) s g rv = (None, s')" and "\<not> gvr_Empty g" and "rv \<noteq> []"
  shows "look s' g \<noteq> rv \<and> (look s g \<noteq> rv \<longrightarrow> look s' g = look s g)"
proof -
  obtain r s1 where d: "delete s g rv = (r, s1)" by force
  with assms have s': "s' = s1"
    by (auto simp: clearBookmark_def split: option.splits if_splits)
  have keep: "look s g \<noteq> rv \<Longrightarrow> look s' g = look s g"
    using delete_match [OF assms(1) _ d] s' by simp
  have "look s' g \<noteq> rv"
  proof (cases r)
    case None
    with delete_ok [OF assms(1,3)] d s' assms(4) show ?thesis by auto
  next
    case (Some err)
    with assms(2-4) d have "errors_Is err ErrBookmarkChanged"
      by (auto simp: clearBookmark_def split: if_splits)
    with Some d delete_changed [OF assms(1)] keep show ?thesis by metis
  qed
  with keep show ?thesis by blast
qed

end

section \<open>Keys\<close>

text \<open>The name joins three parts with dots. Groups contain dots; versions and resources do not, so the
  parts can be told apart, unless the empty group meets a group that is really called core.\<close>

lemma split_first:
  "xs @ c # ys = xs' @ c # ys' \<Longrightarrow> c \<notin> set xs \<Longrightarrow> c \<notin> set xs' \<Longrightarrow> xs = xs' \<and> ys = ys'"
proof (induction xs arbitrary: xs')
  case Nil
  then show ?case by (cases xs') auto
next
  case (Cons x xs)
  then show ?case by (cases xs') auto
qed

lemma split_last:
  assumes "a @ c # b = a' @ c # b'" and "c \<notin> set b" and "c \<notin> set b'"
  shows "a = a' \<and> b = b'"
proof -
  from arg_cong [OF assms(1), of rev] have "rev b @ c # rev a = rev b' @ c # rev a'"
    by simp
  with assms(2,3) have "rev b = rev b' \<and> rev a = rev a'"
    by (intro split_first) auto
  then show ?thesis by simp
qed

definition plainGVR :: "gvr \<Rightarrow> bool" where
  "plainGVR g \<longleftrightarrow> \<not> gvr_Empty g \<and> Group g \<noteq> ''core'' \<and> CHR ''.'' \<notin> set (Version g) \<and> CHR ''.'' \<notin> set (Resource g)"

lemma bookmarkName_inj:
  assumes "plainGVR g" and "plainGVR g'" and "bookmarkName g = bookmarkName g'"
  shows "g = g'"
proof -
  define G where "G g = (if Group g = [] then ''core'' else Group g)" for g :: gvr
  have name: "bookmarkName h = (G h @ ''.'' @ Version h) @ CHR ''.'' # Resource h" if "plainGVR h" for h
    using that by (simp add: bookmarkName_def plainGVR_def G_def)
  have "G g @ ''.'' @ Version g = G g' @ ''.'' @ Version g' \<and> Resource g = Resource g'"
    using assms split_last [of "G g @ ''.'' @ Version g" "CHR ''.''" "Resource g"
        "G g' @ ''.'' @ Version g'" "Resource g'"]
    by (simp add: name plainGVR_def)
  moreover from this have "G g = G g' \<and> Version g = Version g'"
    using assms split_last [of "G g" "CHR ''.''" "Version g" "G g'" "Version g'"]
    by (simp add: plainGVR_def)
  moreover from this have "Group g = Group g'"
    using assms by (auto simp: G_def plainGVR_def split: if_splits)
  ultimately show ?thesis by (cases g; cases g') simp
qed

end
