(* ===== verification/WatchEnv.thy ===== *)
theory WatchEnv
  imports Union Data Bookmarks
begin

text \<open>
  What the watchlist reader does to the world, and what the world answers. Every call that leaves the
  repository (the API server, the channel helpers, the bookmark store, the context) is written with
  its answer to a history, and the answer is an arbitrary function of the history before it: the
  record \<open>env\<close>, a parameter of every definition of the reader. A theorem for all \<open>env\<close> is a theorem
  about every behaviour of the server, the store, the consumer and the scheduler.
\<close>

record listOptions =
  loLimit :: nat
  loContinue :: string
  loResourceVersion :: string
  loWatch :: bool
  loAllowWatchBookmarks :: bool
  loResourceVersionMatch :: string
  loSendInitialEvents :: "bool option"

definition emptyOptions :: listOptions where
  "emptyOptions = \<lparr>loLimit = 0, loContinue = [], loResourceVersion = [], loWatch = False,
     loAllowWatchBookmarks = False, loResourceVersionMatch = [], loSendInitialEvents = None\<rparr>"

datatype act =
    AWatch gvr listOptions "gerr + nat"     \<comment> \<open>\<^verbatim>\<open>client.Watch\<close>; a watch is its number\<close>
  | AList gvr listOptions "gerr + lobj"     \<comment> \<open>\<^verbatim>\<open>client.List\<close>\<close>
  | AGet nat "event option"                 \<comment> \<open>\<^verbatim>\<open>chans.Get\<close> on a watch's channel\<close>
  | APut entry bool                         \<comment> \<open>\<^verbatim>\<open>chans.Put\<close> on the output channel\<close>
  | AStop nat
  | AMetric event
  | ALoad gvr "gerr + string"
  | AStore gvr string "gerr option"
  | ADelete gvr string "gerr option"
  | ACtx bool                               \<comment> \<open>whether \<^verbatim>\<open>ctx.Err()\<close> was non-nil\<close>
  | ASpawnPut bool                          \<comment> \<open>\<^verbatim>\<open>chans.Put\<close> of a request to the spawner\<close>
  | APromiseSet
  | APromiseGet "gerr option"
  | ASleep

type_synonym hist = "act list"

record env =
  envWatch :: "hist \<Rightarrow> gvr \<Rightarrow> listOptions \<Rightarrow> gerr + nat"
  envList :: "hist \<Rightarrow> gvr \<Rightarrow> listOptions \<Rightarrow> gerr + lobj"
  envGet :: "hist \<Rightarrow> nat \<Rightarrow> event option"
  envPut :: "hist \<Rightarrow> entry \<Rightarrow> bool"
  envLoad :: "hist \<Rightarrow> gvr \<Rightarrow> gerr + string"
  envStore :: "hist \<Rightarrow> gvr \<Rightarrow> string \<Rightarrow> gerr option"
  envDelete :: "hist \<Rightarrow> gvr \<Rightarrow> string \<Rightarrow> gerr option"
  envCtxDone :: "hist \<Rightarrow> bool"
  envCause :: "hist \<Rightarrow> gerr"                \<comment> \<open>\<^verbatim>\<open>context.Cause\<close>\<close>
  envSpawnPut :: "hist \<Rightarrow> bool"
  envPromise :: "hist \<Rightarrow> gerr option"
  envFellBack :: "hist \<Rightarrow> bool"  \<comment> \<open>another watcher's request has made the spawner fall back\<close>

section \<open>The calls\<close>

definition doWatch :: "env \<Rightarrow> gvr \<Rightarrow> listOptions \<Rightarrow> hist \<Rightarrow> (gerr + nat) \<times> hist" where
  "doWatch E g opts h = (let r = envWatch E h g opts in (r, h @ [AWatch g opts r]))"

definition doList :: "env \<Rightarrow> gvr \<Rightarrow> listOptions \<Rightarrow> hist \<Rightarrow> (gerr + lobj) \<times> hist" where
  "doList E g opts h = (let r = envList E h g opts in (r, h @ [AList g opts r]))"

definition chansGet :: "env \<Rightarrow> nat \<Rightarrow> hist \<Rightarrow> event option \<times> hist" where
  "chansGet E w h = (let r = envGet E h w in (r, h @ [AGet w r]))"

definition chansPut :: "env \<Rightarrow> entry \<Rightarrow> hist \<Rightarrow> bool \<times> hist" where
  "chansPut E e h = (let r = envPut E h e in (r, h @ [APut e r]))"

definition bmLoad :: "env \<Rightarrow> hist \<Rightarrow> gvr \<Rightarrow> (gerr + string) \<times> hist" where
  "bmLoad E h g = (let r = envLoad E h g in (r, h @ [ALoad g r]))"

definition bmStore :: "env \<Rightarrow> hist \<Rightarrow> gvr \<Rightarrow> string \<Rightarrow> gerr option \<times> hist" where
  "bmStore E h g rv = (let r = envStore E h g rv in (r, h @ [AStore g rv r]))"

definition bmDelete :: "env \<Rightarrow> hist \<Rightarrow> gvr \<Rightarrow> string \<Rightarrow> gerr option \<times> hist" where
  "bmDelete E h g rv = (let r = envDelete E h g rv in (r, h @ [ADelete g rv r]))"

definition ctxDone :: "env \<Rightarrow> hist \<Rightarrow> bool \<times> hist" where
  "ctxDone E h = (let r = envCtxDone E h in (r, h @ [ACtx r]))"

lemmas call_defs = doWatch_def doList_def chansGet_def chansPut_def bmLoad_def bmStore_def
  bmDelete_def ctxDone_def

section \<open>Projections of a history\<close>

text \<open>What was read from the watch, what reached the output, and whether a send failed.\<close>

definition getsOf :: "hist \<Rightarrow> event list" where
  "getsOf h = concat (map (\<lambda>a. case a of AGet _ (Some ev) \<Rightarrow> [ev] | _ \<Rightarrow> []) h)"

definition sentOf :: "hist \<Rightarrow> entry list" where
  "sentOf h = concat (map (\<lambda>a. case a of APut e True \<Rightarrow> [e] | _ \<Rightarrow> []) h)"

definition stopsOf :: "hist \<Rightarrow> nat list" where
  "stopsOf h = concat (map (\<lambda>a. case a of AStop w \<Rightarrow> [w] | _ \<Rightarrow> []) h)"

definition watchesOf :: "hist \<Rightarrow> listOptions list" where
  "watchesOf h = concat (map (\<lambda>a. case a of AWatch _ opts _ \<Rightarrow> [opts] | _ \<Rightarrow> []) h)"

lemma hist_append [hist_simps]:
  "getsOf (h @ h') = getsOf h @ getsOf h'" "sentOf (h @ h') = sentOf h @ sentOf h'"
  "stopsOf (h @ h') = stopsOf h @ stopsOf h'" "watchesOf (h @ h') = watchesOf h @ watchesOf h'"
  by (simp_all add: getsOf_def sentOf_def stopsOf_def watchesOf_def)

lemma hist_Nil [hist_simps]: "getsOf [] = []" "sentOf [] = []" "stopsOf [] = []" "watchesOf [] = []"
  by (simp_all add: getsOf_def sentOf_def stopsOf_def watchesOf_def)

lemma proj_Cons [hist_simps]:
  "getsOf (a # h) = (case a of AGet _ (Some ev) \<Rightarrow> [ev] | _ \<Rightarrow> []) @ getsOf h"
  "sentOf (a # h) = (case a of APut e True \<Rightarrow> [e] | _ \<Rightarrow> []) @ sentOf h"
  "stopsOf (a # h) = (case a of AStop w \<Rightarrow> [w] | _ \<Rightarrow> []) @ stopsOf h"
  "watchesOf (a # h) = (case a of AWatch _ opts _ \<Rightarrow> [opts] | _ \<Rightarrow> []) @ watchesOf h"
  by (simp_all add: getsOf_def sentOf_def stopsOf_def watchesOf_def)

text \<open>A property of every store in a history, of what came before it.\<close>

definition storesOK :: "(hist \<Rightarrow> gvr \<Rightarrow> string \<Rightarrow> bool) \<Rightarrow> hist \<Rightarrow> bool" where
  "storesOK P h \<longleftrightarrow> (\<forall>p g rv r q. h = p @ AStore g rv r # q \<longrightarrow> P p g rv)"

lemma storesOK_snoc:
  "storesOK P (h @ [a]) \<longleftrightarrow> storesOK P h \<and> (\<forall>g rv r. a = AStore g rv r \<longrightarrow> P h g rv)"
  (is "?l \<longleftrightarrow> ?r")
proof
  assume l: ?l
  show ?r
  proof
    show "storesOK P h"
      unfolding storesOK_def
    proof (intro allI impI)
      fix p g rv r q
      assume "h = p @ AStore g rv r # q"
      then have "h @ [a] = p @ AStore g rv r # (q @ [a])" by simp
      with l show "P p g rv" unfolding storesOK_def by blast
    qed
    show "\<forall>g rv r. a = AStore g rv r \<longrightarrow> P h g rv"
      using l unfolding storesOK_def by blast
  qed
next
  assume r: ?r
  show ?l
    unfolding storesOK_def
  proof (intro allI impI)
    fix p g rv r q
    assume eq: "h @ [a] = p @ AStore g rv r # q"
    show "P p g rv"
    proof (cases q rule: rev_cases)
      case Nil
      with eq have "p = h" "a = AStore g rv r" by auto
      with r show ?thesis by blast
    next
      case (snoc q' b)
      with eq have "h = p @ AStore g rv r # q'" by simp
      with r show ?thesis unfolding storesOK_def by blast
    qed
  qed
qed

lemma storesOK_Nil [simp]: "storesOK P []"
  by (simp add: storesOK_def)

text \<open>A history without stores.\<close>

definition noStores :: "hist \<Rightarrow> bool" where
  "noStores h \<longleftrightarrow> list_all (\<lambda>a. case a of AStore _ _ _ \<Rightarrow> False | _ \<Rightarrow> True) h"

lemma noStores_simps [simp]:
  "noStores []" "noStores (a # h) \<longleftrightarrow> (case a of AStore _ _ _ \<Rightarrow> False | _ \<Rightarrow> True) \<and> noStores h"
  "noStores (h @ h') \<longleftrightarrow> noStores h \<and> noStores h'"
  by (simp_all add: noStores_def)

lemma storesOK_noStores: "noStores seg \<Longrightarrow> storesOK P (h @ seg) = storesOK P h"
proof (induction seg rule: rev_induct)
  case (snoc a seg)
  then show ?case
    using storesOK_snoc [of P "h @ seg" a] by (auto split: act.splits)
qed simp

lemma noStores_OK: "noStores seg \<Longrightarrow> storesOK P seg"
  using storesOK_noStores [of seg P "[]"] by simp

text \<open>A part of a history that reads no watch, sends nothing, stops no watch and stores nothing.\<close>

definition quiet :: "hist \<Rightarrow> bool" where
  "quiet h \<longleftrightarrow> noStores h \<and> getsOf h = [] \<and> sentOf h = [] \<and> stopsOf h = []"

lemma quiet_simps [simp]:
  "quiet []" "quiet (h @ h') \<longleftrightarrow> quiet h \<and> quiet h'"
  "quiet (AWatch g opts r # h) \<longleftrightarrow> quiet h" "quiet (AList g opts l # h) \<longleftrightarrow> quiet h"
  "quiet (ALoad g v # h) \<longleftrightarrow> quiet h" "quiet (ADelete g rv e # h) \<longleftrightarrow> quiet h"
  "quiet (ACtx d # h) \<longleftrightarrow> quiet h" "quiet (ASpawnPut d # h) \<longleftrightarrow> quiet h"
  "quiet (APromiseSet # h) \<longleftrightarrow> quiet h" "quiet (APromiseGet e # h) \<longleftrightarrow> quiet h" "quiet (ASleep # h) \<longleftrightarrow> quiet h"
  by (auto simp: quiet_def hist_simps)

lemma quiet_noStores: "quiet h \<Longrightarrow> noStores h"
  by (simp add: quiet_def)

text \<open>A context that is done stays done.\<close>

definition ctxMonotone :: "env \<Rightarrow> bool" where
  "ctxMonotone E \<longleftrightarrow> (\<forall>h h'. envCtxDone E h \<longrightarrow> envCtxDone E (h @ h'))"

end
