(* ===== verification/Watch.thy ===== *)
theory Watch
  imports WatchEnv
begin

text \<open>
  Reading one watch (\<^verbatim>\<open>watchEvent\<close>, \<^verbatim>\<open>watchEvents\<close> of \<^verbatim>\<open>watchlist.go\<close>): events become entries on
  the output channel, bookmarks become stored resource versions, and a recovery watch delivers its
  snapshots first. The loop runs until the watch closes or the context is done, so it has fuel, one
  unit for each event; \<open>None\<close> is a watch still being read. The main fact is that a version is stored
  only when everything before it has reached the output.
\<close>

text \<open>A watch; a recovery watcher wraps one with its mode.\<close>

record watcher =
  wId :: nat
  wMode :: "recoveryMode option"

definition newInitialEventsWatcher :: "watcher \<Rightarrow> watcher" where
  "newInitialEventsWatcher w = \<lparr>wId = wId w, wMode = Some (SetinitialEventsRecovery zeroMode)\<rparr>"

definition newListRecoveryWatcher :: "watcher \<Rightarrow> robj option list \<Rightarrow> string \<Rightarrow> watcher" where
  "newListRecoveryWatcher w objects rv =
     \<lparr>wId = wId w, wMode = Some (SetlistRecovery zeroMode \<lparr>lrObjects = objects, lrResourceVersion = rv\<rparr>)\<rparr>"

text \<open>What the loop carries from event to event: the initial-events flag, whether the stopper has run
  (it is a \<^verbatim>\<open>sync.OnceFunc\<close>) and the history.\<close>

record wst =
  initialEvents :: bool
  stopped :: bool
  wHist :: hist

definition stopper :: "nat \<Rightarrow> wst \<Rightarrow> wst" where
  "stopper w s = (if stopped s then s else s\<lparr>stopped := True, wHist := wHist s @ [AStop w]\<rparr>)"

section \<open>One event\<close>

text \<open>The value of a key of a Go map, the empty string for a missing key.\<close>

definition annotationValue :: "objMeta \<Rightarrow> string \<Rightarrow> string" where
  "annotationValue m k = (case annotations m k of None \<Rightarrow> [] | Some v \<Rightarrow> v)"

definition watchEvent :: "k8s \<Rightarrow> env \<Rightarrow> nat \<Rightarrow> wst \<Rightarrow> (string \<times> gerr option) outcome \<times> wst" where
  "watchEvent K E w s =
     (case chansGet E w (wHist s) of
        (None, h) \<Rightarrow> (Ret ([], Some (Sent EOF)), stopper w (s\<lparr>wHist := h\<rparr>))
      | (Some event, h) \<Rightarrow>
          (let s = s\<lparr>wHist := h @ [AMetric event]\<rparr> in
           case evType event of
             Bookmark \<Rightarrow>
               (case Option.bind (evObject event) (asMetaObject K) of
                  None \<Rightarrow> (Panic ''interface conversion'', s)
                | Some obj \<Rightarrow>
                    if initialEvents s then
                      (if annotationValue obj (initialEventsKey K) \<noteq> ''true'' then (Ret ([], None), s)
                       else (Ret (resourceVersionOf obj, None), s\<lparr>initialEvents := False\<rparr>))
                    else (Ret (resourceVersionOf obj, None), s))
           | ErrorEvent \<Rightarrow>
               (let err = fromObject K (evObject event) in
                if staleResourceVersion K (Some err)
                then (Ret ([], Some (Wrap ''watch stream rejected its resourceVersion'' [err])), stopper w s)
                else (Ret ([], None), s))
           | _ \<Rightarrow>
               (case (if initialEvents s \<and> evType event = Added
                      then NewEntry K (evObject event) STWatchList CTSnapshot
                      else WatchEventToEntry K event) of
                  Inl err \<Rightarrow> (Ret ([], None), s)
                | Inr entry \<Rightarrow>
                    (case chansPut E entry (wHist s) of
                       (False, h) \<Rightarrow> (Ret ([], Some (Sent EOF)), stopper w (s\<lparr>wHist := h\<rparr>))
                     | (True, h) \<Rightarrow> (Ret ([], None), s\<lparr>wHist := h\<rparr>)))))"

section \<open>All events\<close>

text \<open>\<open>st\<close> is whether the reader has a bookmark store, \<open>key\<close> the resource.\<close>

definition storeVersion :: "env \<Rightarrow> bool \<Rightarrow> gvr \<Rightarrow> string \<Rightarrow> hist \<Rightarrow> gerr option \<times> hist" where
  "storeVersion E st key rv h = storeBookmark (if st then Some (bmStore E) else None) h key rv"

fun watchLoop :: "k8s \<Rightarrow> env \<Rightarrow> bool \<Rightarrow> gvr \<Rightarrow> nat \<Rightarrow> nat \<Rightarrow> string \<Rightarrow> string \<Rightarrow> wst \<Rightarrow>
    (string \<times> gerr option) outcome option \<times> wst" where
  "watchLoop K E st key w 0 rv stored s = (None, s)"
| "watchLoop K E st key w (Suc n) rv stored s =
     (case watchEvent K E w s of
        (Panic m, s) \<Rightarrow> (Some (Panic m), s)
      | (Ret (rv', err), s) \<Rightarrow>
          (let (rv, stored, s) =
             (if rv' \<noteq> [] then
                (if rv' \<noteq> stored then
                   (case storeVersion E st key rv' (wHist s) of
                      (None, h) \<Rightarrow> (rv', rv', s\<lparr>wHist := h\<rparr>)
                    | (Some _, h) \<Rightarrow> (rv', stored, s\<lparr>wHist := h\<rparr>))
                 else (rv', stored, s))
              else (rv, stored, s)) in
           case err of
             Some e \<Rightarrow> if errors_Is e EOF then (Some (Ret (rv, None)), s) else (Some (Ret (rv, Some e)), s)
           | None \<Rightarrow> watchLoop K E st key w n rv stored s))"

datatype delivery = Delivered | ConversionFailed gerr | PutFailed

fun deliverSnapshots :: "k8s \<Rightarrow> env \<Rightarrow> robj option list \<Rightarrow> hist \<Rightarrow> delivery \<times> hist" where
  "deliverSnapshots K E [] h = (Delivered, h)"
| "deliverSnapshots K E (obj # objs) h =
     (case NewEntry K obj STWatchList CTSnapshot of
        Inl err \<Rightarrow> (ConversionFailed err, h)
      | Inr entry \<Rightarrow>
          (case chansPut E entry h of
             (False, h) \<Rightarrow> (PutFailed, h)
           | (True, h) \<Rightarrow> deliverSnapshots K E objs h))"

definition watchEvents :: "k8s \<Rightarrow> env \<Rightarrow> bool \<Rightarrow> gvr \<Rightarrow> nat \<Rightarrow> watcher \<Rightarrow> hist \<Rightarrow>
    (string \<times> gerr option) outcome option \<times> hist" where
  "watchEvents K E st key fuel watcher h =
     (let w = wId watcher;
          run = (\<lambda>ini rv stored h.
             let (r, s) = watchLoop K E st key w fuel rv stored \<lparr>initialEvents = ini, stopped = False, wHist = h\<rparr>
             in (r, wHist s))
      in
      case wMode watcher of
        None \<Rightarrow> run False [] [] h
      | Some mode \<Rightarrow>
          if mode_Type mode = recoveryModeTypeinitialEventsRecovery then run True [] [] h
          else if mode_Type mode = recoveryModeTypelistRecovery then
            (case get_listRecovery mode of
               Panic m \<Rightarrow> (Some (Panic m), h)
             | Ret l \<Rightarrow>
                 (case deliverSnapshots K E (lrObjects l) h of
                    (ConversionFailed err, h) \<Rightarrow>
                      (Some (Ret ([], Some (Wrap ''error converting recovery snapshot'' [err]))), h @ [AStop w])
                  | (PutFailed, h) \<Rightarrow> (Some (Ret ([], None)), h @ [AStop w])
                  | (Delivered, h) \<Rightarrow>
                      (let rv = lrResourceVersion l in
                       if rv \<noteq> [] then
                         (case storeVersion E st key rv h of
                            (None, h) \<Rightarrow> run False rv rv h
                          | (Some _, h) \<Rightarrow> run False rv [] h)
                       else run False rv [] h)))
          else (Some (Ret ([], Some (Msg ''recovery watcher has unknown mode''))), h @ [AStop w]))"

section \<open>What a watch owes the output\<close>

text \<open>The end of the initial events, the entry an event stands for, the version of a bookmark.\<close>

definition bookmarkMeta :: "k8s \<Rightarrow> event \<Rightarrow> objMeta option" where
  "bookmarkMeta K ev =
     (if evType ev = Bookmark then Option.bind (evObject ev) (asMetaObject K) else None)"

definition endsInitial :: "k8s \<Rightarrow> event \<Rightarrow> bool" where
  "endsInitial K ev \<longleftrightarrow>
     (\<exists>m. bookmarkMeta K ev = Some m \<and> annotationValue m (initialEventsKey K) = ''true'')"

fun iniAfter :: "k8s \<Rightarrow> bool \<Rightarrow> event list \<Rightarrow> bool" where
  "iniAfter K ini [] = ini"
| "iniAfter K ini (ev # evs) = iniAfter K (ini \<and> \<not> endsInitial K ev) evs"

definition eventEntry :: "k8s \<Rightarrow> bool \<Rightarrow> event \<Rightarrow> entry list" where
  "eventEntry K ini ev =
     (case (if ini \<and> evType ev = Added then NewEntry K (evObject ev) STWatchList CTSnapshot
            else WatchEventToEntry K ev) of
        Inl _ \<Rightarrow> [] | Inr e \<Rightarrow> [e])"

fun flow :: "k8s \<Rightarrow> bool \<Rightarrow> event list \<Rightarrow> entry list" where
  "flow K ini [] = []"
| "flow K ini (ev # evs) = eventEntry K ini ev @ flow K (ini \<and> \<not> endsInitial K ev) evs"

definition snapshotsOf :: "k8s \<Rightarrow> robj option list \<Rightarrow> entry list" where
  "snapshotsOf K objs =
     concat (map (\<lambda>obj. case NewEntry K obj STWatchList CTSnapshot of Inl _ \<Rightarrow> [] | Inr e \<Rightarrow> [e]) objs)"

lemma iniAfter_snoc [simp]: "iniAfter K ini (evs @ [ev]) \<longleftrightarrow> iniAfter K ini evs \<and> \<not> endsInitial K ev"
  by (induction evs arbitrary: ini) auto

lemma flow_snoc [simp]:
  "flow K ini (evs @ [ev]) = flow K ini evs @ eventEntry K (iniAfter K ini evs) ev"
  by (induction evs arbitrary: ini) auto

lemma eventEntry_silent [simp]:
  "evType ev = Bookmark \<Longrightarrow> eventEntry K ini ev = []" "evType ev = ErrorEvent \<Longrightarrow> eventEntry K ini ev = []"
  by (simp_all add: eventEntry_def WatchEventToEntry_def)

text \<open>A version is safe after the part \<open>p\<close> of a watch when all that was read is in the output, behind
  the snapshots, and the version is the one of the bookmark read last, outside the initial events, or
  the one of the list the snapshots came from.\<close>

definition caughtUp :: "k8s \<Rightarrow> bool \<Rightarrow> entry list \<Rightarrow> hist \<Rightarrow> bool" where
  "caughtUp K ini snaps p \<longleftrightarrow> sentOf p = snaps @ flow K ini (getsOf p)"

definition safeVersion :: "k8s \<Rightarrow> bool \<Rightarrow> entry list \<Rightarrow> string \<Rightarrow> hist \<Rightarrow> string \<Rightarrow> bool" where
  "safeVersion K ini snaps listRV p rv \<longleftrightarrow>
     caughtUp K ini snaps p \<and> rv \<noteq> [] \<and>
     (if getsOf p = [] then rv = listRV
      else \<not> iniAfter K ini (getsOf p) \<and>
        (\<exists>m. bookmarkMeta K (last (getsOf p)) = Some m \<and> resourceVersionOf m = rv))"

text \<open>The invariant of the loop, for the part \<open>seg\<close> of the history this watch has added.\<close>

definition watchInv :: "k8s \<Rightarrow> gvr \<Rightarrow> bool \<Rightarrow> entry list \<Rightarrow> string \<Rightarrow> hist \<Rightarrow> hist \<Rightarrow> wst \<Rightarrow> bool" where
  "watchInv K key ini snaps listRV h0 seg s \<longleftrightarrow>
     wHist s = h0 @ seg \<and> caughtUp K ini snaps seg \<and> initialEvents s = iniAfter K ini (getsOf seg) \<and>
     storesOK (\<lambda>p g rv. g = key \<and> safeVersion K ini snaps listRV p rv) seg \<and>
     stopsOf seg = [] \<and> \<not> stopped s"

text \<open>One event: either the invariant holds again, with what the event asks to store, or the watch is
  over, stopped, and nothing was stored since.\<close>

definition eventOK :: "k8s \<Rightarrow> gvr \<Rightarrow> bool \<Rightarrow> entry list \<Rightarrow> string \<Rightarrow> hist \<Rightarrow> hist \<Rightarrow> nat \<Rightarrow>
    (string \<times> gerr option) outcome \<Rightarrow> wst \<Rightarrow> bool" where
  "eventOK K key ini snaps listRV h0 seg w r s' \<longleftrightarrow>
     (\<exists>seg'. wHist s' = h0 @ seg @ seg' \<and>
       storesOK (\<lambda>p g rv. g = key \<and> safeVersion K ini snaps listRV p rv) (seg @ seg') \<and>
       (case r of
          Panic m \<Rightarrow> True
        | Ret (rv, None) \<Rightarrow> watchInv K key ini snaps listRV h0 (seg @ seg') s' \<and>
            (rv \<noteq> [] \<longrightarrow> safeVersion K ini snaps listRV (seg @ seg') rv)
        | Ret (rv, Some e) \<Rightarrow> rv = [] \<and> stopsOf (seg @ seg') = [w]))"

lemma eventOK_over:
  assumes "watchInv K key ini snaps listRV h0 seg s" and "wHist s' = wHist s @ seg'" and "noStores seg'"
    and "stopsOf seg' = [w]"
  shows "eventOK K key ini snaps listRV h0 seg w (Ret ([], Some e)) s'"
  unfolding eventOK_def using assms
  by (intro exI [where x = seg']) (simp add: watchInv_def storesOK_noStores hist_simps)

lemma eventOK_on:
  assumes "watchInv K key ini snaps listRV h0 (seg @ seg') s'" and "rv \<noteq> [] \<Longrightarrow> safeVersion K ini snaps listRV (seg @ seg') rv"
  shows "eventOK K key ini snaps listRV h0 seg w (Ret (rv, None)) s'"
  unfolding eventOK_def using assms by (intro exI [where x = seg']) (simp add: watchInv_def)

lemma eventOK_panic:
  assumes "watchInv K key ini snaps listRV h0 seg s" and "wHist s' = wHist s @ seg'" and "noStores seg'"
  shows "eventOK K key ini snaps listRV h0 seg w (Panic m) s'"
  unfolding eventOK_def using assms
  by (intro exI [where x = seg']) (simp add: watchInv_def storesOK_noStores)

text \<open>An event that was read and sent keeps the invariant.\<close>

lemma watchInv_event:
  assumes "watchInv K key ini snaps listRV h0 seg s" and "wHist s' = wHist s @ seg'" and "noStores seg'"
    and "stopsOf seg' = []" and "\<not> stopped s'" and "getsOf seg' = [ev]"
    and "sentOf seg' = eventEntry K (initialEvents s) ev"
    and "initialEvents s' \<longleftrightarrow> initialEvents s \<and> \<not> endsInitial K ev"
  shows "watchInv K key ini snaps listRV h0 (seg @ seg') s'"
  using assms by (simp add: watchInv_def caughtUp_def hist_simps storesOK_noStores)

lemma watchEvent_closed:
  "envGet E (wHist s) w = None \<Longrightarrow>
     watchEvent K E w s = (Ret ([], Some (Sent EOF)), stopper w (s\<lparr>wHist := wHist s @ [AGet w None]\<rparr>))"
  by (simp add: watchEvent_def chansGet_def Let_def)

lemma watchEvent_bookmark:
  assumes inv: "watchInv K key ini snaps listRV h0 seg s" and ev: "watchEvent K E w s = (r, s')"
    and get: "envGet E (wHist s) w = Some event" and type: "evType event = Bookmark"
  shows "eventOK K key ini snaps listRV h0 seg w r s'"
proof (cases "bookmarkMeta K event")
  case None
  with ev get type have "r = Panic ''interface conversion''" "wHist s' = wHist s @ [AGet w (Some event), AMetric event]"
    by (auto simp: watchEvent_def chansGet_def Let_def bookmarkMeta_def)
  then show ?thesis using eventOK_panic [OF inv] by simp
next
  case (Some obj)
  let ?seg = "[AGet w (Some event), AMetric event]"
  have "\<not> stopped s" using inv by (simp add: watchInv_def)
  with ev get type Some obtain rv where r: "r = Ret (rv, None)" "wHist s' = wHist s @ ?seg" "\<not> stopped s'"
    "initialEvents s' \<longleftrightarrow> initialEvents s \<and> \<not> endsInitial K event"
    "rv \<noteq> [] \<Longrightarrow> rv = resourceVersionOf obj \<and> \<not> initialEvents s'"
    by (auto simp: watchEvent_def chansGet_def Let_def bookmarkMeta_def endsInitial_def split: if_splits)
  have inv': "watchInv K key ini snaps listRV h0 (seg @ ?seg) s'"
    by (rule watchInv_event [OF inv r(2) _ _ r(3) _ _ r(4)]) (simp_all add: type hist_simps)
  then have "safeVersion K ini snaps listRV (seg @ ?seg) rv" if "rv \<noteq> []"
    using that r(5) Some by (auto simp: safeVersion_def watchInv_def hist_simps)
  with inv' show ?thesis unfolding r(1) by (rule eventOK_on)
qed

lemma watchEvent_error:
  assumes inv: "watchInv K key ini snaps listRV h0 seg s" and ev: "watchEvent K E w s = (r, s')"
    and get: "envGet E (wHist s) w = Some event" and type: "evType event = ErrorEvent"
  shows "eventOK K key ini snaps listRV h0 seg w r s'"
proof (cases "staleResourceVersion K (Some (fromObject K (evObject event)))")
  case True
  have "\<not> stopped s" using inv by (simp add: watchInv_def)
  with True ev get type obtain e where "r = Ret ([], Some e)"
    "wHist s' = wHist s @ [AGet w (Some event), AMetric event, AStop w]"
    by (auto simp: watchEvent_def chansGet_def stopper_def Let_def)
  then show ?thesis using eventOK_over [OF inv, of s' _ w e] by (simp add: hist_simps)
next
  case False
  let ?seg = "[AGet w (Some event), AMetric event]"
  from False ev get type have r: "r = Ret ([], None)" "s' = s\<lparr>wHist := wHist s @ ?seg\<rparr>"
    by (auto simp: watchEvent_def chansGet_def Let_def)
  have "\<not> stopped s" using inv by (simp add: watchInv_def)
  then have "watchInv K key ini snaps listRV h0 (seg @ ?seg) s'"
    by (intro watchInv_event [OF inv, where ev = event]) (simp_all add: r type hist_simps endsInitial_def bookmarkMeta_def)
  then show ?thesis unfolding r(1) by (rule eventOK_on) simp
qed

lemma watchEvent_object:
  assumes inv: "watchInv K key ini snaps listRV h0 seg s" and ev: "watchEvent K E w s = (r, s')"
    and get: "envGet E (wHist s) w = Some event" and type: "evType event \<noteq> Bookmark" "evType event \<noteq> ErrorEvent"
  shows "eventOK K key ini snaps listRV h0 seg w r s'"
proof -
  let ?s = "s\<lparr>wHist := wHist s @ [AGet w (Some event), AMetric event]\<rparr>"
  have run: "(r, s') =
    (case eventEntry K (initialEvents s) event of
       [] \<Rightarrow> (Ret ([], None), ?s)
     | entry # _ \<Rightarrow>
         (case chansPut E entry (wHist ?s) of
            (False, h) \<Rightarrow> (Ret ([], Some (Sent EOF)), stopper w (?s\<lparr>wHist := h\<rparr>))
          | (True, h) \<Rightarrow> (Ret ([], None), ?s\<lparr>wHist := h\<rparr>)))"
    unfolding ev [symmetric] eventEntry_def using get type
    by (cases "evType event") (simp_all add: watchEvent_def chansGet_def chansPut_def Let_def split: sum.split bool.split)
  have st: "\<not> stopped s" "\<not> endsInitial K event"
    using inv type by (simp_all add: watchInv_def endsInitial_def bookmarkMeta_def)
  have on: "eventOK K key ini snaps listRV h0 seg w r s'"
    if "r = Ret ([], None)" "s' = s\<lparr>wHist := wHist s @ seg'\<rparr>" "noStores seg'" "stopsOf seg' = []" "getsOf seg' = [event]"
      "sentOf seg' = eventEntry K (initialEvents s) event" for seg'
    unfolding that(1) using that st by (intro eventOK_on [of _ _ _ _ _ _ _ seg'] watchInv_event [OF inv, where ev = event]) simp_all
  show ?thesis
  proof (cases "eventEntry K (initialEvents s) event")
    case Nil
    with run show ?thesis by (intro on [of "[AGet w (Some event), AMetric event]"]) (simp_all add: hist_simps)
  next
    case (Cons entry es)
    then have es: "es = []" by (auto simp: eventEntry_def split: sum.splits)
    show ?thesis
    proof (cases "envPut E (wHist ?s) entry")
      case True
      with run Cons es show ?thesis
        by (intro on [of "[AGet w (Some event), AMetric event, APut entry True]"])
          (simp_all add: chansPut_def Let_def hist_simps)
    next
      case False
      with run Cons st have "r = Ret ([], Some (Sent EOF))"
        "wHist s' = wHist s @ [AGet w (Some event), AMetric event, APut entry False, AStop w]"
        by (simp_all add: chansPut_def Let_def stopper_def)
      then show ?thesis using eventOK_over [OF inv, of s' _ w] by (simp add: hist_simps)
    qed
  qed
qed

lemma watchEvent_inv:
  assumes inv: "watchInv K key ini snaps listRV h0 seg s" and ev: "watchEvent K E w s = (r, s')"
  shows "eventOK K key ini snaps listRV h0 seg w r s'"
proof (cases "envGet E (wHist s) w")
  case None
  have "\<not> stopped s" using inv by (simp add: watchInv_def)
  with ev watchEvent_closed [OF None] have "r = Ret ([], Some (Sent EOF))" "wHist s' = wHist s @ [AGet w None, AStop w]"
    by (auto simp: stopper_def)
  then show ?thesis using eventOK_over [OF inv, of s' _ w] by (simp add: hist_simps)
next
  case (Some event)
  then show ?thesis
    using watchEvent_bookmark [OF inv ev Some] watchEvent_error [OF inv ev Some] watchEvent_object [OF inv ev Some] by blast
qed

lemma storeVersion_hist:
  "storeVersion E st key rv h = (r, h') \<Longrightarrow> h' = h \<or> h' = h @ [AStore key rv r]"
  by (auto simp: storeVersion_def storeBookmark_def bmStore_def Let_def split: if_splits option.splits prod.splits)

text \<open>Storing a safe version keeps the invariant.\<close>

lemma watchInv_store:
  assumes inv: "watchInv K key ini snaps listRV h0 seg s" and safe: "safeVersion K ini snaps listRV seg rv"
    and st: "storeVersion E st key rv (wHist s) = (r, h)"
  shows "\<exists>seg'. watchInv K key ini snaps listRV h0 (seg @ seg') (s\<lparr>wHist := h\<rparr>)"
proof -
  from storeVersion_hist [OF st] show ?thesis
  proof
    assume "h = wHist s"
    with inv show ?thesis by (intro exI [where x = "[]"]) simp
  next
    assume "h = wHist s @ [AStore key rv r]"
    with inv safe show ?thesis
      by (intro exI [where x = "[AStore key rv r]"])
        (auto simp: watchInv_def caughtUp_def storesOK_snoc hist_simps)
  qed
qed

text \<open>A version that was safe at some point of the watch.\<close>

definition wasSafe :: "k8s \<Rightarrow> bool \<Rightarrow> entry list \<Rightarrow> string \<Rightarrow> hist \<Rightarrow> string \<Rightarrow> bool" where
  "wasSafe K ini snaps listRV seg rv \<longleftrightarrow>
     rv = [] \<or> (\<exists>p q. seg = p @ q \<and> safeVersion K ini snaps listRV p rv)"

lemma wasSafe_append: "wasSafe K ini snaps listRV seg rv \<Longrightarrow> wasSafe K ini snaps listRV (seg @ seg') rv"
  unfolding wasSafe_def by (metis append_assoc)

lemma wasSafe_now: "safeVersion K ini snaps listRV seg rv \<Longrightarrow> wasSafe K ini snaps listRV (seg @ seg') rv"
  unfolding wasSafe_def by blast

text \<open>What a watch has added to the history \<open>h0\<close>: safe stores only, and if it has ended, with the result
  \<open>res\<close>, then at a version that was safe, stopped once.\<close>

definition watchOK :: "k8s \<Rightarrow> gvr \<Rightarrow> bool \<Rightarrow> entry list \<Rightarrow> string \<Rightarrow> nat \<Rightarrow> hist \<Rightarrow>
    (string \<times> gerr option) outcome option \<Rightarrow> hist \<Rightarrow> bool" where
  "watchOK K key ini snaps listRV w h0 res h' \<longleftrightarrow>
     (\<exists>seg. h' = h0 @ seg \<and> storesOK (\<lambda>p g rv. g = key \<and> safeVersion K ini snaps listRV p rv) seg \<and>
       (\<forall>rv err. res = Some (Ret (rv, err)) \<longrightarrow> wasSafe K ini snaps listRV seg rv \<and> stopsOf seg = [w]))"

text \<open>An event after which the loop goes on: the version it asks to store is safe when it is stored.\<close>

lemma watchLoop_next:
  assumes inv: "watchInv K key ini snaps listRV h0 seg s" and was: "wasSafe K ini snaps listRV seg0 rv"
    and seg: "seg = seg0 @ seg1" and safe: "rv' \<noteq> [] \<Longrightarrow> safeVersion K ini snaps listRV seg rv'"
    and ev: "watchEvent K E w s0 = (Ret (rv', None), s)"
    and run: "watchLoop K E st key w (Suc n) rv stored s0 = (res, s')"
  shows "\<exists>rv2 stored2 s2 seg2. watchInv K key ini snaps listRV h0 (seg @ seg2) s2 \<and>
    wasSafe K ini snaps listRV (seg @ seg2) rv2 \<and> watchLoop K E st key w n rv2 stored2 s2 = (res, s')"
proof (cases "rv' \<noteq> [] \<and> rv' \<noteq> stored")
  case True
  obtain x h where st': "storeVersion E st key rv' (wHist s) = (x, h)" by force
  from watchInv_store [OF inv _ st'] safe True obtain seg2 where
    "watchInv K key ini snaps listRV h0 (seg @ seg2) (s\<lparr>wHist := h\<rparr>)" by auto
  moreover have "watchLoop K E st key w n rv' (if x = None then rv' else stored) (s\<lparr>wHist := h\<rparr>) = (res, s')"
    using run ev True st' by (auto split: option.splits)
  ultimately show ?thesis using wasSafe_now safe True by blast
next
  case False
  have "watchLoop K E st key w n (if rv' \<noteq> [] then rv' else rv) stored s = (res, s')"
    using run ev False by auto
  moreover have "wasSafe K ini snaps listRV (seg @ []) (if rv' \<noteq> [] then rv' else rv)"
    using safe wasSafe_now [of K ini snaps listRV seg rv' "[]"] wasSafe_append [OF was] seg by simp
  ultimately show ?thesis using inv by (metis append_Nil2)
qed

lemma watchLoop_spec:
  assumes "watchInv K key ini snaps listRV h0 seg s" and "wasSafe K ini snaps listRV seg rv"
    and "watchLoop K E st key w n rv stored s = (res, s')"
  shows "watchOK K key ini snaps listRV w h0 res (wHist s')"
  using assms
proof (induction n arbitrary: seg s rv stored)
  case 0
  then show ?case by (auto simp: watchInv_def watchOK_def)
next
  case (Suc n)
  obtain r s1 where ev: "watchEvent K E w s = (r, s1)" by force
  from watchEvent_inv [OF Suc.prems(1) ev, unfolded eventOK_def] obtain seg1 where one:
    "wHist s1 = h0 @ seg @ seg1"
    "storesOK (\<lambda>p g rv. g = key \<and> safeVersion K ini snaps listRV p rv) (seg @ seg1)"
    "case r of
       Panic m \<Rightarrow> True
     | Ret (rv, None) \<Rightarrow> watchInv K key ini snaps listRV h0 (seg @ seg1) s1 \<and>
         (rv \<noteq> [] \<longrightarrow> safeVersion K ini snaps listRV (seg @ seg1) rv)
     | Ret (rv, Some e) \<Rightarrow> rv = [] \<and> stopsOf (seg @ seg1) = [w]" by blast
  consider (panic) m where "r = Panic m" | (over) rv' e where "r = Ret (rv', Some e)"
    | (on) rv' where "r = Ret (rv', None)" by (cases r) (auto, metis option.exhaust)
  then show ?case
  proof cases
    case panic
    with Suc.prems(3) ev one show ?thesis by (auto simp: watchOK_def)
  next
    case over
    with Suc.prems(2,3) ev one show ?thesis
      unfolding watchOK_def by (intro exI [where x = "seg @ seg1"]) (auto simp: wasSafe_append split: if_splits)
  next
    case on
    with one(3) have "watchInv K key ini snaps listRV h0 (seg @ seg1) s1"
      and "rv' \<noteq> [] \<Longrightarrow> safeVersion K ini snaps listRV (seg @ seg1) rv'" by auto
    from watchLoop_next [OF this(1) Suc.prems(2) refl this(2) ev [unfolded on] Suc.prems(3)] Suc.IH
    show ?thesis by blast
  qed
qed

section \<open>All of watchEvents\<close>

lemma deliverSnapshots_spec:
  "deliverSnapshots K E objs h = (d, h') \<Longrightarrow>
     \<exists>seg. h' = h @ seg \<and> getsOf seg = [] \<and> stopsOf seg = [] \<and> noStores seg \<and>
       (d = Delivered \<longrightarrow> sentOf seg = snapshotsOf K objs)"
proof (induction objs arbitrary: h)
  case Nil
  then show ?case by (intro exI [where x = "[]"]) (simp add: hist_simps snapshotsOf_def)
next
  case (Cons obj objs)
  show ?case
  proof (cases "NewEntry K obj STWatchList CTSnapshot")
    case (Inl err)
    with Cons.prems show ?thesis by (intro exI [where x = "[]"]) (auto simp: hist_simps)
  next
    case (Inr e)
    show ?thesis
    proof (cases "envPut E h e")
      case False
      with Inr Cons.prems show ?thesis
        by (intro exI [where x = "[APut e False]"]) (auto simp: chansPut_def Let_def hist_simps)
    next
      case True
      with Inr Cons.prems have "deliverSnapshots K E objs (h @ [APut e True]) = (d, h')"
        by (simp add: chansPut_def Let_def)
      from Cons.IH [OF this] obtain seg where seg: "h' = (h @ [APut e True]) @ seg" "getsOf seg = []"
        "stopsOf seg = []" "noStores seg" "d = Delivered \<longrightarrow> sentOf seg = snapshotsOf K objs"
        by blast
      with seg Inr show ?thesis
        by (intro exI [where x = "APut e True # seg"]) (auto simp: hist_simps snapshotsOf_def)
    qed
  qed
qed

text \<open>How a watcher starts: in the initial events or not, behind which snapshots, at which version.\<close>

definition startsInitial :: "watcher \<Rightarrow> bool" where
  "startsInitial w \<longleftrightarrow>
     (case wMode w of None \<Rightarrow> False | Some m \<Rightarrow> mode_Type m = recoveryModeTypeinitialEventsRecovery)"

definition startList :: "watcher \<Rightarrow> listRecovery" where
  "startList w =
     (case wMode w of
        None \<Rightarrow> \<lparr>lrObjects = [], lrResourceVersion = []\<rparr>
      | Some m \<Rightarrow> (case get_listRecovery m of Ret l \<Rightarrow> l | Panic _ \<Rightarrow> \<lparr>lrObjects = [], lrResourceVersion = []\<rparr>))"

abbreviation watchSafe :: "k8s \<Rightarrow> watcher \<Rightarrow> hist \<Rightarrow> string \<Rightarrow> bool" where
  "watchSafe K w \<equiv>
     safeVersion K (startsInitial w) (snapshotsOf K (lrObjects (startList w))) (lrResourceVersion (startList w))"

abbreviation watchWasSafe :: "k8s \<Rightarrow> watcher \<Rightarrow> hist \<Rightarrow> string \<Rightarrow> bool" where
  "watchWasSafe K w \<equiv>
     wasSafe K (startsInitial w) (snapshotsOf K (lrObjects (startList w))) (lrResourceVersion (startList w))"

lemma watchInv_start:
  assumes "sentOf seg = snaps" and "getsOf seg = []" and "stopsOf seg = []" and "noStores seg"
  shows "watchInv K key ini snaps listRV h seg \<lparr>initialEvents = ini, stopped = False, wHist = h @ seg\<rparr>"
  using assms storesOK_noStores [of seg _ "[]"] by (simp add: watchInv_def caughtUp_def)

text \<open>The run of the loop that \<^verbatim>\<open>watchEvents\<close> starts, and a watch that is stopped before it.\<close>

lemma watchOK_loop:
  assumes "(case watchLoop K E st key w fuel rv stored s of (r, s) \<Rightarrow> (r, wHist s)) = (res, h')"
    and "watchInv K key ini snaps listRV h seg s" and "wasSafe K ini snaps listRV seg rv"
  shows "watchOK K key ini snaps listRV w h res h'"
  using watchLoop_spec [OF assms(2,3)] assms(1) by (auto split: prod.splits)

lemma watchOK_stopped:
  assumes "h' = h @ seg" and "noStores seg" and "stopsOf seg = [w]"
  shows "watchOK K key ini snaps listRV w h (Some (Ret ([], e))) h'"
  using assms storesOK_noStores [OF assms(2), of _ "[]"] by (simp add: watchOK_def wasSafe_def)

lemma watchEvents_plain:
  assumes "watchEvents K E st key fuel watcher h = (res, h')"
    and "wMode watcher = None \<and> ini = False \<or> wMode watcher = Some (SetinitialEventsRecovery zeroMode) \<and> ini = True"
  shows "watchOK K key ini [] [] (wId watcher) h res h'"
proof -
  have "(case watchLoop K E st key (wId watcher) fuel [] [] \<lparr>initialEvents = ini, stopped = False, wHist = h\<rparr> of
      (r, s) \<Rightarrow> (r, wHist s)) = (res, h')"
    using assms by (auto simp: watchEvents_def Let_def mode_roundtrip)
  then show ?thesis
    using watchInv_start [of "[]" "[]" K key ini "[]" h]
    by (intro watchOK_loop [where rv = "[]" and seg = "[]"]) (simp_all add: hist_simps wasSafe_def)
qed

lemma watchEvents_list:
  assumes run: "watchEvents K E st key fuel watcher h = (res, h')"
    and list: "wMode watcher = Some (SetlistRecovery zeroMode l)"
  shows "watchOK K key False (snapshotsOf K (lrObjects l)) (lrResourceVersion l) (wId watcher) h res h'"
proof -
  let ?rv = "lrResourceVersion l" and ?snaps = "snapshotsOf K (lrObjects l)"
  obtain d h1 where d: "deliverSnapshots K E (lrObjects l) h = (d, h1)" by force
  from deliverSnapshots_spec [OF d] obtain seg where seg: "h1 = h @ seg" "getsOf seg = []"
    "stopsOf seg = []" "noStores seg" "d = Delivered \<longrightarrow> sentOf seg = ?snaps" by blast
  note defs = watchEvents_def Let_def mode_roundtrip sentinel_defs
  show ?thesis
  proof (cases "d = Delivered")
    case True
    let ?s = "\<lambda>h. \<lparr>initialEvents = False, stopped = False, wHist = h\<rparr>"
    have inv: "watchInv K key False ?snaps ?rv h seg (?s h1)"
      using seg True watchInv_start [of seg ?snaps K key False ?rv h] by simp
    have safe: "?rv \<noteq> [] \<Longrightarrow> safeVersion K False ?snaps ?rv seg ?rv"
      using seg True by (simp add: safeVersion_def caughtUp_def)
    obtain x h2 where x: "storeVersion E st key ?rv h1 = (x, h2)" by force
    show ?thesis
    proof (cases "?rv = []")
      case True
      with run list d \<open>d = Delivered\<close> show ?thesis
        by (intro watchOK_loop [OF _ inv, where rv = "[]" and stored = "[]"]) (simp_all add: defs wasSafe_def)
    next
      case False
      from watchInv_store [OF inv safe [OF False], of E st x h2] x obtain seg2 where
        inv2: "watchInv K key False ?snaps ?rv h (seg @ seg2) (?s h2)" by auto
      have "(case watchLoop K E st key (wId watcher) fuel ?rv (if x = None then ?rv else []) (?s h2) of
          (r, s) \<Rightarrow> (r, wHist s)) = (res, h')"
        using run list d \<open>d = Delivered\<close> False x by (cases x) (simp_all add: defs)
      from watchOK_loop [OF this inv2 wasSafe_now [OF safe [OF False]]] show ?thesis .
    qed
  next
    case False
    with run list d obtain e where "res = Some (Ret ([], e))" "h' = h @ seg @ [AStop (wId watcher)]"
      using seg(1) by (cases d) (auto simp: defs)
    then show ?thesis using seg by (auto intro!: watchOK_stopped simp: hist_simps)
  qed
qed

lemma watchEvents_spec:
  assumes "watchEvents K E st key fuel watcher h = (res, h')"
    and "wMode watcher = None \<or> (\<exists>m. wMode watcher = Some m \<and> wf_mode m)"
  shows "\<exists>seg. h' = h @ seg \<and>
    storesOK (\<lambda>p g rv. g = key \<and> watchSafe K watcher p rv) seg \<and>
    (\<forall>rv err. res = Some (Ret (rv, err)) \<longrightarrow> watchWasSafe K watcher seg rv \<and> stopsOf seg = [wId watcher])"
proof -
  consider (plain) "wMode watcher = None"
    | (init) "wMode watcher = Some (SetinitialEventsRecovery zeroMode)"
    | (list) l where "wMode watcher = Some (SetlistRecovery zeroMode l)"
    using assms(2) by (auto simp: wf_mode_def)
  then have "watchOK K key (startsInitial watcher) (snapshotsOf K (lrObjects (startList watcher)))
      (lrResourceVersion (startList watcher)) (wId watcher) h res h'"
  proof cases
    case plain
    with watchEvents_plain [OF assms(1), of False] show ?thesis
      by (simp add: startsInitial_def startList_def snapshotsOf_def)
  next
    case init
    with watchEvents_plain [OF assms(1), of True] show ?thesis
      by (simp add: startsInitial_def startList_def snapshotsOf_def mode_roundtrip)
  next
    case list
    with watchEvents_list [OF assms(1)] show ?thesis
      by (simp add: startsInitial_def startList_def mode_roundtrip sentinel_defs)
  qed
  then show ?thesis unfolding watchOK_def .
qed

section \<open>Termination\<close>

lemma watchEvent_gets:
  "watchEvent K E w s = (Ret (rv, None), s') \<Longrightarrow>
     envGet E (wHist s) w \<noteq> None \<and> length (getsOf (wHist s')) = Suc (length (getsOf (wHist s)))"
  by (auto simp: watchEvent_def chansGet_def chansPut_def Let_def hist_simps stopper_def
      split: option.splits eventType.splits if_splits sum.splits bool.splits)

lemma storeVersion_gets: "storeVersion E st key rv h = (r, h') \<Longrightarrow> getsOf h' = getsOf h"
  using storeVersion_hist [of E st key rv h r h'] by (auto simp: hist_simps)

text \<open>A watch that closes after at most \<open>N\<close> events is read to its end.\<close>

lemma watchLoop_ends:
  assumes closes: "\<And>h. N \<le> length (getsOf h) \<Longrightarrow> envGet E h w = None"
  shows "0 < fuel \<Longrightarrow> N < length (getsOf (wHist s)) + fuel \<Longrightarrow>
    fst (watchLoop K E st key w fuel rv stored s) \<noteq> None"
proof (induction fuel arbitrary: rv stored s)
  case (Suc fuel)
  show ?case
  proof (cases "envGet E (wHist s) w")
    case None
    then show ?thesis by (simp add: watchEvent_closed Let_def)
  next
    case (Some event)
    with closes [of "wHist s"] have few: "length (getsOf (wHist s)) < N" by fastforce
    obtain r s1 where ev: "watchEvent K E w s = (r, s1)" by force
    show ?thesis
    proof (cases "\<exists>rv'. r = Ret (rv', None)")
      case True
      then obtain rv' where r: "r = Ret (rv', None)" by blast
      have "length (getsOf (wHist s1)) = Suc (length (getsOf (wHist s)))"
        using watchEvent_gets ev r by blast
      with few Suc.prems have "0 < fuel" "N < length (getsOf (wHist s1)) + fuel" by auto
      then have next_ends: "fst (watchLoop K E st key w fuel x y (s1\<lparr>wHist := h\<rparr>)) \<noteq> None"
        if "getsOf h = getsOf (wHist s1)" for x y h
        using Suc.IH [of "s1\<lparr>wHist := h\<rparr>" x y] that by simp
      have same: "s1\<lparr>wHist := wHist s1\<rparr> = s1" by simp
      show ?thesis
        using ev r next_ends next_ends [of "wHist s1", unfolded same]
        by (auto simp: Let_def storeVersion_gets split: prod.splits option.splits)
    next
      case False
      with ev show ?thesis
        by (auto simp: Let_def split: prod.splits option.splits outcome.splits if_splits)
    qed
  qed
qed simp

end
