(* ===== verification/Retry.thy ===== *)
theory Retry
  imports K8s
begin

text \<open>
  Retrying. \<^verbatim>\<open>exponential.Backoff.Retry\<close> is a library call, so it is a parameter: a function from the
  operation and the state it works on to the final error and state, with the attempt limit as an
  option. \<open>retry_contract\<close> states what the program relies on: it makes attempts one after the other,
  goes on only after an error that is not permanent, keeps within the limit, and returns nil exactly
  when its last attempt did. How many attempts it makes within that, and what error it returns, is
  left open: a cancelled context may end it at any point, even before the first attempt.
\<close>

type_synonym 's op = "'s \<Rightarrow> gerr option \<times> 's"
type_synonym 's retry = "nat option \<Rightarrow> 's op \<Rightarrow> 's \<Rightarrow> gerr option \<times> 's"

text \<open>At most \<open>n\<close> attempts, stopping at success and at a permanent error. The first component is
  whether the last attempt succeeded.\<close>

fun attempts :: "'s op \<Rightarrow> nat \<Rightarrow> 's \<Rightarrow> bool \<times> 's" where
  "attempts op 0 s = (False, s)"
| "attempts op (Suc n) s =
     (case op s of
        (None, s) \<Rightarrow> (True, s)
      | (Some e, s) \<Rightarrow> if errors_Is e ErrPermanent then (False, s) else attempts op n s)"

definition retry_contract :: "'s retry \<Rightarrow> bool" where
  "retry_contract retry \<longleftrightarrow>
     (\<forall>mx op s. \<exists>n. (\<forall>m. mx = Some m \<longrightarrow> n \<le> m) \<and>
        snd (retry mx op s) = snd (attempts op n s) \<and>
        (fst (retry mx op s) = None \<longleftrightarrow> fst (attempts op n s)))"

text \<open>A retrier that satisfies the contract: it makes all attempts it may.\<close>

definition retryAll :: "'s retry" where
  "retryAll mx op s =
     (let (ok, s) = attempts op (case mx of None \<Rightarrow> 10 | Some m \<Rightarrow> m) s
      in (if ok then None else Some (Msg ''retries exhausted''), s))"

lemma retryAll_contract: "retry_contract retryAll"
  unfolding retry_contract_def
proof (intro allI)
  fix mx and op :: "'s op" and s
  show "\<exists>n. (\<forall>m. mx = Some m \<longrightarrow> n \<le> m) \<and>
        snd (retryAll mx op s) = snd (attempts op n s) \<and>
        (fst (retryAll mx op s) = None \<longleftrightarrow> fst (attempts op n s))"
    by (rule exI [where x = "case mx of None \<Rightarrow> 10 | Some m \<Rightarrow> m"])
      (simp add: retryAll_def split_beta Let_def split: option.split)
qed

lemma attempts_inv:
  assumes "I s" and "\<And>s. I s \<Longrightarrow> I (snd (op s))"
  shows "I (snd (attempts op n s))"
  using assms(1)
proof (induction n arbitrary: s)
  case (Suc n)
  have "I (snd (op s))" using assms(2) [OF Suc.prems] .
  with Suc.IH show ?case by (cases "op s") (auto split: option.split)
qed simp

text \<open>An invariant of one attempt holds when the retrier gives up or succeeds.\<close>

lemma retry_inv:
  assumes "retry_contract retry" and "I s" and "\<And>s. I s \<Longrightarrow> I (snd (op s))"
  shows "I (snd (retry mx op s))"
  using assms attempts_inv [of I s op] by (metis retry_contract_def)

lemma attempts_success:
  assumes "fst (attempts op n s)" and "I s" and "\<And>s. I s \<Longrightarrow> I (snd (op s))"
  shows "\<exists>s0. I s0 \<and> op s0 = (None, snd (attempts op n s))"
  using assms(1,2)
proof (induction n arbitrary: s)
  case (Suc n)
  show ?case
  proof (cases "op s")
    case (Pair r s1)
    have "I s1" using assms(3) [OF Suc.prems(2)] Pair by simp
    with Suc Pair show ?thesis by (auto split: option.splits if_splits)
  qed
qed simp

text \<open>Success means that some attempt, from a state within the invariant, succeeded last.\<close>

lemma retry_success:
  assumes "retry_contract retry" and "retry mx op s = (None, s')" and "I s"
    and "\<And>s. I s \<Longrightarrow> I (snd (op s))"
  shows "\<exists>s0. I s0 \<and> op s0 = (None, s')"
proof -
  obtain n where "snd (retry mx op s) = snd (attempts op n s)"
    and "fst (retry mx op s) = None \<longleftrightarrow> fst (attempts op n s)"
    using assms(1) by (metis retry_contract_def)
  with assms attempts_success [of op n s I] show ?thesis by simp
qed

end
