(* ===== verification/Spawner.thy ===== *)
theory Spawner
  imports Watch Retry
begin

text \<open>
  How a watch comes to be: the spawner goroutine that serves the requests of all watchers
  (\<^verbatim>\<open>connectWatcher\<close> of \<^verbatim>\<open>watchlist.go\<close>) with its fallback for servers without WatchList, the request
  functions of \<^verbatim>\<open>spawn.go\<close> and \<^verbatim>\<open>utils.go\<close>, the paginated list of a recovery and the check of a
  bookmark against the server. A request is a function of the options the spawner hands it.
\<close>

type_synonym spawnWatcher = "listOptions \<Rightarrow> hist \<Rightarrow> (gerr + watcher) \<times> hist"
type_synonym lister = "listOptions \<Rightarrow> hist \<Rightarrow> (gerr + lobj) \<times> hist"

record watchSpec =
  wsGvr :: gvr
  wsSpawn :: spawnWatcher
  wsList :: "lister option"

record spawner =
  watchListEnabled :: bool
  so :: listOptions

text \<open>What a goroutine that requests watches works on: the spawner's state and the history.\<close>

record sstate =
  spw :: spawner
  sHist :: hist

section \<open>Requests\<close>

definition newWatchSpec :: "env \<Rightarrow> gvr \<Rightarrow> watchSpec" where
  "newWatchSpec E g =
     \<lparr>wsGvr = g,
      wsSpawn = (\<lambda>options h.
        case doWatch E g options h of
          (Inl err, h) \<Rightarrow> (Inl err, h)
        | (Inr n, h) \<Rightarrow> (Inr \<lparr>wId = n, wMode = None\<rparr>, h)),
      wsList = Some (\<lambda>options h. doList E g options h)\<rparr>"

definition withResourceVersion :: "spawnWatcher \<Rightarrow> string \<Rightarrow> spawnWatcher" where
  "withResourceVersion sp rv =
     (if rv = [] then sp
      else (\<lambda>options h.
        let options = options\<lparr>loResourceVersion := rv\<rparr>;
            options = (if loSendInitialEvents options \<noteq> None
                       then options\<lparr>loSendInitialEvents := Some False\<rparr> else options)
        in sp options h))"

definition initialEventsRequest :: "watchSpec \<Rightarrow> spawnWatcher" where
  "initialEventsRequest sp options h =
     (if loSendInitialEvents options = None then (Inl (Sent ErrListRecovery), h)
      else (case wsSpawn sp options h of
              (Inl err, h) \<Rightarrow> (Inl err, h)
            | (Inr w, h) \<Rightarrow> (Inr (newInitialEventsWatcher w), h)))"

section \<open>The spawner\<close>

definition soInit :: "bool \<Rightarrow> listOptions" where
  "soInit bookmarking =
     (let so = emptyOptions\<lparr>loWatch := True\<rparr> in
      if bookmarking then
        so\<lparr>loAllowWatchBookmarks := True, loResourceVersionMatch := ''NotOlderThan'',
           loSendInitialEvents := Some True\<rparr>
      else so)"

definition spawnerInit :: "bool \<Rightarrow> spawner" where
  "spawnerInit bookmarking = \<lparr>watchListEnabled = bookmarking, so = soInit bookmarking\<rparr>"

definition fallBack :: "spawner \<Rightarrow> spawner" where
  "fallBack sp =
     \<lparr>watchListEnabled = False,
      so = (so sp)\<lparr>loResourceVersionMatch := [], loSendInitialEvents := None\<rparr>\<rparr>"

definition errOf :: "gerr + 'a \<Rightarrow> gerr option" where
  "errOf r = (case r of Inl err \<Rightarrow> Some err | Inr _ \<Rightarrow> None)"

text \<open>One turn of the loop of \<^verbatim>\<open>connectWatcher\<close>. The second component is what the promise is set to.\<close>

definition serve :: "k8s \<Rightarrow> bool \<Rightarrow> spawnWatcher \<Rightarrow> sstate \<Rightarrow> (gerr + watcher) \<times> sstate" where
  "serve K bookmarking req s =
     (let sp = spw s;
          (r, h) = req (so sp) (sHist s);
          (r, sp, h) =
            (if watchListFeatureDisabled K (errOf r) \<and> bookmarking \<and> watchListEnabled sp then
               (let sp = fallBack sp; (r, h) = req (so sp) h in (r, sp, h))
             else (r, sp, h));
          h = h @ [APromiseSet]
      in
      if (case errOf r of Some err \<Rightarrow> errors_Is err ErrListRecovery | None \<Rightarrow> False)
      then (r, \<lparr>spw = sp, sHist = h\<rparr>)
      else (r, \<lparr>spw = sp, sHist = h @ [ASleep]\<rparr>))"

text \<open>The whole loop, for the requests that arrive until the channel is closed.\<close>

fun connectLoop :: "k8s \<Rightarrow> bool \<Rightarrow> spawnWatcher list \<Rightarrow> sstate \<Rightarrow> (gerr + watcher) list \<times> sstate" where
  "connectLoop K bookmarking [] s = ([], s)"
| "connectLoop K bookmarking (req # reqs) s =
     (let (r, s) = serve K bookmarking req s; (rs, s) = connectLoop K bookmarking reqs s in (r # rs, s))"

definition connectWatcher :: "k8s \<Rightarrow> bool \<Rightarrow> spawnWatcher list \<Rightarrow> hist \<Rightarrow> (gerr + watcher) list \<times> sstate" where
  "connectWatcher K bookmarking reqs h =
     connectLoop K bookmarking reqs \<lparr>spw = spawnerInit bookmarking, sHist = h\<rparr>"

text \<open>A watcher's own request. Between two of its requests the spawner may have served others, one of
  which may have made it fall back: \<open>envFellBack\<close>.\<close>

definition othersServed :: "env \<Rightarrow> bool \<Rightarrow> sstate \<Rightarrow> sstate" where
  "othersServed E bookmarking s =
     (if bookmarking \<and> watchListEnabled (spw s) \<and> envFellBack E (sHist s)
      then s\<lparr>spw := fallBack (spw s)\<rparr> else s)"

definition getWatcher :: "k8s \<Rightarrow> env \<Rightarrow> bool \<Rightarrow> spawnWatcher \<Rightarrow> sstate \<Rightarrow> (gerr + watcher) \<times> sstate" where
  "getWatcher K E bookmarking sp s =
     (let put = envSpawnPut E (sHist s); s = s\<lparr>sHist := sHist s @ [ASpawnPut put]\<rparr> in
      if \<not> put then (Inl (envCause E (sHist s)), s)
      else
        (let (resp, s) = serve K bookmarking sp (othersServed E bookmarking s);
             err = envPromise E (sHist s);
             s = s\<lparr>sHist := sHist s @ [APromiseGet err]\<rparr>
         in
         case err of
           Some err \<Rightarrow> (Inl (Wrap ''error creating watcher'' [err]), s)
         | None \<Rightarrow>
             (case resp of
                Inl err \<Rightarrow> (Inl (Wrap ''error creating watcher'' [err]), s)
              | Inr w \<Rightarrow> (Inr w, s))))"

definition getInitialEventsWatcher :: "k8s \<Rightarrow> env \<Rightarrow> bool \<Rightarrow> watchSpec \<Rightarrow> sstate \<Rightarrow> (gerr + watcher) \<times> sstate" where
  "getInitialEventsWatcher K E bookmarking sp s =
     getWatcher K E bookmarking (initialEventsRequest sp) s"

section \<open>The list of a recovery\<close>

definition recoveryListLimit :: nat where [sentinel_defs]: "recoveryListLimit = 500"

text \<open>The loop over the pages; a server may hand out continue tokens for ever, so it has fuel, one unit
  for each page, and \<open>None\<close> is a list still being read.\<close>

fun recoveryPages :: "k8s \<Rightarrow> gvr \<Rightarrow> lister \<Rightarrow> nat \<Rightarrow> listOptions \<Rightarrow> string \<Rightarrow> robj option list \<Rightarrow> hist \<Rightarrow>
    (gerr + robj option list \<times> string) option \<times> hist" where
  "recoveryPages K g list 0 opts rv objects h = (None, h)"
| "recoveryPages K g list (Suc n) opts rv objects h =
     (case list opts h of
        (Inl err, h) \<Rightarrow> (Some (Inl (the (Permanent K (Some err)))), h)
      | (Inr obj, h) \<Rightarrow>
          (case listAccessor K obj of
             Inl err \<Rightarrow> (Some (Inl (Wrap ''invalid recovery list'' [err, Sent ErrPermanent])), h)
           | Inr (listRV, continue) \<Rightarrow>
               (let rv = (if rv = [] then listRV else rv) in
                if rv = [] \<or> rv \<noteq> listRV then
                  (Some (Inl (Wrap ''inconsistent recovery list resource version'' [Sent ErrPermanent])), h)
                else
                  (case extractList K obj of
                     Inl err \<Rightarrow> (Some (Inl (Wrap ''invalid recovery list items'' [err, Sent ErrPermanent])), h)
                   | Inr page \<Rightarrow>
                       (let objects = objects @ page; opts = opts\<lparr>loContinue := continue\<rparr> in
                        if loContinue opts = [] then (Some (Inr (objects, rv)), h)
                        else recoveryPages K g list n opts rv objects h)))))"

definition listRecoveryObjects :: "k8s \<Rightarrow> nat \<Rightarrow> watchSpec \<Rightarrow> hist \<Rightarrow>
    (gerr + robj option list \<times> string) option \<times> hist" where
  "listRecoveryObjects K fuel sp h =
     (case wsList sp of
        None \<Rightarrow> (Some (Inl (Wrap ''no recovery lister'' [Sent ErrPermanent])), h)
      | Some list \<Rightarrow>
          recoveryPages K (wsGvr sp) list fuel (emptyOptions\<lparr>loLimit := recoveryListLimit\<rparr>) [] [] h)"

definition getListRecoveryWatcher :: "k8s \<Rightarrow> env \<Rightarrow> bool \<Rightarrow> nat \<Rightarrow> watchSpec \<Rightarrow> sstate \<Rightarrow>
    (gerr + watcher) option \<times> sstate" where
  "getListRecoveryWatcher K E bookmarking fuel sp s =
     (case listRecoveryObjects K fuel sp (sHist s) of
        (None, h) \<Rightarrow> (None, s\<lparr>sHist := h\<rparr>)
      | (Some (Inl err), h) \<Rightarrow> (Some (Inl err), s\<lparr>sHist := h\<rparr>)
      | (Some (Inr (objects, rv)), h) \<Rightarrow>
          (case getWatcher K E bookmarking (withResourceVersion (wsSpawn sp) rv) (s\<lparr>sHist := h\<rparr>) of
             (Inl err, s) \<Rightarrow> (Some (Inl err), s)
           | (Inr w, s) \<Rightarrow> (Some (Inr (newListRecoveryWatcher w objects rv)), s)))"

definition getRecoveryWatcher :: "k8s \<Rightarrow> env \<Rightarrow> bool \<Rightarrow> nat \<Rightarrow> watchSpec \<Rightarrow> sstate \<Rightarrow>
    (gerr + watcher) option \<times> sstate" where
  "getRecoveryWatcher K E bookmarking fuel sp s =
     (case getInitialEventsWatcher K E bookmarking sp s of
        (Inl err, s) \<Rightarrow>
          if \<not> errors_Is err ErrListRecovery then (Some (Inl err), s)
          else getListRecoveryWatcher K E bookmarking fuel sp s
      | (Inr w, s) \<Rightarrow> (Some (Inr w), s))"

section \<open>Is a bookmark ahead of the server?\<close>

definition bookmarkCheckAttempts :: nat where [sentinel_defs]: "bookmarkCheckAttempts = 3"

text \<open>One attempt to learn the current version; \<open>current\<close> is the variable the closure assigns.\<close>

definition currentAttempt :: "k8s \<Rightarrow> lister \<Rightarrow> (string \<times> hist) op" where
  "currentAttempt K list s =
     (let (current, h) = s in
      case list (emptyOptions\<lparr>loLimit := 1\<rparr>) h of
        (Inl err, h) \<Rightarrow> (Permanent K (Some err), (current, h))
      | (Inr obj, h) \<Rightarrow>
          (case listAccessor K obj of
             Inl err \<Rightarrow> (Some (Wrap ''invalid list'' [err, Sent ErrPermanent]), (current, h))
           | Inr (rv, continue) \<Rightarrow> (None, (rv, h))))"

definition bookmarkAhead :: "k8s \<Rightarrow> (string \<times> hist) retry \<Rightarrow> lister \<Rightarrow> string \<Rightarrow> hist \<Rightarrow> (gerr + bool) \<times> hist" where
  "bookmarkAhead K retry list bookmark h =
     (case parseUint64 bookmark of
        None \<Rightarrow> (Inl (Msg ''bookmark is not a numeric resourceVersion''), h)
      | Some have_rv \<Rightarrow>
          (case retry (Some bookmarkCheckAttempts) (currentAttempt K list) ([], h) of
             (Some err, (current, h)) \<Rightarrow> (Inl (Wrap ''error listing the current resourceVersion'' [err]), h)
           | (None, (current, h)) \<Rightarrow>
               (case parseUint64 current of
                  None \<Rightarrow> (Inl (Msg ''server resourceVersion is not numeric''), h)
                | Some want \<Rightarrow> (Inr (want < have_rv), h))))"

section \<open>The spawner's state\<close>

text \<open>The spawner has two states: as it started, and fallen back. It never leaves the second.\<close>

definition spawnerOK :: "bool \<Rightarrow> spawner \<Rightarrow> bool" where
  "spawnerOK bookmarking sp \<longleftrightarrow>
     sp = spawnerInit bookmarking \<or> bookmarking \<and> sp = fallBack (spawnerInit bookmarking)"

lemma fallBack_idem [simp]: "fallBack (fallBack sp) = fallBack sp"
  by (simp add: fallBack_def)

lemma spawnerOK_init [simp]: "spawnerOK b (spawnerInit b)"
  by (simp add: spawnerOK_def)

lemma spawnerOK_fallBack: "spawnerOK b sp \<Longrightarrow> b \<Longrightarrow> spawnerOK b (fallBack sp)"
  by (auto simp: spawnerOK_def)

text \<open>A request that makes at most one watch, with the options it was handed up to the version.\<close>

definition answersOf :: "hist \<Rightarrow> nat" where
  "answersOf h = length (filter (\<lambda>a. a = APromiseSet) h)"

lemma answersOf_simps [hist_simps]:
  "answersOf [] = 0" "answersOf (h @ h') = answersOf h + answersOf h'"
  "answersOf (a # h) = (if a = APromiseSet then 1 else 0) + answersOf h"
  by (simp_all add: answersOf_def)

definition sameMode :: "listOptions \<Rightarrow> listOptions \<Rightarrow> bool" where
  "sameMode opts o' \<longleftrightarrow>
     (loSendInitialEvents o' = None \<longleftrightarrow> loSendInitialEvents opts = None) \<and>
     loResourceVersionMatch o' = loResourceVersionMatch opts \<and>
     loAllowWatchBookmarks o' = loAllowWatchBookmarks opts \<and> loWatch o' = loWatch opts"

definition goodReq :: "spawnWatcher \<Rightarrow> bool" where
  "goodReq req \<longleftrightarrow>
     (\<forall>opts h. \<exists>seg. snd (req opts h) = h @ seg \<and> length (watchesOf seg) \<le> 1 \<and> answersOf seg = 0 \<and> quiet seg \<and>
        (\<forall>o' \<in> set (watchesOf seg). sameMode opts o'))"

lemma goodReq_spawn: "goodReq (wsSpawn (newWatchSpec E g))"
  unfolding goodReq_def
proof (intro allI)
  fix opts h
  show "\<exists>seg. snd (wsSpawn (newWatchSpec E g) opts h) = h @ seg \<and> length (watchesOf seg) \<le> 1 \<and>
      answersOf seg = 0 \<and> quiet seg \<and> (\<forall>o' \<in> set (watchesOf seg). sameMode opts o')"
    by (intro exI [where x = "[AWatch g opts (envWatch E h g opts)]"])
      (auto simp: newWatchSpec_def doWatch_def hist_simps sameMode_def Let_def split: sum.splits)
qed

lemma goodReq_withResourceVersion: "goodReq sp \<Longrightarrow> goodReq (withResourceVersion sp rv)"
proof (cases "rv = []")
  case False
  assume good: "goodReq sp"
  show ?thesis
    unfolding goodReq_def
  proof (intro allI)
    fix opts :: listOptions and h
    let ?opts = "opts\<lparr>loResourceVersion := rv,
      loSendInitialEvents := map_option (\<lambda>_. False) (loSendInitialEvents opts)\<rparr>"
    have "withResourceVersion sp rv opts h = sp ?opts h"
      using False by (cases opts; cases "loSendInitialEvents opts") (simp_all add: withResourceVersion_def)
    moreover obtain seg where "snd (sp ?opts h) = h @ seg" "length (watchesOf seg) \<le> 1"
      "answersOf seg = 0" "quiet seg" "\<forall>o' \<in> set (watchesOf seg). sameMode ?opts o'"
      using good unfolding goodReq_def by blast
    ultimately show "\<exists>seg. snd (withResourceVersion sp rv opts h) = h @ seg \<and>
        length (watchesOf seg) \<le> 1 \<and> answersOf seg = 0 \<and> quiet seg \<and>
        (\<forall>o' \<in> set (watchesOf seg). sameMode opts o')"
      by (intro exI [where x = seg]) (simp add: sameMode_def)
  qed
qed (simp add: withResourceVersion_def)

lemma goodReq_initialEvents: "goodReq (wsSpawn sp) \<Longrightarrow> goodReq (initialEventsRequest sp)"
  unfolding goodReq_def
proof (intro allI)
  fix opts h
  assume good: "\<forall>opts h. \<exists>seg. snd (wsSpawn sp opts h) = h @ seg \<and> length (watchesOf seg) \<le> 1 \<and>
    answersOf seg = 0 \<and> quiet seg \<and> (\<forall>o' \<in> set (watchesOf seg). sameMode opts o')"
  have "snd (initialEventsRequest sp opts h) =
      (if loSendInitialEvents opts = None then h else snd (wsSpawn sp opts h))"
    by (simp add: initialEventsRequest_def split: prod.split sum.split)
  then show "\<exists>seg. snd (initialEventsRequest sp opts h) = h @ seg \<and> length (watchesOf seg) \<le> 1 \<and>
      answersOf seg = 0 \<and> quiet seg \<and> (\<forall>o' \<in> set (watchesOf seg). sameMode opts o')"
    using good by (cases "loSendInitialEvents opts = None")
      (auto intro!: exI [where x = "[]"] simp: hist_simps)
qed

text \<open>One turn: the tries of the request, one answer, a pause.\<close>

lemma serve_spec:
  assumes "goodReq req" and "serve K b req s = (r, s')"
  shows "\<exists>xs ys. sHist s' = sHist s @ xs @ ys \<and> answersOf (xs @ ys) = 1 \<and> quiet (xs @ ys) \<and>
    (\<forall>o' \<in> set (watchesOf xs). sameMode (so (spw s)) o') \<and> length (watchesOf xs) \<le> 1 \<and>
    (if spw s' = spw s then watchesOf ys = []
     else b \<and> watchListEnabled (spw s) \<and> spw s' = fallBack (spw s) \<and> length (watchesOf ys) \<le> 1 \<and>
       (\<forall>o' \<in> set (watchesOf ys). sameMode (so (spw s')) o'))"
proof -
  let ?tail = "\<lambda>r. if (case errOf r of Some err \<Rightarrow> errors_Is err ErrListRecovery | None \<Rightarrow> False)
    then [APromiseSet] else [APromiseSet, ASleep]"
  obtain r1 h1 where one: "req (so (spw s)) (sHist s) = (r1, h1)" by force
  with assms(1) obtain xs where xs: "h1 = sHist s @ xs" "length (watchesOf xs) \<le> 1" "answersOf xs = 0" "quiet xs"
    "\<forall>o' \<in> set (watchesOf xs). sameMode (so (spw s)) o'"
    unfolding goodReq_def by (metis snd_conv)
  have tail: "watchesOf (?tail r) = []" "answersOf (?tail r) = 1" "quiet (?tail r)" for r
    by (auto simp: hist_simps)
  show ?thesis
  proof (cases "watchListFeatureDisabled K (errOf r1) \<and> b \<and> watchListEnabled (spw s)")
    case True
    obtain r2 h2 where two: "req (so (fallBack (spw s))) h1 = (r2, h2)" by force
    with assms(1) obtain ys where ys: "h2 = h1 @ ys" "length (watchesOf ys) \<le> 1" "answersOf ys = 0" "quiet ys"
      "\<forall>o' \<in> set (watchesOf ys). sameMode (so (fallBack (spw s))) o'"
      unfolding goodReq_def by (metis snd_conv)
    have "sHist s' = h2 @ ?tail r2" "spw s' = fallBack (spw s)"
      using assms(2) one two True by (auto simp: serve_def Let_def split: if_splits)
    moreover have "fallBack (spw s) \<noteq> spw s"
      using True by (metis fallBack_def spawner.select_convs(1))
    ultimately show ?thesis
      using xs ys tail True by (intro exI [where x = xs] exI [where x = "ys @ ?tail r2"]) (simp add: hist_simps)
  next
    case False
    then have "sHist s' = h1 @ ?tail r1" "spw s' = spw s"
      using assms(2) one by (auto simp: serve_def Let_def split: if_splits)
    then show ?thesis
      using xs tail by (intro exI [where x = xs] exI [where x = "?tail r1"]) (simp add: hist_simps)
  qed
qed

lemma serve_OK: "goodReq req \<Longrightarrow> serve K b req s = (r, s') \<Longrightarrow> spawnerOK b (spw s) \<Longrightarrow> spawnerOK b (spw s')"
  using serve_spec [of req K b s r s'] by (auto split: if_splits intro: spawnerOK_fallBack)

lemma serve_stays:
  "goodReq req \<Longrightarrow> serve K b req s = (r, s') \<Longrightarrow> \<not> watchListEnabled (spw s) \<Longrightarrow> spw s' = spw s"
  using serve_spec [of req K b s r s'] by (auto split: if_splits)

text \<open>All turns: every request is answered once, at most one of them is tried twice, and the watches
  fall into those before the fallback and those after it.\<close>

definition served :: "bool \<Rightarrow> nat \<Rightarrow> sstate \<Rightarrow> sstate \<Rightarrow> bool" where
  "served b n s s' \<longleftrightarrow>
     (\<exists>xs ys. sHist s' = sHist s @ xs @ ys \<and> answersOf (xs @ ys) = n \<and>
       length (watchesOf (xs @ ys)) \<le> n + (if spw s' = spw s then 0 else 1) \<and>
       (\<forall>o' \<in> set (watchesOf xs). sameMode (so (spw s)) o') \<and>
       (\<forall>o' \<in> set (watchesOf ys). sameMode (so (spw s')) o') \<and>
       (spw s' = spw s \<or> watchListEnabled (spw s) \<and> b \<and> spw s' = fallBack (spw s)))"

lemma served_refl: "served b 0 s s"
  unfolding served_def by (intro exI [where x = "[]"]) (simp add: hist_simps)

lemma served_one:
  assumes "goodReq req" and "serve K b req s = (r, s')"
  shows "served b 1 s s'"
proof -
  from serve_spec [OF assms] obtain xs ys where S: "sHist s' = sHist s @ xs @ ys" "answersOf (xs @ ys) = 1"
    "\<forall>o' \<in> set (watchesOf xs). sameMode (so (spw s)) o'" "length (watchesOf xs) \<le> 1"
    "if spw s' = spw s then watchesOf ys = []
     else b \<and> watchListEnabled (spw s) \<and> spw s' = fallBack (spw s) \<and> length (watchesOf ys) \<le> 1 \<and>
       (\<forall>o' \<in> set (watchesOf ys). sameMode (so (spw s')) o')" by blast
  show ?thesis unfolding served_def
    using S by (intro exI [where x = xs] exI [where x = ys]) (auto simp: hist_simps split: if_splits)
qed

text \<open>A spawner falls back at most once, so two stretches join: the fallback lies in one of them.\<close>

lemma served_trans:
  assumes "served b m s t" and "served b n t u"
  shows "served b (m + n) s u"
proof -
  from assms(1) obtain xs ys where A: "sHist t = sHist s @ xs @ ys" "answersOf (xs @ ys) = m"
    "length (watchesOf (xs @ ys)) \<le> m + (if spw t = spw s then 0 else 1)"
    "\<forall>o' \<in> set (watchesOf xs). sameMode (so (spw s)) o'" "\<forall>o' \<in> set (watchesOf ys). sameMode (so (spw t)) o'"
    "spw t = spw s \<or> watchListEnabled (spw s) \<and> b \<and> spw t = fallBack (spw s)" by (auto simp: served_def)
  from assms(2) obtain vs ws where B: "sHist u = sHist t @ vs @ ws" "answersOf (vs @ ws) = n"
    "length (watchesOf (vs @ ws)) \<le> n + (if spw u = spw t then 0 else 1)"
    "\<forall>o' \<in> set (watchesOf vs). sameMode (so (spw t)) o'" "\<forall>o' \<in> set (watchesOf ws). sameMode (so (spw u)) o'"
    "spw u = spw t \<or> watchListEnabled (spw t) \<and> b \<and> spw u = fallBack (spw t)" by (auto simp: served_def)
  show ?thesis
  proof (cases "spw t = spw s")
    case True
    with A B show ?thesis unfolding served_def
      by (intro exI [where x = "xs @ ys @ vs"] exI [where x = ws]) (auto simp: hist_simps split: if_splits)
  next
    case False
    with A B have same: "spw u = spw t" by (auto simp: fallBack_def)
    with False A B show ?thesis unfolding served_def
      by (intro exI [where x = xs] exI [where x = "ys @ vs @ ws"]) (auto simp: hist_simps split: if_splits)
  qed
qed

lemma connectLoop_served:
  assumes "\<forall>req \<in> set reqs. goodReq req" and "connectLoop K b reqs s = (rs, s')"
  shows "length rs = length reqs \<and> served b (length reqs) s s'"
  using assms
proof (induction reqs arbitrary: s rs)
  case Nil
  then show ?case by (simp add: served_refl)
next
  case (Cons req reqs)
  obtain r s1 where one: "serve K b req s = (r, s1)" by force
  then obtain rs1 where rest: "connectLoop K b reqs s1 = (rs1, s')" and rs: "rs = r # rs1"
    using Cons.prems(2) by (auto split: prod.splits)
  show ?case
    using Cons.IH [OF _ rest] Cons.prems(1) rs served_trans [OF served_one [OF _ one], where n = "length reqs" and u = s'] by simp
qed

lemmas connectLoop_spec = connectLoop_served [unfolded served_def]

section \<open>What a request comes back with\<close>

text \<open>A watch that \<open>getWatcher\<close> returns was made by the request, for the options of the spawner.\<close>

lemma serve_watcher:
  assumes "goodReq req" and "serve K b req s = (Inr w, s')"
  shows "\<exists>opts h0 h1 seg. req opts h0 = (Inr w, h1) \<and> (\<exists>seg0. h0 = sHist s @ seg0) \<and> sHist s' = h1 @ seg \<and>
    (opts = so (spw s) \<or> b \<and> opts = so (fallBack (spw s)))"
proof -
  obtain r1 h1 where one: "req (so (spw s)) (sHist s) = (r1, h1)" by force
  with assms(1) obtain seg where seg: "h1 = sHist s @ seg" unfolding goodReq_def by (metis snd_conv)
  show ?thesis
  proof (cases "watchListFeatureDisabled K (errOf r1) \<and> b \<and> watchListEnabled (spw s)")
    case True
    obtain r2 h2 where two: "req (so (fallBack (spw s))) h1 = (r2, h2)" by force
    have "r2 = Inr w \<and> (\<exists>seg. sHist s' = h2 @ seg)"
      using assms(2) one two True by (auto simp: serve_def Let_def split: if_splits)
    with two seg True show ?thesis by blast
  next
    case False
    have "r1 = Inr w \<and> (\<exists>seg. sHist s' = h1 @ seg)"
      using assms(2) one False by (auto simp: serve_def Let_def split: if_splits)
    with one show ?thesis by (metis append_Nil2)
  qed
qed

lemma othersServed_OK: "spawnerOK b (spw s) \<Longrightarrow> spawnerOK b (spw (othersServed E b s))"
  using spawnerOK_fallBack [of b "spw s"] by (cases b) (auto simp: othersServed_def)

lemma othersServed_hist [simp]: "sHist (othersServed E b s) = sHist s"
  by (simp add: othersServed_def)

lemma getWatcher_OK:
  "goodReq req \<Longrightarrow> getWatcher K E b req s = (r, s') \<Longrightarrow> spawnerOK b (spw s) \<Longrightarrow> spawnerOK b (spw s')"
  using serve_OK [of req K b "othersServed E b (s\<lparr>sHist := sHist s @ [ASpawnPut True]\<rparr>)"]
    othersServed_OK [of b "s\<lparr>sHist := sHist s @ [ASpawnPut True]\<rparr>" E]
  by (auto simp: getWatcher_def Let_def split: if_splits prod.splits option.splits sum.splits)

definition knownOptions :: "bool \<Rightarrow> listOptions \<Rightarrow> bool" where
  "knownOptions b opts \<longleftrightarrow> opts = soInit b \<or> b \<and> opts = so (fallBack (spawnerInit b))"

lemma spawnerOK_known: "spawnerOK b sp \<Longrightarrow> knownOptions b (so sp)"
  by (auto simp: spawnerOK_def knownOptions_def spawnerInit_def)

lemma getWatcher_watcher:
  assumes "goodReq req" and "getWatcher K E b req s = (Inr w, s')" and ok: "spawnerOK b (spw s)"
  shows "\<exists>opts h0 h1 seg. req opts h0 = (Inr w, h1) \<and> (\<exists>seg0. h0 = sHist s @ seg0) \<and> sHist s' = h1 @ seg \<and>
    knownOptions b opts"
proof -
  let ?s = "othersServed E b (s\<lparr>sHist := sHist s @ [ASpawnPut True]\<rparr>)"
  obtain s1 where one: "serve K b req ?s = (Inr w, s1)"
    and s': "sHist s' = sHist s1 @ [APromiseGet None]"
    using assms(2) by (auto simp: getWatcher_def Let_def split: if_splits prod.splits option.splits sum.splits)
  from serve_watcher [OF assms(1) one] obtain opts h0 h1 seg where
    "req opts h0 = (Inr w, h1)" "\<exists>seg0. h0 = sHist ?s @ seg0" "sHist s1 = h1 @ seg"
    "opts = so (spw ?s) \<or> b \<and> opts = so (fallBack (spw ?s))" by blast
  moreover have "spawnerOK b (spw ?s)" using ok by (intro othersServed_OK) simp
  ultimately show ?thesis
    using s' spawnerOK_known spawnerOK_fallBack by (metis append_assoc othersServed_hist sstate.select_convs(2)
        sstate.update_convs(2) sstate.surjective)
qed

lemma getWatcher_hist:
  assumes "goodReq req" and "getWatcher K E b req s = (r, s')"
  shows "\<exists>seg. sHist s' = sHist s @ seg \<and> quiet seg"
proof (cases "envSpawnPut E (sHist s)")
  case True
  let ?s = "othersServed E b (s\<lparr>sHist := sHist s @ [ASpawnPut True]\<rparr>)"
  obtain x s1 where one: "serve K b req ?s = (x, s1)" by force
  from serve_spec [OF assms(1) one] obtain seg where "sHist s1 = sHist ?s @ seg" "quiet seg" by blast
  with assms(2) one True show ?thesis
    by (auto simp: getWatcher_def Let_def split: option.splits sum.splits)
next
  case False
  with assms(2) show ?thesis by (auto simp: getWatcher_def Let_def)
qed

section \<open>Pages\<close>

definition pageItems :: "k8s \<Rightarrow> lobj \<Rightarrow> robj option list" where
  "pageItems K l = (case extractList K l of Inr objs \<Rightarrow> objs | Inl _ \<Rightarrow> [])"

text \<open>A complete list in pages: the first request starts at the continue token \<open>c\<close>, each next one with
  the token of the page before, the last page has none, and all pages have the version \<open>rv\<close>.\<close>

fun paged :: "k8s \<Rightarrow> nat \<Rightarrow> string \<Rightarrow> string \<Rightarrow> (listOptions \<times> lobj) list \<Rightarrow> bool" where
  "paged K limit rv c [] = False"
| "paged K limit rv c ((opts, l) # ps) =
     (opts = emptyOptions\<lparr>loLimit := limit, loContinue := c\<rparr> \<and> (\<exists>objs. extractList K l = Inr objs) \<and>
      (\<exists>c'. listAccessor K l = Inr (rv, c') \<and> (if c' = [] then ps = [] else paged K limit rv c' ps)))"

text \<open>A round that does not fail: the server answered with a page of the version of the pages before it.\<close>

lemma recoveryPages_round:
  assumes "recoveryPages K g (doList E g) (Suc n) opts rv0 objects h = (Some (Inr (objs, rv)), h')"
  obtains l rv1 c1 page where "listAccessor K l = Inr (rv1, c1)" and "extractList K l = Inr page"
    and "rv1 \<noteq> []" and "rv0 \<noteq> [] \<longrightarrow> rv1 = rv0"
    and "(if c1 = [] then (Some (Inr (objects @ page, rv1)), h @ [AList g opts (Inr l)])
      else recoveryPages K g (doList E g) n (opts\<lparr>loContinue := c1\<rparr>) rv1 (objects @ page) (h @ [AList g opts (Inr l)]))
      = (Some (Inr (objs, rv)), h')"
proof -
  obtain r h1 where call: "doList E g opts h = (r, h1)" by force
  then have h1: "h1 = h @ [AList g opts r]" by (auto simp: doList_def Let_def)
  obtain l where r: "r = Inr l" using assms call by (cases r) auto
  obtain rv1 c1 where acc: "listAccessor K l = Inr (rv1, c1)"
    using assms call r by (cases "listAccessor K l") auto
  have rv1: "rv1 \<noteq> [] \<and> (rv0 \<noteq> [] \<longrightarrow> rv1 = rv0)"
    using assms call r acc by (auto simp: Let_def split: if_splits)
  then have pick: "(if rv0 = [] then rv1 else rv0) = rv1" by simp
  obtain page where ex: "extractList K l = Inr page"
    using assms call r acc rv1 by (cases "extractList K l") (auto simp: Let_def split: if_splits)
  have "recoveryPages K g (doList E g) (Suc n) opts rv0 objects h =
      (if c1 = [] then (Some (Inr (objects @ page, rv1)), h1)
       else recoveryPages K g (doList E g) n (opts\<lparr>loContinue := c1\<rparr>) rv1 (objects @ page) h1)"
    using rv1 by (simp add: call r acc ex Let_def pick)
  with assms h1 r have "(if c1 = [] then (Some (Inr (objects @ page, rv1)), h @ [AList g opts (Inr l)])
      else recoveryPages K g (doList E g) n (opts\<lparr>loContinue := c1\<rparr>) rv1 (objects @ page) (h @ [AList g opts (Inr l)]))
      = (Some (Inr (objs, rv)), h')" by simp
  from that [OF acc ex _ _ this] rv1 show ?thesis by blast
qed

lemma recoveryPages_spec:
  assumes "recoveryPages K g (doList E g) n opts rv0 objects h = (Some (Inr (objs, rv)), h')"
    and "opts = emptyOptions\<lparr>loLimit := recoveryListLimit, loContinue := c\<rparr>"
  shows "\<exists>ps. h' = h @ map (\<lambda>(o', l). AList g o' (Inr l)) ps \<and> paged K recoveryListLimit rv c ps \<and>
    objs = objects @ concat (map (pageItems K \<circ> snd) ps) \<and> rv \<noteq> [] \<and> (rv0 \<noteq> [] \<longrightarrow> rv = rv0)"
  using assms
proof (induction n arbitrary: opts rv0 objects h c)
  case (Suc n)
  from recoveryPages_round [OF Suc.prems(1)] obtain l rv1 c1 page where acc: "listAccessor K l = Inr (rv1, c1)"
    and ex: "extractList K l = Inr page" and rv1: "rv1 \<noteq> []" "rv0 \<noteq> [] \<longrightarrow> rv1 = rv0"
    and go: "(if c1 = [] then (Some (Inr (objects @ page, rv1)), h @ [AList g opts (Inr l)])
      else recoveryPages K g (doList E g) n (opts\<lparr>loContinue := c1\<rparr>) rv1 (objects @ page) (h @ [AList g opts (Inr l)]))
      = (Some (Inr (objs, rv)), h')" by blast
  have items: "pageItems K l = page" by (simp add: pageItems_def ex)
  show ?case
  proof (cases "c1 = []")
    case True
    with go acc rv1 ex items Suc.prems(2) show ?thesis
      by (intro exI [where x = "[(opts, l)]"]) auto
  next
    case False
    with go have "recoveryPages K g (doList E g) n (opts\<lparr>loContinue := c1\<rparr>) rv1 (objects @ page)
        (h @ [AList g opts (Inr l)]) = (Some (Inr (objs, rv)), h')" by simp
    from Suc.IH [OF this, of c1] Suc.prems(2) rv1 obtain ps where
      "h' = h @ AList g opts (Inr l) # map (\<lambda>(o', l). AList g o' (Inr l)) ps" "paged K recoveryListLimit rv c1 ps"
      "objs = objects @ page @ concat (map (pageItems K \<circ> snd) ps)" "rv \<noteq> []" "rv = rv1" by (auto simp: comp_def)
    with False acc ex items Suc.prems(2) rv1(2) show ?thesis
      by (intro exI [where x = "(opts, l) # ps"]) (auto simp: comp_def)
  qed
qed simp

lemma listRecoveryObjects_spec:
  assumes "listRecoveryObjects K n (newWatchSpec E g) h = (Some (Inr (objs, rv)), h')"
  shows "\<exists>ps. h' = h @ map (\<lambda>(o', l). AList g o' (Inr l)) ps \<and> paged K recoveryListLimit rv [] ps \<and>
    objs = concat (map (pageItems K \<circ> snd) ps) \<and> rv \<noteq> []"
  using recoveryPages_spec [of K g E n _ "[]" "[]" h objs rv h' "[]"] assms
  by (auto simp: listRecoveryObjects_def newWatchSpec_def emptyOptions_def)

lemma recoveryPages_hist:
  "recoveryPages K g (doList E g) n opts rv objects h = (res, h') \<Longrightarrow>
     \<exists>seg. h' = h @ seg \<and> quiet seg"
proof (induction n arbitrary: opts rv objects h)
  case (Suc n)
  obtain r h1 where call: "doList E g opts h = (r, h1)" by force
  then have h1: "h1 = h @ [AList g opts r]" by (auto simp: doList_def Let_def)
  have "h' = h1 \<or> (\<exists>o' rv' objs'. recoveryPages K g (doList E g) n o' rv' objs' h1 = (res, h'))"
    using Suc.prems call
    by (auto simp: Let_def split: sum.splits prod.splits if_splits)
  then show ?case
  proof
    assume "h' = h1"
    with h1 show ?thesis by (intro exI [where x = "[AList g opts r]"]) simp
  next
    assume "\<exists>o' rv' objs'. recoveryPages K g (doList E g) n o' rv' objs' h1 = (res, h')"
    then obtain seg where "h' = h1 @ seg" "quiet seg" using Suc.IH by blast
    with h1 show ?thesis by (intro exI [where x = "AList g opts r # seg"]) simp
  qed
qed (auto intro: exI [where x = "[]"])

text \<open>A server that hands out at most \<open>N\<close> continue tokens is listed to the end.\<close>

definition listsOf :: "hist \<Rightarrow> nat" where
  "listsOf h = length (filter (\<lambda>a. case a of AList _ _ _ \<Rightarrow> True | _ \<Rightarrow> False) h)"

lemma recoveryPages_ends:
  assumes ends: "\<And>h opts l rv c. N \<le> listsOf h \<Longrightarrow> envList E h g opts = Inr l \<Longrightarrow>
    listAccessor K l = Inr (rv, c) \<Longrightarrow> c = []"
  shows "0 < n \<Longrightarrow> N < listsOf h + n \<Longrightarrow>
    fst (recoveryPages K g (doList E g) n opts rv objects h) \<noteq> None"
proof (induction n arbitrary: opts rv objects h)
  case (Suc n)
  have more: "fst (recoveryPages K g (doList E g) n o' rv' objs' (h @ [AList g opts r])) \<noteq> None"
    if "listsOf h < N" for o' rv' objs' r
    using Suc.prems(2) that by (intro Suc.IH) (auto simp: listsOf_def)
  have call: "doList E g opts h = (envList E h g opts, h @ [AList g opts (envList E h g opts)])"
    by (simp add: doList_def Let_def)
  show ?case
  proof (cases "listsOf h < N")
    case True
    with more show ?thesis by (simp add: call Let_def split: sum.splits prod.splits)
  next
    case False
    with ends [of h opts] show ?thesis by (auto simp: call Let_def split: sum.splits prod.splits)
  qed
qed simp

text \<open>After \<open>N\<close> lists the server hands out no continue token for the resource any more.\<close>

definition listsEnd :: "k8s \<Rightarrow> env \<Rightarrow> gvr \<Rightarrow> nat \<Rightarrow> bool" where
  "listsEnd K E g N \<longleftrightarrow>
     (\<forall>h opts l rv c. N \<le> listsOf h \<longrightarrow> envList E h g opts = Inr l \<longrightarrow> listAccessor K l = Inr (rv, c) \<longrightarrow> c = [])"

lemma listRecoveryObjects_ends:
  assumes "listsEnd K E g N" and "N < n"
  shows "fst (listRecoveryObjects K n (newWatchSpec E g) h) \<noteq> None"
  using recoveryPages_ends [of N E g K n h "emptyOptions\<lparr>loLimit := recoveryListLimit\<rparr>" "[]" "[]"] assms
  by (simp add: listRecoveryObjects_def newWatchSpec_def listsEnd_def)

section \<open>Recovery watches\<close>

text \<open>The watch number \<open>n\<close> was opened at version \<open>rv\<close>, asking for the initial events or not.\<close>

definition openedAt :: "gvr \<Rightarrow> nat \<Rightarrow> string \<Rightarrow> bool \<Rightarrow> hist \<Rightarrow> bool" where
  "openedAt g n rv ini h \<longleftrightarrow>
     (\<exists>opts. AWatch g opts (Inr n) \<in> set h \<and> loResourceVersion opts = rv \<and>
        (loSendInitialEvents opts = Some True \<longleftrightarrow> ini))"

lemma openedAt_mono: "openedAt g n rv ini h \<Longrightarrow> openedAt g n rv ini (h0 @ h @ h1)"
  by (auto simp: openedAt_def)

lemma known_rv: "knownOptions b opts \<Longrightarrow> loResourceVersion opts = []"
  by (auto simp: knownOptions_def soInit_def fallBack_def spawnerInit_def emptyOptions_def Let_def)

lemma known_ini: "knownOptions b opts \<Longrightarrow> loSendInitialEvents opts \<noteq> None \<Longrightarrow> loSendInitialEvents opts = Some True"
  by (auto simp: knownOptions_def soInit_def fallBack_def spawnerInit_def emptyOptions_def Let_def split: if_splits)

lemma spawn_opens:
  assumes "wsSpawn (newWatchSpec E g) opts h = (Inr w, h')"
  shows "h' = h @ [AWatch g opts (Inr (wId w))] \<and> w = \<lparr>wId = wId w, wMode = None\<rparr>"
  using assms by (auto simp: newWatchSpec_def doWatch_def Let_def split: sum.splits)

lemma resumed_opens:
  assumes "withResourceVersion (wsSpawn (newWatchSpec E g)) rv opts h = (Inr w, h')"
    and "rv \<noteq> []"
  shows "\<exists>o'. h' = h @ [AWatch g o' (Inr (wId w))] \<and> loResourceVersion o' = rv \<and>
    loSendInitialEvents o' \<noteq> Some True \<and> w = \<lparr>wId = wId w, wMode = None\<rparr>"
  using assms spawn_opens [of E g _ h w h']
  by (cases "loSendInitialEvents opts") (force simp: withResourceVersion_def Let_def)+

lemma getInitialEventsWatcher_spec:
  assumes "getInitialEventsWatcher K E b (newWatchSpec E g) s = (Inr w, s')" and "spawnerOK b (spw s)"
  shows "w = newInitialEventsWatcher \<lparr>wId = wId w, wMode = None\<rparr> \<and>
    (\<exists>seg. sHist s' = sHist s @ seg \<and> openedAt g (wId w) [] True seg)"
proof -
  have good: "goodReq (initialEventsRequest (newWatchSpec E g))"
    by (intro goodReq_initialEvents goodReq_spawn)
  from getWatcher_watcher [OF good assms(1) [unfolded getInitialEventsWatcher_def] assms(2)]
  obtain opts h0 h1 seg seg0 where req: "initialEventsRequest (newWatchSpec E g) opts h0 = (Inr w, h1)"
    and h: "h0 = sHist s @ seg0" "sHist s' = h1 @ seg" and known: "knownOptions b opts" by blast
  from req obtain w0 where w0: "wsSpawn (newWatchSpec E g) opts h0 = (Inr w0, h1)"
    and w: "w = newInitialEventsWatcher w0" and ini: "loSendInitialEvents opts \<noteq> None"
    by (auto simp: initialEventsRequest_def split: if_splits sum.splits prod.splits)
  from spawn_opens [OF w0] have o': "h1 = h0 @ [AWatch g opts (Inr (wId w0))]"
    "w0 = \<lparr>wId = wId w0, wMode = None\<rparr>" by auto
  have "wId w = wId w0" using w by (simp add: newInitialEventsWatcher_def)
  with o' h known_rv [OF known] known_ini [OF known ini] w show ?thesis
    by (intro conjI exI [where x = "seg0 @ [AWatch g opts (Inr (wId w0))] @ seg"])
      (auto simp: openedAt_def newInitialEventsWatcher_def)
qed

lemma getListRecoveryWatcher_spec:
  assumes "getListRecoveryWatcher K E b n (newWatchSpec E g) s = (Some (Inr w), s')" and "spawnerOK b (spw s)"
  shows "\<exists>ps rv seg. rv \<noteq> [] \<and> paged K recoveryListLimit rv [] ps \<and>
    w = newListRecoveryWatcher \<lparr>wId = wId w, wMode = None\<rparr> (concat (map (pageItems K \<circ> snd) ps)) rv \<and>
    sHist s' = sHist s @ map (\<lambda>(o', l). AList g o' (Inr l)) ps @ seg \<and> openedAt g (wId w) rv False seg"
proof -
  obtain objs rv h1 where list: "listRecoveryObjects K n (newWatchSpec E g) (sHist s) = (Some (Inr (objs, rv)), h1)"
    and get: "\<exists>w0. getWatcher K E b (withResourceVersion (wsSpawn (newWatchSpec E g)) rv) (s\<lparr>sHist := h1\<rparr>) = (Inr w0, s')
      \<and> w = newListRecoveryWatcher w0 objs rv"
    using assms(1) by (auto simp: getListRecoveryWatcher_def split: prod.splits option.splits sum.splits)
  from listRecoveryObjects_spec [OF list] obtain ps where ps: "h1 = sHist s @ map (\<lambda>(o', l). AList g o' (Inr l)) ps"
    "paged K recoveryListLimit rv [] ps" "objs = concat (map (pageItems K \<circ> snd) ps)" "rv \<noteq> []" by blast
  from get obtain w0 where w0: "getWatcher K E b (withResourceVersion (wsSpawn (newWatchSpec E g)) rv) (s\<lparr>sHist := h1\<rparr>) = (Inr w0, s')"
    and w: "w = newListRecoveryWatcher w0 objs rv" by blast
  have good: "goodReq (withResourceVersion (wsSpawn (newWatchSpec E g)) rv)"
    by (intro goodReq_withResourceVersion goodReq_spawn)
  from getWatcher_watcher [OF good w0] assms(2) obtain opts h2 h3 seg0 seg where
    req: "withResourceVersion (wsSpawn (newWatchSpec E g)) rv opts h2 = (Inr w0, h3)"
    and h: "h2 = h1 @ seg0" "sHist s' = h3 @ seg" by auto
  from resumed_opens [OF req ps(4)] obtain o' where o': "h3 = h2 @ [AWatch g o' (Inr (wId w0))]"
    "loResourceVersion o' = rv" "loSendInitialEvents o' \<noteq> Some True" "w0 = \<lparr>wId = wId w0, wMode = None\<rparr>" by blast
  have id: "wId w = wId w0" using w by (simp add: newListRecoveryWatcher_def)
  show ?thesis
  proof (intro exI conjI)
    show "w = newListRecoveryWatcher \<lparr>wId = wId w, wMode = None\<rparr> (concat (map (pageItems K \<circ> snd) ps)) rv"
      using w o'(4) id ps(3) by simp
    show "sHist s' = sHist s @ map (\<lambda>(o', l). AList g o' (Inr l)) ps @
        (seg0 @ [AWatch g o' (Inr (wId w0))] @ seg)"
      using h o'(1) ps(1) by simp
    show "openedAt g (wId w) rv False (seg0 @ [AWatch g o' (Inr (wId w0))] @ seg)"
      using o' id by (auto simp: openedAt_def)
  qed (use ps in auto)
qed

text \<open>A recovery leaves no gap: its watch asks for the initial events, or it starts at exactly the
  version of the complete list whose objects it carries.\<close>

definition recoversAll :: "k8s \<Rightarrow> gvr \<Rightarrow> watcher \<Rightarrow> hist \<Rightarrow> bool" where
  "recoversAll K g w seg \<longleftrightarrow>
     (w = newInitialEventsWatcher \<lparr>wId = wId w, wMode = None\<rparr> \<and> openedAt g (wId w) [] True seg) \<or>
     (\<exists>ps rv seg0 seg1. rv \<noteq> [] \<and> paged K recoveryListLimit rv [] ps \<and>
        w = newListRecoveryWatcher \<lparr>wId = wId w, wMode = None\<rparr> (concat (map (pageItems K \<circ> snd) ps)) rv \<and>
        seg = seg0 @ map (\<lambda>(o', l). AList g o' (Inr l)) ps @ seg1 \<and> openedAt g (wId w) rv False seg1)"

lemma getRecoveryWatcher_spec:
  assumes "getRecoveryWatcher K E b n (newWatchSpec E g) s = (Some (Inr w), s')" and ok: "spawnerOK b (spw s)"
  shows "\<exists>seg. sHist s' = sHist s @ seg \<and> recoversAll K g w seg"
proof -
  obtain r s1 where ini: "getInitialEventsWatcher K E b (newWatchSpec E g) s = (r, s1)" by force
  show ?thesis
  proof (cases r)
    case (Inr w1)
    with assms(1) ini have "w1 = w" "s1 = s'" by (auto simp: getRecoveryWatcher_def)
    with ini Inr have "getInitialEventsWatcher K E b (newWatchSpec E g) s = (Inr w, s')" by simp
    from getInitialEventsWatcher_spec [OF this ok] show ?thesis unfolding recoversAll_def by blast
  next
    case (Inl err)
    have good: "goodReq (initialEventsRequest (newWatchSpec E g))"
      by (intro goodReq_initialEvents goodReq_spawn)
    obtain seg0 where seg0: "sHist s1 = sHist s @ seg0"
      using getWatcher_hist [OF good ini [unfolded getInitialEventsWatcher_def]] by blast
    have ok1: "spawnerOK b (spw s1)"
      using getWatcher_OK [OF good ini [unfolded getInitialEventsWatcher_def] ok] .
    have "getListRecoveryWatcher K E b n (newWatchSpec E g) s1 = (Some (Inr w), s')"
      using assms(1) ini Inl by (auto simp: getRecoveryWatcher_def split: if_splits)
    from getListRecoveryWatcher_spec [OF this ok1] obtain ps rv seg where
      L: "rv \<noteq> []" "paged K recoveryListLimit rv [] ps"
        "w = newListRecoveryWatcher \<lparr>wId = wId w, wMode = None\<rparr> (concat (map (pageItems K \<circ> snd) ps)) rv"
        "sHist s' = sHist s1 @ map (\<lambda>(o', l). AList g o' (Inr l)) ps @ seg" "openedAt g (wId w) rv False seg"
      by blast
    have "recoversAll K g w (seg0 @ map (\<lambda>(o', l). AList g o' (Inr l)) ps @ seg)"
      unfolding recoversAll_def using L(1-3,5) by blast
    moreover have "sHist s' = sHist s @ (seg0 @ map (\<lambda>(o', l). AList g o' (Inr l)) ps @ seg)"
      using L(4) seg0 by simp
    ultimately show ?thesis by blast
  qed
qed

section \<open>The bookmark check\<close>

lemma bookmarkAhead_spec:
  assumes "retry_contract retry" and "bookmarkAhead K retry (doList E g) bookmark h = (Inr ahead, h')"
  shows "\<exists>h0 l current c. h' = h0 @ [AList g (emptyOptions\<lparr>loLimit := 1\<rparr>) (Inr l)] \<and>
    listAccessor K l = Inr (current, c) \<and> (ahead \<longleftrightarrow> decVal current < decVal bookmark)"
proof -
  obtain have_rv want current where p: "parseUint64 bookmark = Some have_rv"
    "retry (Some bookmarkCheckAttempts) (currentAttempt K (doList E g)) ([], h) = (None, (current, h'))"
    "parseUint64 current = Some want" "ahead = (want < have_rv)"
    using assms(2) by (auto simp: bookmarkAhead_def split: option.splits prod.splits)
  from retry_success [OF assms(1) p(2), of "\<lambda>_. True"] obtain s0 where
    "currentAttempt K (doList E g) s0 = (None, (current, h'))" by auto
  then obtain h0 l c where "h' = h0 @ [AList g (emptyOptions\<lparr>loLimit := 1\<rparr>) (Inr l)]"
    "listAccessor K l = Inr (current, c)"
    by (auto simp: currentAttempt_def doList_def Let_def split: prod.splits sum.splits)
  moreover have "want < have_rv \<longleftrightarrow> decVal current < decVal bookmark"
    using parseUint64_Some [OF p(1)] parseUint64_Some [OF p(3)] by (simp add: word_less_nat_alt)
  ultimately show ?thesis using p(4) by blast
qed

end
