(* ===== verification/Handle.thy ===== *)
theory Handle
  imports Spawner
begin

text \<open>
  The life of one watcher (\<^verbatim>\<open>handleWatcher\<close> of \<^verbatim>\<open>watchlist.go\<close>): read the watch to its end, then open
  the next one, at the last safe version or, while a gap is open, as a recovery. A turn of the loop
  is one function; the loop runs until the context is done, so it has fuel, one unit for each turn.
  The main fact describes a whole run as a chain of turns without a gap between them.
\<close>

section \<open>The handler\<close>

record handler =
  hResource :: string             \<comment> \<open>\<^verbatim>\<open>resourceVersion\<close>\<close>
  hGap :: bool
  hWatch :: "watcher option"      \<comment> \<open>\<^verbatim>\<open>w\<close>, \<open>None\<close> for nil\<close>
  hState :: sstate
  hStuck :: bool                  \<comment> \<open>a list ran out of fuel\<close>

definition clearRejectedBookmark :: "env \<Rightarrow> bool \<Rightarrow> gvr \<Rightarrow> string \<Rightarrow> hist \<Rightarrow> hist" where
  "clearRejectedBookmark E st key rv h =
     snd (clearBookmark (if st then Some (bmDelete E) else None) h key rv)"

text \<open>The operation \<^verbatim>\<open>handleWatcher\<close> retries: one attempt to open the next watch.\<close>

definition rewatch :: "k8s \<Rightarrow> env \<Rightarrow> bool \<Rightarrow> bool \<Rightarrow> nat \<Rightarrow> gvr \<Rightarrow> watchSpec \<Rightarrow> handler op" where
  "rewatch K E bookmarking st fuel key sp s =
     (let attemptedResourceVersion = (hResource s \<noteq> []);
          (r, ss) =
            (if hGap s then getRecoveryWatcher K E bookmarking fuel sp (hState s)
             else if bookmarking then
               (let (r, ss) = getWatcher K E bookmarking (withResourceVersion (wsSpawn sp) (hResource s)) (hState s)
                in (Some r, ss))
             else
               (let (r, ss) = getWatcher K E bookmarking (wsSpawn sp) (hState s) in (Some r, ss)));
          s = s\<lparr>hState := ss\<rparr>
      in
      case r of
        None \<Rightarrow> (Some (Sent ErrPermanent), s\<lparr>hStuck := True\<rparr>)
      | Some (Inr w) \<Rightarrow> (None, s\<lparr>hWatch := Some w\<rparr>)
      | Some (Inl err) \<Rightarrow>
          (let s = s\<lparr>hWatch := None\<rparr> in
           if isForbidden K err \<or> isUnauthorized K err then (Some (Wrap [] [err, Sent ErrPermanent]), s)
           else if attemptedResourceVersion \<and> rejectedResourceVersion K (Some err) then
             (let h = clearRejectedBookmark E st key (hResource s) (sHist (hState s)) in
              (Some err, s\<lparr>hResource := [], hGap := True, hState := (hState s)\<lparr>sHist := h\<rparr>\<rparr>))
           else if \<not> attemptedResourceVersion \<and> invalidWatchRequest K (Some err) then
             (Some (Wrap [] [err, Sent ErrPermanent]), s)
           else (Some err, s)))"

text \<open>The first half of a turn: read the watch, if there is one.\<close>

definition setHist :: "hist \<Rightarrow> handler \<Rightarrow> handler" where
  "setHist h s = s\<lparr>hState := (hState s)\<lparr>sHist := h\<rparr>\<rparr>"

definition afterWatch :: "k8s \<Rightarrow> env \<Rightarrow> bool \<Rightarrow> gvr \<Rightarrow> string \<Rightarrow> gerr option \<Rightarrow> handler \<Rightarrow> handler" where
  "afterWatch K E st key rv err s =
     (let s = (if rv \<noteq> [] then s\<lparr>hResource := rv, hGap := False\<rparr> else s) in
      if staleResourceVersion K err then
        (setHist (clearRejectedBookmark E st key (hResource s) (sHist (hState s))) s)
          \<lparr>hResource := [], hGap := True\<rparr>
      else s)"

datatype turn = Again handler | Returned "gerr option" handler | Panicked string handler | Unfinished handler

text \<open>The second half: unless the context is done, open the next watch.\<close>

definition reopen :: "k8s \<Rightarrow> env \<Rightarrow> handler retry \<Rightarrow> bool \<Rightarrow> bool \<Rightarrow> nat \<Rightarrow> gvr \<Rightarrow> watchSpec \<Rightarrow> handler \<Rightarrow> turn" where
  "reopen K E retry bookmarking st fuel key sp s =
     (case ctxDone E (sHist (hState s)) of
        (True, h) \<Rightarrow> Returned None (setHist h s)
      | (False, h) \<Rightarrow>
          (case retry None (rewatch K E bookmarking st fuel key sp) (setHist h s) of
             (None, s) \<Rightarrow> Again s
           | (Some err, s) \<Rightarrow>
               if hStuck s then Unfinished s
               else
                 (case ctxDone E (sHist (hState s)) of
                    (True, h) \<Rightarrow> Returned None (setHist h s)
                  | (False, h) \<Rightarrow>
                      Returned (Some (Wrap ''error re-creating watcher'' [err])) (setHist h s))))"

definition handleTurn :: "k8s \<Rightarrow> env \<Rightarrow> handler retry \<Rightarrow> bool \<Rightarrow> bool \<Rightarrow> nat \<Rightarrow> gvr \<Rightarrow> watchSpec \<Rightarrow> handler \<Rightarrow> turn" where
  "handleTurn K E retry bookmarking st fuel key sp s =
     (case hWatch s of
        None \<Rightarrow> reopen K E retry bookmarking st fuel key sp s
      | Some w \<Rightarrow>
          (case watchEvents K E st key fuel w (sHist (hState s)) of
             (None, h) \<Rightarrow> Unfinished (setHist h s)
           | (Some (Panic m), h) \<Rightarrow> Panicked m (setHist h s)
           | (Some (Ret (rv, err)), h) \<Rightarrow>
               reopen K E retry bookmarking st fuel key sp (afterWatch K E st key rv err (setHist h s))))"

fun handleLoop :: "k8s \<Rightarrow> env \<Rightarrow> handler retry \<Rightarrow> bool \<Rightarrow> bool \<Rightarrow> nat \<Rightarrow> gvr \<Rightarrow> watchSpec \<Rightarrow> nat \<Rightarrow> handler \<Rightarrow> turn" where
  "handleLoop K E retry bookmarking st fuel key sp 0 s = Again s"
| "handleLoop K E retry bookmarking st fuel key sp (Suc n) s =
     (case handleTurn K E retry bookmarking st fuel key sp s of
        Again s \<Rightarrow> handleLoop K E retry bookmarking st fuel key sp n s
      | t \<Rightarrow> t)"

definition handlerInit :: "string \<Rightarrow> watcher option \<Rightarrow> sstate \<Rightarrow> handler" where
  "handlerInit rv w ss =
     \<lparr>hResource = rv,
      hGap = (case w of None \<Rightarrow> True | Some w \<Rightarrow> wMode w \<noteq> None),
      hWatch = w, hState = ss, hStuck = False\<rparr>"

definition handleWatcher :: "k8s \<Rightarrow> env \<Rightarrow> handler retry \<Rightarrow> bool \<Rightarrow> bool \<Rightarrow> nat \<Rightarrow> nat \<Rightarrow> gvr \<Rightarrow> string \<Rightarrow>
    watcher option \<Rightarrow> watchSpec \<Rightarrow> sstate \<Rightarrow> turn" where
  "handleWatcher K E retry bookmarking st fuel n key rv w sp ss =
     handleLoop K E retry bookmarking st fuel key sp n (handlerInit rv w ss)"

section \<open>One attempt\<close>

lemma clearRejectedBookmark_hist: "\<exists>seg. clearRejectedBookmark E st key rv h = h @ seg \<and> quiet seg"
  by (cases "envDelete E h key rv")
    (auto simp: clearRejectedBookmark_def clearBookmark_def bmDelete_def Let_def)

lemma setHist_simps [simp]:
  "hResource (setHist h s) = hResource s" "hGap (setHist h s) = hGap s" "hWatch (setHist h s) = hWatch s"
  "sHist (hState (setHist h s)) = h" "spw (hState (setHist h s)) = spw (hState s)" "hStuck (setHist h s) = hStuck s"
  by (simp_all add: setHist_def)

lemma recoversAll_extend:
  assumes "recoversAll K g w seg"
  shows "recoversAll K g w (a @ seg @ b)"
proof -
  from assms consider
    (ini) "w = newInitialEventsWatcher \<lparr>wId = wId w, wMode = None\<rparr>" "openedAt g (wId w) [] True seg"
  | (list) ps rv seg0 seg1 where "rv \<noteq> []" "paged K recoveryListLimit rv [] ps"
      "w = newListRecoveryWatcher \<lparr>wId = wId w, wMode = None\<rparr> (concat (map (pageItems K \<circ> snd) ps)) rv"
      "seg = seg0 @ map (\<lambda>(o', l). AList g o' (Inr l)) ps @ seg1" "openedAt g (wId w) rv False seg1"
    unfolding recoversAll_def by blast
  then show ?thesis
  proof cases
    case ini
    then show ?thesis unfolding recoversAll_def using openedAt_mono by blast
  next
    case list
    have "a @ seg @ b = (a @ seg0) @ map (\<lambda>(o', l). AList g o' (Inr l)) ps @ (seg1 @ b)"
      using list(4) by simp
    moreover have "openedAt g (wId w) rv False (seg1 @ b)"
      using openedAt_mono [OF list(5), of "[]" b] by simp
    ultimately show ?thesis unfolding recoversAll_def using list(1-3) by blast
  qed
qed

text \<open>The watch an attempt opens: a recovery while there is a gap, and otherwise a plain watch, at the
  version the handler holds if the server can resume.\<close>

definition opensNext :: "k8s \<Rightarrow> gvr \<Rightarrow> bool \<Rightarrow> string \<Rightarrow> bool \<Rightarrow> watcher \<Rightarrow> hist \<Rightarrow> bool" where
  "opensNext K g b rv gap w seg \<longleftrightarrow>
     (if gap then recoversAll K g w seg
      else wMode w = None \<and>
        (\<exists>ini. openedAt g (wId w) (if b then rv else []) ini seg \<and> (b \<and> rv \<noteq> [] \<longrightarrow> \<not> ini)))"

lemma opensNext_extend:
  assumes "opensNext K g b rv gap w seg"
  shows "opensNext K g b rv gap w (a @ seg @ b')"
proof (cases gap)
  case True
  with assms recoversAll_extend show ?thesis by (simp add: opensNext_def)
next
  case False
  with assms obtain ini where "wMode w = None" "openedAt g (wId w) (if b then rv else []) ini seg"
    "b \<and> rv \<noteq> [] \<longrightarrow> \<not> ini"
    by (auto simp: opensNext_def)
  with False openedAt_mono show ?thesis unfolding opensNext_def by metis
qed

lemma getWatcher_plain:
  assumes "getWatcher K E b (withResourceVersion (wsSpawn (newWatchSpec E g)) rv) s = (Inr w, s')"
    and ok: "spawnerOK b (spw s)"
  shows "\<exists>seg ini. sHist s' = sHist s @ seg \<and> wMode w = None \<and> openedAt g (wId w) rv ini seg \<and>
    (rv \<noteq> [] \<longrightarrow> \<not> ini)"
proof -
  have good: "goodReq (withResourceVersion (wsSpawn (newWatchSpec E g)) rv)"
    by (intro goodReq_withResourceVersion goodReq_spawn)
  from getWatcher_watcher [OF good assms] obtain opts h0 h1 seg seg0 where
    req: "withResourceVersion (wsSpawn (newWatchSpec E g)) rv opts h0 = (Inr w, h1)"
    and h: "h0 = sHist s @ seg0" "sHist s' = h1 @ seg" and known: "knownOptions b opts" by blast
  have "\<exists>o'. h1 = h0 @ [AWatch g o' (Inr (wId w))] \<and> loResourceVersion o' = rv \<and>
      (rv \<noteq> [] \<longrightarrow> loSendInitialEvents o' \<noteq> Some True) \<and> wMode w = None"
  proof (cases "rv = []")
    case True
    with req have "wsSpawn (newWatchSpec E g) opts h0 = (Inr w, h1)" by (simp add: withResourceVersion_def)
    from spawn_opens [OF this] have "h1 = h0 @ [AWatch g opts (Inr (wId w))]" "wMode w = None"
      by (auto dest: arg_cong [of _ _ wMode])
    with True known_rv [OF known] show ?thesis by blast
  next
    case False
    from resumed_opens [OF req False] show ?thesis by (metis watcher.select_convs(2))
  qed
  then obtain o' where "h1 = h0 @ [AWatch g o' (Inr (wId w))]" "loResourceVersion o' = rv"
    "rv \<noteq> [] \<longrightarrow> loSendInitialEvents o' \<noteq> Some True" "wMode w = None" by blast
  with h show ?thesis
    by (intro exI [where x = "seg0 @ [AWatch g o' (Inr (wId w))] @ seg"]
        exI [where x = "loSendInitialEvents o' = Some True"])
      (auto simp: openedAt_def)
qed


text \<open>What holds between the attempts that begin at \<open>s0\<close>.\<close>

definition between :: "bool \<Rightarrow> handler \<Rightarrow> handler \<Rightarrow> bool" where
  "between b s0 s \<longleftrightarrow>
     (\<exists>seg. sHist (hState s) = sHist (hState s0) @ seg \<and> quiet seg) \<and> spawnerOK b (spw (hState s)) \<and>
     (hGap s0 \<longrightarrow> hGap s) \<and>
     (hResource s = hResource s0 \<and> hGap s = hGap s0 \<or> hResource s = [] \<and> hGap s)"

lemma listRecoveryObjects_hist:
  "listRecoveryObjects K n (newWatchSpec E g) h = (res, h') \<Longrightarrow> \<exists>seg. h' = h @ seg \<and> quiet seg"
  using recoveryPages_hist [of K g E n _ "[]" "[]" h res h']
  by (auto simp: listRecoveryObjects_def newWatchSpec_def)

text \<open>The three ways to ask for a watch only extend the history, quietly.\<close>

definition steps :: "bool \<Rightarrow> sstate \<Rightarrow> sstate \<Rightarrow> bool" where
  "steps b s s' \<longleftrightarrow> (\<exists>seg. sHist s' = sHist s @ seg \<and> quiet seg) \<and> (spawnerOK b (spw s) \<longrightarrow> spawnerOK b (spw s'))"

lemma steps_trans: "steps b s s' \<Longrightarrow> steps b s' s'' \<Longrightarrow> steps b s s''"
  unfolding steps_def by (metis append_assoc quiet_simps(2))

lemma getWatcher_steps: "goodReq req \<Longrightarrow> getWatcher K E b req s = (r, s') \<Longrightarrow> steps b s s'"
  using getWatcher_hist [of req K E b s r s'] getWatcher_OK [of req K E b s r s'] by (auto simp: steps_def)

lemma getListRecoveryWatcher_steps:
  assumes "getListRecoveryWatcher K E b n (newWatchSpec E g) s = (r, s')"
  shows "steps b s s'"
proof -
  obtain lr h where l: "listRecoveryObjects K n (newWatchSpec E g) (sHist s) = (lr, h)" by force
  have one: "steps b s (s\<lparr>sHist := h\<rparr>)" using listRecoveryObjects_hist [OF l] by (simp add: steps_def)
  consider (stop) "s' = s\<lparr>sHist := h\<rparr>"
    | (go) rv q where "getWatcher K E b (withResourceVersion (wsSpawn (newWatchSpec E g)) rv) (s\<lparr>sHist := h\<rparr>) = (q, s')"
    using assms l by (auto simp: getListRecoveryWatcher_def split: option.splits sum.splits prod.splits)
  then show ?thesis
  proof cases
    case stop
    with one show ?thesis by simp
  next
    case go
    from getWatcher_steps [OF _ go] show ?thesis
      using one steps_trans goodReq_withResourceVersion goodReq_spawn by blast
  qed
qed

lemma getRecoveryWatcher_steps:
  assumes "getRecoveryWatcher K E b n (newWatchSpec E g) s = (r, s')"
  shows "steps b s s'"
proof -
  obtain q s1 where ini: "getInitialEventsWatcher K E b (newWatchSpec E g) s = (q, s1)" by force
  have one: "steps b s s1"
    using getWatcher_steps [OF _ ini [unfolded getInitialEventsWatcher_def]] goodReq_initialEvents goodReq_spawn
    by blast
  from assms ini have "s' = s1 \<or> getListRecoveryWatcher K E b n (newWatchSpec E g) s1 = (r, s')"
    by (auto simp: getRecoveryWatcher_def split: sum.splits if_splits)
  then show ?thesis using one getListRecoveryWatcher_steps steps_trans by blast
qed

text \<open>The request of an attempt, as one function.\<close>

definition nextWatch :: "k8s \<Rightarrow> env \<Rightarrow> bool \<Rightarrow> nat \<Rightarrow> watchSpec \<Rightarrow> handler \<Rightarrow> (gerr + watcher) option \<times> sstate" where
  "nextWatch K E b fuel sp s =
     (if hGap s then getRecoveryWatcher K E b fuel sp (hState s)
      else
        (let (r, ss) = getWatcher K E b (withResourceVersion (wsSpawn sp) (if b then hResource s else [])) (hState s)
         in (Some r, ss)))"

lemma nextWatch_cases:
  assumes "nextWatch K E b fuel sp s = (r, ss)"
  obtains "hGap s" "getRecoveryWatcher K E b fuel sp (hState s) = (r, ss)"
  | q where "\<not> hGap s" "r = Some q"
      "getWatcher K E b (withResourceVersion (wsSpawn sp) (if b then hResource s else [])) (hState s) = (q, ss)"
  using assms by (cases "hGap s") (auto simp: nextWatch_def Let_def split: prod.splits)

lemma withResourceVersion_Nil [simp]: "withResourceVersion sp [] = sp"
  by (simp add: withResourceVersion_def)

lemma rewatch_nextWatch:
  "nextWatch K E b fuel sp s = (r, ss) \<Longrightarrow> rewatch K E b st fuel key sp s =
     (let s' = s\<lparr>hState := ss\<rparr> in
      case r of
        None \<Rightarrow> (Some (Sent ErrPermanent), s'\<lparr>hStuck := True\<rparr>)
      | Some (Inr w) \<Rightarrow> (None, s'\<lparr>hWatch := Some w\<rparr>)
      | Some (Inl err) \<Rightarrow>
          (let s' = s'\<lparr>hWatch := None\<rparr> in
           if isForbidden K err \<or> isUnauthorized K err then (Some (Wrap [] [err, Sent ErrPermanent]), s')
           else if hResource s \<noteq> [] \<and> rejectedResourceVersion K (Some err) then
             (Some err, (setHist (clearRejectedBookmark E st key (hResource s) (sHist ss)) s')
                \<lparr>hResource := [], hGap := True\<rparr>)
           else if hResource s = [] \<and> invalidWatchRequest K (Some err) then
             (Some (Wrap [] [err, Sent ErrPermanent]), s')
           else (Some err, s')))"
proof -
  assume nw: "nextWatch K E b fuel sp s = (r, ss)"
  have call: "(if hGap s then getRecoveryWatcher K E b fuel sp (hState s)
      else if b then
        (let (r, ss) = getWatcher K E b (withResourceVersion (wsSpawn sp) (hResource s)) (hState s) in (Some r, ss))
      else (let (r, ss) = getWatcher K E b (wsSpawn sp) (hState s) in (Some r, ss))) = (r, ss)"
    using nw by (auto elim!: nextWatch_cases)
  show ?thesis
    unfolding rewatch_def call by (simp add: Let_def setHist_def split: option.split sum.split)
qed

lemma nextWatch_steps:
  assumes "nextWatch K E b n (newWatchSpec E g) s = (r, ss)"
  shows "steps b (hState s) ss"
  using assms
  by (cases rule: nextWatch_cases)
    (auto intro: getRecoveryWatcher_steps getWatcher_steps [OF goodReq_withResourceVersion [OF goodReq_spawn]])

lemma nextWatch_opens:
  assumes "nextWatch K E b n (newWatchSpec E g) s = (Some (Inr w), ss)" and ok: "spawnerOK b (spw (hState s))"
  shows "\<exists>seg. sHist ss = sHist (hState s) @ seg \<and> opensNext K g b (hResource s) (hGap s) w seg"
  using assms(1)
proof (cases rule: nextWatch_cases)
  case 1
  with getRecoveryWatcher_spec [OF _ ok] show ?thesis by (auto simp: opensNext_def)
next
  case (2 q)
  with getWatcher_plain [of K E b g "if b then hResource s else []" "hState s" w ss] ok show ?thesis
    by (auto simp: opensNext_def)
qed

lemma between_rewatch:
  assumes "between b s0 s"
  shows "between b s0 (snd (rewatch K E b st n key (newWatchSpec E g) s))"
proof -
  obtain r ss where nw: "nextWatch K E b n (newWatchSpec E g) s = (r, ss)" by force
  from nextWatch_steps [OF nw] assms obtain seg where ss: "sHist ss = sHist (hState s0) @ seg" "quiet seg"
    "spawnerOK b (spw ss)"
    by (auto simp: steps_def between_def)
  obtain seg' where cl: "clearRejectedBookmark E st key (hResource s) (sHist ss) = sHist ss @ seg'" "quiet seg'"
    using clearRejectedBookmark_hist by blast
  show ?thesis
    using assms ss cl
    by (auto simp: rewatch_nextWatch [OF nw] between_def Let_def split: option.split sum.split)
qed


section \<open>One turn\<close>

text \<open>A turn, as seen from outside: \<open>segW\<close> is what reading the watch added to the history, \<open>segR\<close> what
  opening the next one did. Versions are stored only while the watch is read, and only safe ones. The
  version the next turn holds is empty, the old one, or one that was safe; a gap is closed only by a
  version that was safe; the next watch continues from exactly there.\<close>

definition watchedOK :: "k8s \<Rightarrow> gvr \<Rightarrow> watcher option \<Rightarrow> hist \<Rightarrow> bool" where
  "watchedOK K key w segW \<longleftrightarrow>
     (case w of
        None \<Rightarrow> segW = []
      | Some w \<Rightarrow> storesOK (\<lambda>p g rv. g = key \<and> watchSafe K w p rv) segW)"

definition wasSafeIn :: "k8s \<Rightarrow> watcher option \<Rightarrow> hist \<Rightarrow> string \<Rightarrow> bool" where
  "wasSafeIn K w segW rv \<longleftrightarrow> (case w of None \<Rightarrow> False | Some w \<Rightarrow> rv \<noteq> [] \<and> watchWasSafe K w segW rv)"

definition turnOK :: "k8s \<Rightarrow> gvr \<Rightarrow> bool \<Rightarrow> handler \<Rightarrow> hist \<Rightarrow> hist \<Rightarrow> handler \<Rightarrow> bool" where
  "turnOK K g b s segW segR s' \<longleftrightarrow>
     sHist (hState s') = sHist (hState s) @ segW @ segR \<and>
     watchedOK K g (hWatch s) segW \<and>
     (case hWatch s of None \<Rightarrow> True | Some w \<Rightarrow> stopsOf segW = [wId w]) \<and> quiet segR \<and>
     (hResource s' = [] \<or> hResource s' = hResource s \<or> wasSafeIn K (hWatch s) segW (hResource s')) \<and>
     (hGap s \<and> \<not> hGap s' \<longrightarrow> wasSafeIn K (hWatch s) segW (hResource s')) \<and>
     (\<exists>w. hWatch s' = Some w \<and> opensNext K g b (hResource s') (hGap s') w segR)"

text \<open>The handler's invariant at the head of the loop: it has a recovery watch, or none yet, exactly
  while there is a gap.\<close>

definition handlerInv :: "bool \<Rightarrow> handler \<Rightarrow> bool" where
  "handlerInv b s \<longleftrightarrow>
     spawnerOK b (spw (hState s)) \<and>
     (case hWatch s of
        None \<Rightarrow> hGap s
      | Some w \<Rightarrow> (hGap s \<longleftrightarrow> wMode w \<noteq> None) \<and> (case wMode w of None \<Rightarrow> True | Some m \<Rightarrow> wf_mode m))"

lemma handlerInv_init:
  "spawnerOK b (spw ss) \<Longrightarrow>
   (\<And>v m. w = Some v \<Longrightarrow> wMode v = Some m \<Longrightarrow> wf_mode m) \<Longrightarrow> handlerInv b (handlerInit rv w ss)"
  by (auto simp: handlerInv_def handlerInit_def split: option.splits)

lemma opensNext_mode:
  "opensNext K g b rv gap w seg \<Longrightarrow>
     (gap \<longleftrightarrow> wMode w \<noteq> None) \<and> (case wMode w of None \<Rightarrow> True | Some m \<Rightarrow> wf_mode m)"
  by (cases w) (auto simp: opensNext_def recoversAll_def newInitialEventsWatcher_def newListRecoveryWatcher_def
      split: if_splits)

lemma reopen_spec:
  assumes "retry_contract retry" and "reopen K E retry b st n key (newWatchSpec E g) s = Again s'"
    and ok: "spawnerOK b (spw (hState s))"
  shows "\<exists>seg w. sHist (hState s') = sHist (hState s) @ seg \<and> quiet seg \<and> spawnerOK b (spw (hState s')) \<and>
    (hResource s' = hResource s \<and> hGap s' = hGap s \<or> hResource s' = [] \<and> hGap s') \<and>
    hWatch s' = Some w \<and> opensNext K g b (hResource s') (hGap s') w seg"
proof -
  let ?op = "rewatch K E b st n key (newWatchSpec E g)"
  let ?s = "setHist (sHist (hState s) @ [ACtx False]) s"
  have r: "retry None ?op ?s = (None, s')"
    using assms(2) by (auto simp: reopen_def ctxDone_def Let_def split: bool.splits prod.splits option.splits if_splits)
  have "between b ?s ?s" using ok by (auto simp: between_def)
  from retry_success [where I = "between b ?s", OF assms(1) r this between_rewatch] obtain s0 where
    b0: "between b ?s s0" and last: "?op s0 = (None, s')" by blast
  obtain q ss where nw: "nextWatch K E b n (newWatchSpec E g) s0 = (q, ss)" by force
  with last obtain w where q: "q = Some (Inr w)" and s': "s' = s0\<lparr>hState := ss, hWatch := Some w\<rparr>"
    by (auto simp: rewatch_nextWatch [OF nw] Let_def split: option.splits sum.splits if_splits)
  from b0 obtain seg0 where seg0: "sHist (hState s0) = sHist (hState s) @ ACtx False # seg0" "quiet seg0"
    and ok0: "spawnerOK b (spw (hState s0))"
    by (auto simp: between_def)
  from nextWatch_steps [OF nw] ok0 obtain seg1 where seg1: "sHist ss = sHist (hState s0) @ seg1" "quiet seg1"
    and ok1: "spawnerOK b (spw ss)"
    by (auto simp: steps_def)
  from nextWatch_opens [OF nw [unfolded q] ok0] seg1 have "opensNext K g b (hResource s0) (hGap s0) w seg1"
    by simp
  from opensNext_extend [OF this, of "ACtx False # seg0" "[]"] have
    "opensNext K g b (hResource s0) (hGap s0) w (ACtx False # seg0 @ seg1)" by simp
  with seg0 seg1 ok1 b0 s' show ?thesis
    by (intro exI [where x = "ACtx False # seg0 @ seg1"] exI [where x = w]) (auto simp: between_def)
qed


lemma afterWatch_spec:
  "hWatch (afterWatch K E st key rv err s) = hWatch s"
  "spw (hState (afterWatch K E st key rv err s)) = spw (hState s)"
  "\<exists>seg. sHist (hState (afterWatch K E st key rv err s)) = sHist (hState s) @ seg \<and> quiet seg"
  "hResource (afterWatch K E st key rv err s) =
     (if staleResourceVersion K err then [] else if rv \<noteq> [] then rv else hResource s)"
  "hGap (afterWatch K E st key rv err s) =
     (staleResourceVersion K err \<or> rv = [] \<and> hGap s)"
  by (auto simp: afterWatch_def Let_def intro: clearRejectedBookmark_hist exI [where x = "[]"])

lemma handleTurn_spec:
  assumes contract: "retry_contract retry" and inv: "handlerInv b s"
    and turn: "handleTurn K E retry b st n g (newWatchSpec E g) s = Again s'"
  shows "handlerInv b s' \<and> (\<exists>segW segR. turnOK K g b s segW segR s')"
proof -
  have ok: "spawnerOK b (spw (hState s))" using inv by (simp add: handlerInv_def)
  show ?thesis
  proof (cases "hWatch s")
    case None
    with turn have "reopen K E retry b st n g (newWatchSpec E g) s = Again s'" by (simp add: handleTurn_def)
    from reopen_spec [OF contract this ok] obtain seg w where R: "sHist (hState s') = sHist (hState s) @ seg"
      "quiet seg" "spawnerOK b (spw (hState s'))"
      "hResource s' = hResource s \<and> hGap s' = hGap s \<or> hResource s' = [] \<and> hGap s'"
      "hWatch s' = Some w" "opensNext K g b (hResource s') (hGap s') w seg" by blast
    then have "turnOK K g b s [] seg s'"
      using None by (auto simp: turnOK_def watchedOK_def)
    with R opensNext_mode [OF R(6)] show ?thesis by (auto simp: handlerInv_def)
  next
    case (Some w)
    obtain rv err h where we: "watchEvents K E st g n w (sHist (hState s)) = (Some (Ret (rv, err)), h)"
      and re: "reopen K E retry b st n g (newWatchSpec E g) (afterWatch K E st g rv err (setHist h s)) = Again s'"
      using turn Some by (auto simp: handleTurn_def split: option.splits prod.splits outcome.splits)
    have mode: "wMode w = None \<or> (\<exists>m. wMode w = Some m \<and> wf_mode m)"
      using inv Some by (auto simp: handlerInv_def split: option.splits)
    from watchEvents_spec [OF we mode] obtain segW where W: "h = sHist (hState s) @ segW"
      "storesOK (\<lambda>p g' rv. g' = g \<and> watchSafe K w p rv) segW" "watchWasSafe K w segW rv"
      "stopsOf segW = [wId w]" by blast
    let ?m = "afterWatch K E st g rv err (setHist h s)"
    obtain seg0 where seg0: "sHist (hState ?m) = h @ seg0" "quiet seg0"
      using afterWatch_spec(3) [of K E st g rv err "setHist h s"] by auto
    have "spawnerOK b (spw (hState ?m))" using ok by (simp add: afterWatch_spec)
    from reopen_spec [OF contract re this] obtain seg w' where
      R: "sHist (hState s') = sHist (hState ?m) @ seg" "quiet seg" "spawnerOK b (spw (hState s'))"
      "hResource s' = hResource ?m \<and> hGap s' = hGap ?m \<or> hResource s' = [] \<and> hGap s'"
      "hWatch s' = Some w'" "opensNext K g b (hResource s') (hGap s') w' seg" by blast
    have "turnOK K g b s segW (seg0 @ seg) s'"
      using R W seg0 Some opensNext_extend [OF R(6), of seg0 "[]"]
      by (auto simp: turnOK_def watchedOK_def wasSafeIn_def afterWatch_spec split: if_splits)
    with R opensNext_mode [OF R(6)] show ?thesis by (auto simp: handlerInv_def)
  qed
qed

section \<open>A whole run\<close>

text \<open>A chain of turns, each beginning where the one before ended.\<close>

inductive turns :: "k8s \<Rightarrow> gvr \<Rightarrow> bool \<Rightarrow> handler \<Rightarrow> handler \<Rightarrow> bool" for K g b s where
  turns_refl: "turns K g b s s"
| turns_step: "turns K g b s s' \<Longrightarrow> handlerInv b s' \<Longrightarrow> turnOK K g b s' segW segR s'' \<Longrightarrow> turns K g b s s''"

lemma turns_trans_step:
  assumes "turns K g b s1 s2" and "handlerInv b s0" and "turnOK K g b s0 segW segR s1"
  shows "turns K g b s0 s2"
  using assms(1)
proof (induction rule: turns.induct)
  case turns_refl
  from turns_step [OF turns.turns_refl assms(2,3)] show ?case .
next
  case (turns_step s' segW' segR' s'')
  then show ?case by (blast intro: turns.turns_step)
qed


text \<open>Every outcome of a turn, the last one included.\<close>

fun endState :: "turn \<Rightarrow> handler" where
  "endState (Again s) = s"
| "endState (Returned e s) = s"
| "endState (Panicked m s) = s"
| "endState (Unfinished s) = s"

lemma reopen_hist:
  assumes "retry_contract retry" and ok: "spawnerOK b (spw (hState s))"
  shows "\<exists>seg. sHist (hState (endState (reopen K E retry b st n key (newWatchSpec E g) s)))
    = sHist (hState s) @ seg \<and> quiet seg"
proof (cases "envCtxDone E (sHist (hState s))")
  case True
  then show ?thesis by (simp add: reopen_def ctxDone_def Let_def)
next
  case False
  let ?s = "setHist (sHist (hState s) @ [ACtx False]) s"
  obtain e s1 where r: "retry None (rewatch K E b st n key (newWatchSpec E g)) ?s = (e, s1)" by force
  have "between b ?s ?s" using ok by (auto simp: between_def)
  then have "between b ?s (snd (retry None (rewatch K E b st n key (newWatchSpec E g)) ?s))"
    by (intro retry_inv [where I = "between b ?s", OF assms(1)] between_rewatch)
  then have "between b ?s s1" unfolding r by simp
  then obtain seg where seg: "sHist (hState s1) = sHist (hState s) @ ACtx False # seg" "quiet seg"
    by (auto simp: between_def)
  have re: "reopen K E retry b st n key (newWatchSpec E g) s =
      (case (e, s1) of
         (None, s) \<Rightarrow> Again s
       | (Some err, s) \<Rightarrow>
           if hStuck s then Unfinished s
           else
             (case ctxDone E (sHist (hState s)) of
                (True, h) \<Rightarrow> Returned None (setHist h s)
              | (False, h) \<Rightarrow> Returned (Some (Wrap ''error re-creating watcher'' [err])) (setHist h s)))"
    using False r by (simp add: reopen_def ctxDone_def Let_def)
  have "sHist (hState (endState (reopen K E retry b st n key (newWatchSpec E g) s))) \<in>
      {sHist (hState s1), sHist (hState s1) @ [ACtx (envCtxDone E (sHist (hState s1)))]}"
    by (cases e; cases "hStuck s1"; cases "envCtxDone E (sHist (hState s1))")
      (simp_all add: re ctxDone_def Let_def)
  with seg show ?thesis by auto
qed

lemma handleTurn_stores:
  assumes contract: "retry_contract retry" and inv: "handlerInv b s"
  shows "\<exists>segW segR. sHist (hState (endState (handleTurn K E retry b st n g (newWatchSpec E g) s)))
      = sHist (hState s) @ segW @ segR \<and> watchedOK K g (hWatch s) segW \<and> quiet segR"
proof -
  have ok: "spawnerOK b (spw (hState s))" using inv by (simp add: handlerInv_def)
  show ?thesis
  proof (cases "hWatch s")
    case None
    obtain seg where "sHist (hState (endState (reopen K E retry b st n g (newWatchSpec E g) s)))
        = sHist (hState s) @ seg" "quiet seg"
      using reopen_hist [OF contract ok] by blast
    with None show ?thesis
      by (intro exI [where x = "[]"] exI [where x = seg]) (simp add: handleTurn_def watchedOK_def)
  next
    case (Some w)
    obtain res h where we: "watchEvents K E st g n w (sHist (hState s)) = (res, h)" by force
    have mode: "wMode w = None \<or> (\<exists>m. wMode w = Some m \<and> wf_mode m)"
      using inv Some by (auto simp: handlerInv_def split: option.splits)
    from watchEvents_spec [OF we mode] obtain segW where W: "h = sHist (hState s) @ segW"
      "storesOK (\<lambda>p g' rv. g' = g \<and> watchSafe K w p rv) segW" by blast
    show ?thesis
    proof (cases "\<exists>rv err. res = Some (Ret (rv, err))")
      case True
      then obtain rv err where res: "res = Some (Ret (rv, err))" by blast
      let ?m = "afterWatch K E st g rv err (setHist h s)"
      obtain seg0 where seg0: "sHist (hState ?m) = h @ seg0" "quiet seg0"
        using afterWatch_spec(3) [of K E st g rv err "setHist h s"] by auto
      have "spawnerOK b (spw (hState ?m))" using ok by (simp add: afterWatch_spec)
      from reopen_hist [OF contract this] obtain seg where
        "sHist (hState (endState (reopen K E retry b st n g (newWatchSpec E g) ?m))) = sHist (hState ?m) @ seg"
        "quiet seg" by blast
      with W seg0 Some we res show ?thesis
        by (intro exI [where x = segW] exI [where x = "seg0 @ seg"]) (simp add: handleTurn_def watchedOK_def)
    next
      case False
      with W Some we show ?thesis
        by (intro exI [where x = segW] exI [where x = "[]"])
          (auto simp: handleTurn_def watchedOK_def split: option.split outcome.split)
    qed
  qed
qed

lemma handleLoop_turns:
  assumes contract: "retry_contract retry" and "handlerInv b s"
    and "handleLoop K E retry b st fuel g (newWatchSpec E g) n s = t"
  shows "\<exists>s'. turns K g b s s' \<and> handlerInv b s' \<and>
    (t = Again s' \<or> (\<forall>s''. t \<noteq> Again s'') \<and> handleTurn K E retry b st fuel g (newWatchSpec E g) s' = t)"
  using assms(2,3)
proof (induction n arbitrary: s)
  case 0
  then show ?case by (auto intro: turns.intros)
next
  case (Suc n)
  obtain u where u: "handleTurn K E retry b st fuel g (newWatchSpec E g) s = u" by simp
  show ?case
  proof (cases "\<exists>s1. u = Again s1")
    case True
    then obtain s1 where s1: "u = Again s1" by blast
    from handleTurn_spec [OF contract Suc.prems(1) u [unfolded s1]] obtain segW segR where
      inv: "handlerInv b s1" and step: "turnOK K g b s segW segR s1" by blast
    from Suc.IH [OF inv] Suc.prems(2) u s1 turns_trans_step [OF _ Suc.prems(1) step]
    show ?thesis by auto
  next
    case False
    with u Suc.prems show ?thesis by (intro exI [where x = s]) (auto intro: turns.intros split: turn.splits)
  qed
qed

text \<open>Over the whole run, the only bookmark written is that of the handler's own resource.\<close>

lemma storesOK_append:
  "storesOK P (h @ h') \<longleftrightarrow> storesOK P h \<and> storesOK (\<lambda>p. P (h @ p)) h'"
proof (induction h' rule: rev_induct)
  case (snoc a h')
  then show ?case using storesOK_snoc [of P "h @ h'" a] storesOK_snoc [of "\<lambda>p. P (h @ p)" h' a]
    by auto
qed simp

lemma storesOK_mono: "storesOK P h \<Longrightarrow> (\<And>p g rv. P p g rv \<Longrightarrow> Q p g rv) \<Longrightarrow> storesOK Q h"
  unfolding storesOK_def by blast


lemma watchedOK_key: "watchedOK K g w segW \<Longrightarrow> storesOK (\<lambda>_ g' _. g' = g) segW"
  by (auto simp: watchedOK_def split: option.splits elim: storesOK_mono)

lemma turns_key:
  assumes "turns K g b s s'"
  shows "\<exists>seg. sHist (hState s') = sHist (hState s) @ seg \<and> storesOK (\<lambda>_ g' _. g' = g) seg"
  using assms
proof (induction rule: turns.induct)
  case turns_refl
  show ?case by (intro exI [where x = "[]"]) simp
next
  case (turns_step s' segW segR s'')
  from turns_step.IH obtain seg where "sHist (hState s') = sHist (hState s) @ seg"
    "storesOK (\<lambda>_ g' _. g' = g) seg" by blast
  moreover have "sHist (hState s'') = sHist (hState s') @ segW @ segR" "watchedOK K g (hWatch s') segW" "quiet segR"
    using turns_step.hyps(3) by (simp_all add: turnOK_def)
  ultimately show ?case
    using watchedOK_key by (intro exI [where x = "seg @ segW @ segR"])
      (auto simp: storesOK_append noStores_OK quiet_noStores)
qed

end
