(* ===== verification/Retrieve.thy ===== *)
theory Retrieve
  imports Stringer
begin

unbundle bit_operations_syntax

text \<open>
  The package \<^verbatim>\<open>types\<close> of the watchlist reader: the flags that say what to retrieve, a 32-bit
  mask, with the generated \<^verbatim>\<open>String\<close>, \<^verbatim>\<open>Valid\<close> and \<^verbatim>\<open>ListRetrieve\<close>.
\<close>

definition RTNode :: u32 where [sentinel_defs]: "RTNode = 1"
definition RTPod :: u32 where [sentinel_defs]: "RTPod = 2"
definition RTNamespace :: u32 where [sentinel_defs]: "RTNamespace = 4"
definition RTPersistentVolume :: u32 where [sentinel_defs]: "RTPersistentVolume = 8"
definition RTRBAC :: u32 where [sentinel_defs]: "RTRBAC = 16"
definition RTService :: u32 where [sentinel_defs]: "RTService = 32"
definition RTDeployment :: u32 where [sentinel_defs]: "RTDeployment = 64"
definition RTIngressController :: u32 where [sentinel_defs]: "RTIngressController = 128"
definition RTEndpoint :: u32 where [sentinel_defs]: "RTEndpoint = 256"

definition Retrieve_checks :: "(u32 \<times> int) list" where
  "Retrieve_checks =
     [(RTNode, 1), (RTPod, 2), (RTNamespace, 4), (RTPersistentVolume, 8), (RTRBAC, 16), (RTService, 32),
      (RTDeployment, 64), (RTIngressController, 128), (RTEndpoint, 256)]"

lemma Retrieve_checks_hold: "constantsUnchanged Retrieve_checks"
  by (simp add: constantsUnchanged_def Retrieve_checks_def sentinel_defs)

definition Retrieve_name_0 :: string where "Retrieve_name_0 = ''NodePod''"
definition Retrieve_name_1 :: string where "Retrieve_name_1 = ''Namespace''"
definition Retrieve_name_2 :: string where "Retrieve_name_2 = ''PersistentVolume''"
definition Retrieve_name_3 :: string where "Retrieve_name_3 = ''RBAC''"
definition Retrieve_name_4 :: string where "Retrieve_name_4 = ''Services''"
definition Retrieve_name_5 :: string where "Retrieve_name_5 = ''Deployment''"
definition Retrieve_name_6 :: string where "Retrieve_name_6 = ''IngressController''"
definition Retrieve_name_7 :: string where "Retrieve_name_7 = ''Endpoint''"

lemmas Retrieve_name_defs = Retrieve_name_0_def Retrieve_name_1_def Retrieve_name_2_def Retrieve_name_3_def
  Retrieve_name_4_def Retrieve_name_5_def Retrieve_name_6_def Retrieve_name_7_def

definition Retrieve_index_0 :: "nat list" where "Retrieve_index_0 = [0, 4, 7]"

definition Retrieve_String :: "u32 \<Rightarrow> string outcome" where
  "Retrieve_String i =
     (if 1 \<le> i \<and> i \<le> 2 then
        (let j = i - 1 in
         obind (goIndex Retrieve_index_0 (unat j))
           (\<lambda>lo. obind (goIndex Retrieve_index_0 (unat (j + 1)))
              (\<lambda>hi. goSlice Retrieve_name_0 lo hi)))
      else if i = 4 then Ret Retrieve_name_1
      else if i = 8 then Ret Retrieve_name_2
      else if i = 16 then Ret Retrieve_name_3
      else if i = 32 then Ret Retrieve_name_4
      else if i = 64 then Ret Retrieve_name_5
      else if i = 128 then Ret Retrieve_name_6
      else if i = 256 then Ret Retrieve_name_7
      else Ret (''Retrieve('' @ dec (unat i) @ '')''))"

definition Retrieve_Valid :: "u32 \<Rightarrow> bool" where
  "Retrieve_Valid i =
     (if 1 \<le> i \<and> i \<le> 2 then True
      else if i = 4 then True
      else if i = 8 then True
      else if i = 16 then True
      else if i = 32 then True
      else if i = 64 then True
      else if i = 128 then True
      else if i = 256 then True
      else False)"

text \<open>\<^verbatim>\<open>ListRetrieve\<close> is a push iterator: it hands each flag to \<open>yield\<close>, which has a state of its own
  and answers whether to go on.\<close>

definition ListRetrieve :: "(u32 \<Rightarrow> 's \<Rightarrow> bool \<times> 's) \<Rightarrow> 's \<Rightarrow> 's" where
  "ListRetrieve yield s =
     (let (ok, s) = yield RTNode s in if \<not> ok then s else
      let (ok, s) = yield RTPod s in if \<not> ok then s else
      let (ok, s) = yield RTNamespace s in if \<not> ok then s else
      let (ok, s) = yield RTPersistentVolume s in if \<not> ok then s else
      let (ok, s) = yield RTRBAC s in if \<not> ok then s else
      let (ok, s) = yield RTService s in if \<not> ok then s else
      let (ok, s) = yield RTDeployment s in if \<not> ok then s else
      let (ok, s) = yield RTIngressController s in if \<not> ok then s else
      let (ok, s) = yield RTEndpoint s in if \<not> ok then s else s)"

section \<open>The flags as a list\<close>

definition retrieveFlags :: "u32 list" where
  "retrieveFlags = [RTNode, RTPod, RTNamespace, RTPersistentVolume, RTRBAC, RTService,
     RTDeployment, RTIngressController, RTEndpoint]"

fun yieldAll :: "(u32 \<Rightarrow> 's \<Rightarrow> bool \<times> 's) \<Rightarrow> u32 list \<Rightarrow> 's \<Rightarrow> 's" where
  "yieldAll yield [] s = s"
| "yieldAll yield (r # rs) s =
     (let (ok, s') = yield r s in if ok then yieldAll yield rs s' else s')"

text \<open>The unrolled code of the generator is the loop over the list, early exit included.\<close>

lemma ListRetrieve_yieldAll: "ListRetrieve yield s = yieldAll yield retrieveFlags s"
  by (simp add: ListRetrieve_def retrieveFlags_def Let_def split_beta)

lemma Retrieve_Valid_iff: "Retrieve_Valid i \<longleftrightarrow> i \<in> set retrieveFlags"
proof -
  have "1 \<le> i \<and> i \<le> 2 \<longleftrightarrow> i = 1 \<or> i = (2 :: u32)"
  proof
    assume "1 \<le> i \<and> i \<le> 2"
    then have "unat i = 1 \<or> unat i = 2"
      by (auto simp: word_le_nat_alt)
    then show "i = 1 \<or> i = 2"
      by (metis of_nat_1 of_nat_numeral of_nat_unat ucast_id)
  qed auto
  then show ?thesis
    by (simp add: Retrieve_Valid_def retrieveFlags_def sentinel_defs)
qed

lemma retrieveFlags_powers: "retrieveFlags = map (\<lambda>k. 2 ^ k) [0..<9]"
  by (simp add: retrieveFlags_def sentinel_defs upt_rec)

lemma Retrieve_Valid_power: "Retrieve_Valid i \<longleftrightarrow> (\<exists>k < 9. i = 2 ^ k)"
  by (auto simp: Retrieve_Valid_iff retrieveFlags_powers)

lemma Retrieve_String_names:
  "map Retrieve_String retrieveFlags =
     map Ret [''Node'', ''Pod'', ''Namespace'', ''PersistentVolume'', ''RBAC'', ''Services'',
       ''Deployment'', ''IngressController'', ''Endpoint'']"
  by (simp add: retrieveFlags_def sentinel_defs Retrieve_String_def goIndex_def goSlice_def
      Retrieve_index_0_def Retrieve_name_defs)

lemma Retrieve_checks_names:
  "map (Retrieve_String \<circ> fst) Retrieve_checks =
     map Ret [''Node'', ''Pod'', ''Namespace'', ''PersistentVolume'', ''RBAC'', ''Services'', ''Deployment'',
       ''IngressController'', ''Endpoint'']"
  using Retrieve_String_names by (simp add: Retrieve_checks_def retrieveFlags_def)

lemma Retrieve_String_invalid:
  "\<not> Retrieve_Valid i \<Longrightarrow> Retrieve_String i = Ret (''Retrieve('' @ dec (unat i) @ '')'')"
  by (auto simp: Retrieve_Valid_def Retrieve_String_def split: if_splits)

text \<open>A flag is set in a mask iff its bit is.\<close>

lemma flag_set_iff_bit: "(m :: u32) AND 2 ^ k = 2 ^ k \<longleftrightarrow> bit m k" if "k < 32"
  using that by (auto simp: bit_eq_iff [where ?'a = u32] bit_and_iff bit_exp_iff)

lemma flag_nonzero_iff_bit: "(m :: u32) AND 2 ^ k \<noteq> 0 \<longleftrightarrow> bit m k" if "k < 32"
  using that by (auto simp: bit_eq_iff [where ?'a = u32] bit_and_iff bit_exp_iff)

end
