(* ===== verification/Startup.thy ===== *)
theory Startup
  imports Handle Retrieve
begin

text \<open>
  How the reader starts (\<^verbatim>\<open>spawn.go\<close>, and \<^verbatim>\<open>startWatch\<close>, \<^verbatim>\<open>watch\<close>, \<^verbatim>\<open>recoverStartup\<close> of
  \<^verbatim>\<open>watchlist.go\<close>): which resources a flag stands for, and for each resource: load the bookmark, check
  it against the server, resume from it or recover, and hand the watch over to a handler goroutine.
  The goroutines a start leaves behind are its \<open>job\<close>s; each one runs \<^verbatim>\<open>handleWatcher\<close>.
\<close>

section \<open>Resources\<close>

text \<open>The \<^verbatim>\<open>SchemeGroupVersion\<close>s of the API packages: group and version.\<close>

record schemes =
  coreGV :: "string \<times> string"
  appsGV :: "string \<times> string"
  networkingGV :: "string \<times> string"
  rbacGV :: "string \<times> string"

definition WithResource :: "string \<times> string \<Rightarrow> string \<Rightarrow> gvr" where
  "WithResource gv r = \<lparr>Group = fst gv, Version = snd gv, Resource = r\<rparr>"

definition createNamespaceWatcher :: "env \<Rightarrow> schemes \<Rightarrow> watchSpec list" where
  "createNamespaceWatcher E S = [newWatchSpec E (WithResource (coreGV S) ''namespaces'')]"

definition createNodesWatcher :: "env \<Rightarrow> schemes \<Rightarrow> watchSpec list" where
  "createNodesWatcher E S = [newWatchSpec E (WithResource (coreGV S) ''nodes'')]"

definition createPodsWatcher :: "env \<Rightarrow> schemes \<Rightarrow> watchSpec list" where
  "createPodsWatcher E S = [newWatchSpec E (WithResource (coreGV S) ''pods'')]"

definition createPersistentVolumesWatcher :: "env \<Rightarrow> schemes \<Rightarrow> watchSpec list" where
  "createPersistentVolumesWatcher E S = [newWatchSpec E (WithResource (coreGV S) ''persistentvolumes'')]"

definition createRBACWatcher :: "env \<Rightarrow> schemes \<Rightarrow> watchSpec list" where
  "createRBACWatcher E S =
     [newWatchSpec E (WithResource (rbacGV S) ''roles''),
      newWatchSpec E (WithResource (rbacGV S) ''rolebindings''),
      newWatchSpec E (WithResource (rbacGV S) ''clusterroles''),
      newWatchSpec E (WithResource (rbacGV S) ''clusterrolebindings'')]"

definition createServicesWatcher :: "env \<Rightarrow> schemes \<Rightarrow> watchSpec list" where
  "createServicesWatcher E S = [newWatchSpec E (WithResource (coreGV S) ''services'')]"

definition createDeploymentsWatcher :: "env \<Rightarrow> schemes \<Rightarrow> watchSpec list" where
  "createDeploymentsWatcher E S = [newWatchSpec E (WithResource (appsGV S) ''deployments'')]"

definition createIngressesWatcher :: "env \<Rightarrow> schemes \<Rightarrow> watchSpec list" where
  "createIngressesWatcher E S = [newWatchSpec E (WithResource (networkingGV S) ''ingresses'')]"

definition createEndpointsWatcher :: "env \<Rightarrow> schemes \<Rightarrow> watchSpec list" where
  "createEndpointsWatcher E S = [newWatchSpec E (WithResource (coreGV S) ''endpoints'')]"

lemmas create_defs = createNamespaceWatcher_def createNodesWatcher_def createPodsWatcher_def
  createPersistentVolumesWatcher_def createRBACWatcher_def createServicesWatcher_def
  createDeploymentsWatcher_def createIngressesWatcher_def createEndpointsWatcher_def

text \<open>The switch of \<^verbatim>\<open>startWatch\<close>.\<close>

definition watchSpecs :: "env \<Rightarrow> schemes \<Rightarrow> u32 \<Rightarrow> watchSpec list option" where
  "watchSpecs E S rt =
     (if rt = RTNamespace then Some (createNamespaceWatcher E S)
      else if rt = RTNode then Some (createNodesWatcher E S)
      else if rt = RTPod then Some (createPodsWatcher E S)
      else if rt = RTPersistentVolume then Some (createPersistentVolumesWatcher E S)
      else if rt = RTRBAC then Some (createRBACWatcher E S)
      else if rt = RTService then Some (createServicesWatcher E S)
      else if rt = RTDeployment then Some (createDeploymentsWatcher E S)
      else if rt = RTIngressController then Some (createIngressesWatcher E S)
      else if rt = RTEndpoint then Some (createEndpointsWatcher E S)
      else None)"

section \<open>One resource\<close>

record job =
  jKey :: gvr
  jVersion :: string
  jWatch :: "watcher option"
  jSpec :: watchSpec

definition recoverStartup :: "k8s \<Rightarrow> env \<Rightarrow> bool \<Rightarrow> bool \<Rightarrow> watchSpec \<Rightarrow> string \<Rightarrow> sstate \<Rightarrow>
    (gerr + watcher option) \<times> sstate" where
  "recoverStartup K E bookmarking st rw rv s =
     (let s = s\<lparr>sHist := clearRejectedBookmark E st (wsGvr rw) rv (sHist s)\<rparr> in
      case getInitialEventsWatcher K E bookmarking rw s of
        (Inl err, s) \<Rightarrow> if errors_Is err ErrListRecovery then (Inr None, s) else (Inl err, s)
      | (Inr w, s) \<Rightarrow> (Inr (Some w), s))"

text \<open>Loading the bookmark; a failed load is logged and counts as none.\<close>

definition loadVersion :: "env \<Rightarrow> bool \<Rightarrow> bool \<Rightarrow> gvr \<Rightarrow> hist \<Rightarrow> string \<times> hist" where
  "loadVersion E bookmarking st key h =
     (if bookmarking \<and> st \<and> \<not> gvr_Empty key then
        (case bmLoad E h key of (Inl err, h) \<Rightarrow> ([], h) | (Inr rv, h) \<Rightarrow> (rv, h))
      else ([], h))"

text \<open>The cause for not even trying to resume; a check that fails is no cause.\<close>

definition checkVersion :: "k8s \<Rightarrow> (string \<times> hist) retry \<Rightarrow> watchSpec \<Rightarrow> string \<Rightarrow> hist \<Rightarrow> gerr option \<times> hist" where
  "checkVersion K check rw rv h =
     (case (rv, wsList rw) of
        (_ # _, Some list) \<Rightarrow>
          (case bookmarkAhead K check list rv h of
             (Inl err, h) \<Rightarrow> (None, h)
           | (Inr ahead, h) \<Rightarrow>
               (if ahead then Some (Msg ''bookmark is ahead of the server's current resourceVersion'') else None, h))
      | _ \<Rightarrow> (None, h))"

text \<open>The body of the loop of \<^verbatim>\<open>watch\<close>.\<close>

definition startSpec :: "k8s \<Rightarrow> env \<Rightarrow> (string \<times> hist) retry \<Rightarrow> bool \<Rightarrow> bool \<Rightarrow> watchSpec \<Rightarrow> sstate \<Rightarrow>
    (gerr + job) \<times> sstate" where
  "startSpec K E check bookmarking st rw s =
     (let key = wsGvr rw;
          (rv, h) = loadVersion E bookmarking st key (sHist s);
          (cause, h) = checkVersion K check rw rv h;
          s = s\<lparr>sHist := h\<rparr>;
          (w, cause, s) =
            (if cause = None then
               (case getWatcher K E bookmarking (withResourceVersion (wsSpawn rw) rv) s of
                  (Inl err, s) \<Rightarrow>
                    (Inl err, if rv \<noteq> [] \<and> rejectedResourceVersion K (Some err) then Some err else None, s)
                | (Inr w, s) \<Rightarrow> (Inr (Some w), None, s))
             else (Inr None, cause, s));
          (w, rv, s) =
            (case cause of
               None \<Rightarrow> (w, rv, s)
             | Some _ \<Rightarrow> (let (w, s) = recoverStartup K E bookmarking st rw rv s in (w, [], s)))
      in
      case w of
        Inl err \<Rightarrow> (Inl err, s)
      | Inr w \<Rightarrow> (Inr \<lparr>jKey = key, jVersion = rv, jWatch = w, jSpec = rw\<rparr>, s))"

fun startSpecs :: "k8s \<Rightarrow> env \<Rightarrow> (string \<times> hist) retry \<Rightarrow> bool \<Rightarrow> bool \<Rightarrow> watchSpec list \<Rightarrow> sstate \<Rightarrow>
    job list \<times> gerr option \<times> sstate" where
  "startSpecs K E check bookmarking st [] s = ([], None, s)"
| "startSpecs K E check bookmarking st (rw # ws) s =
     (case startSpec K E check bookmarking st rw s of
        (Inl err, s) \<Rightarrow> ([], Some err, s)
      | (Inr j, s) \<Rightarrow>
          (let (js, err, s) = startSpecs K E check bookmarking st ws s in (j # js, err, s)))"

text \<open>\<^verbatim>\<open>watch\<close>: the jobs it has started, also when it fails half way.\<close>

definition watchAll :: "k8s \<Rightarrow> env \<Rightarrow> (string \<times> hist) retry \<Rightarrow> bool \<Rightarrow> bool \<Rightarrow> watchSpec list \<Rightarrow> sstate \<Rightarrow>
    job list \<times> gerr option \<times> sstate" where
  "watchAll K E check bookmarking st ws s =
     (let (done, h) = ctxDone E (sHist s); s = s\<lparr>sHist := h\<rparr> in
      if done then ([], None, s) else startSpecs K E check bookmarking st ws s)"

definition startWatch :: "k8s \<Rightarrow> env \<Rightarrow> (string \<times> hist) retry \<Rightarrow> schemes \<Rightarrow> bool \<Rightarrow> bool \<Rightarrow> u32 \<Rightarrow> sstate \<Rightarrow>
    job list \<times> gerr option \<times> sstate" where
  "startWatch K E check S bookmarking st rt s =
     (case watchSpecs E S rt of
        None \<Rightarrow> ([], Some (Msg ''unknown resource type''), s)
      | Some ws \<Rightarrow>
          (let (js, err, s) = watchAll K E check bookmarking st ws s;
               (done1, h) = ctxDone E (sHist s)
           in
           case (done1, err) of
             (True, Some e) \<Rightarrow> (js, Some (Wrap ''could not connect to server'' [Sent Canceled, e]), s\<lparr>sHist := h\<rparr>)
           | _ \<Rightarrow>
               (let (done2, h) = ctxDone E h; s = s\<lparr>sHist := h\<rparr> in
                if done2 then (js, Some (Wrap ''could not connect to server'' [Sent Canceled]), s)
                else (js, (case err of None \<Rightarrow> None | Some e \<Rightarrow> Some (Wrap ''error starting watcher'' [e])), s))))"

section \<open>Every flag has its resources\<close>

definition resourcesOf :: "env \<Rightarrow> schemes \<Rightarrow> gvr list" where
  "resourcesOf E S = map wsGvr (concat (map (\<lambda>rt. the (watchSpecs E S rt)) retrieveFlags))"

lemma watchSpecs_iff: "watchSpecs E S rt \<noteq> None \<longleftrightarrow> Retrieve_Valid rt"
  by (auto simp: watchSpecs_def Retrieve_Valid_iff retrieveFlags_def)

lemma watchSpecs_new:
  "watchSpecs E S rt = Some ws \<Longrightarrow> sp \<in> set ws \<Longrightarrow> sp = newWatchSpec E (wsGvr sp) \<and> Resource (wsGvr sp) \<noteq> []"
  by (auto simp: watchSpecs_def create_defs newWatchSpec_def WithResource_def split: if_splits)

lemma resourcesOf_names:
  "map Resource (resourcesOf E S) =
     [''nodes'', ''pods'', ''namespaces'', ''persistentvolumes'', ''roles'', ''rolebindings'',
      ''clusterroles'', ''clusterrolebindings'', ''services'', ''deployments'', ''ingresses'', ''endpoints'']"
  by (simp add: resourcesOf_def retrieveFlags_def watchSpecs_def create_defs newWatchSpec_def
      WithResource_def sentinel_defs)

text \<open>No two watchers share a bookmark: the names differ in what follows the last dot.\<close>

lemma bookmarkName_Resource:
  assumes "bookmarkName g = bookmarkName g'" and "CHR ''.'' \<notin> set (Resource g)" "CHR ''.'' \<notin> set (Resource g')"
    and "Resource g \<noteq> []" "Resource g' \<noteq> []"
  shows "Resource g = Resource g'"
proof -
  have name: "\<exists>a. bookmarkName h = a @ CHR ''.'' # Resource h" if "Resource h \<noteq> []" for h
    using that by (simp add: bookmarkName_def gvr_Empty_def Let_def)
  obtain a b where "bookmarkName g = a @ CHR ''.'' # Resource g" "bookmarkName g' = b @ CHR ''.'' # Resource g'"
    using name assms(4,5) by blast
  with assms(1-3) split_last show ?thesis by metis
qed

lemma resourcesOf_distinct: "distinct (map bookmarkName (resourcesOf E S))"
proof -
  have d: "distinct (map Resource (resourcesOf E S))"
    unfolding resourcesOf_names by simp
  have plain: "\<forall>g \<in> set (resourcesOf E S). Resource g \<noteq> [] \<and> CHR ''.'' \<notin> set (Resource g)"
  proof -
    have "\<forall>r \<in> set (map Resource (resourcesOf E S)). r \<noteq> [] \<and> CHR ''.'' \<notin> set r"
      unfolding resourcesOf_names by simp
    then show ?thesis by simp
  qed
  have "inj_on bookmarkName (set (resourcesOf E S))"
  proof (rule inj_onI)
    fix g g'
    assume g: "g \<in> set (resourcesOf E S)" "g' \<in> set (resourcesOf E S)" "bookmarkName g = bookmarkName g'"
    with plain bookmarkName_Resource have "Resource g = Resource g'" by blast
    with d g(1,2) show "g = g'" by (auto simp: distinct_map dest: inj_onD)
  qed
  with d show ?thesis by (auto simp: distinct_map)
qed

section \<open>What a start hands to its handlers\<close>

lemma bookmarkAhead_hist:
  assumes "retry_contract retry" and "bookmarkAhead K retry (doList E g) bookmark h = (r, h')"
  shows "\<exists>seg. h' = h @ seg \<and> quiet seg"
proof (cases "parseUint64 bookmark")
  case None
  with assms(2) show ?thesis by (intro exI [where x = "[]"]) (simp add: bookmarkAhead_def)
next
  case (Some v)
  let ?I = "\<lambda>s. \<exists>seg. snd s = h @ seg \<and> quiet seg" and ?op = "currentAttempt K (doList E g)"
  have "?I (snd (?op s))" if s: "?I s" for s
  proof -
    obtain c h1 where c: "s = (c, h1)" by force
    with s obtain seg where "h1 = h @ seg" "quiet seg" by auto
    then show ?thesis
      unfolding c
      by (intro exI [where x = "seg @ [AList g (emptyOptions\<lparr>loLimit := 1\<rparr>) (envList E h1 g (emptyOptions\<lparr>loLimit := 1\<rparr>))]"])
        (simp add: currentAttempt_def doList_def Let_def split: sum.split prod.split)
  qed
  then have "?I (snd (retry (Some bookmarkCheckAttempts) ?op ([], h)))"
    using retry_inv [where I = ?I, OF assms(1), of "([], h)" ?op] by auto
  with Some assms(2) show ?thesis
    by (auto simp: bookmarkAhead_def split: prod.splits option.splits)
qed

lemma checkVersion_hist:
  assumes "retry_contract check" and "checkVersion K check (newWatchSpec E g) rv h = (r, h')"
  shows "\<exists>seg. h' = h @ seg \<and> quiet seg"
  using assms(2) bookmarkAhead_hist [OF assms(1), of K E g rv h]
  by (cases rv) (auto simp: checkVersion_def newWatchSpec_def split: prod.splits sum.splits intro: exI [where x = "[]"])

lemma loadVersion_hist:
  assumes "loadVersion E b st g h = (rv, h')"
  shows "\<exists>seg. h' = h @ seg \<and> quiet seg \<and> (rv \<noteq> [] \<longrightarrow> b \<and> ALoad g (Inr rv) \<in> set seg)"
  using assms by (auto simp: loadVersion_def bmLoad_def Let_def split: if_splits sum.splits intro: exI [where x = "[]"])

text \<open>What \<^verbatim>\<open>recoverStartup\<close> comes back with: a recovery watch, or none, for the handler to list.\<close>

lemma recoverStartup_spec:
  assumes "recoverStartup K E b st (newWatchSpec E g) rv s = (r, s')" and ok: "spawnerOK b (spw s)"
  shows "\<exists>seg. sHist s' = sHist s @ seg \<and> quiet seg \<and> spawnerOK b (spw s') \<and>
    (\<forall>w. r = Inr (Some w) \<longrightarrow> opensNext K g b [] True w seg)"
proof -
  obtain seg0 where seg0: "clearRejectedBookmark E st g rv (sHist s) = sHist s @ seg0" "quiet seg0"
    using clearRejectedBookmark_hist by blast
  let ?s = "s\<lparr>sHist := sHist s @ seg0\<rparr>"
  have spec: "wsGvr (newWatchSpec E g) = g" by (simp add: newWatchSpec_def)
  obtain q s1 where q: "getInitialEventsWatcher K E b (newWatchSpec E g) ?s = (q, s1)" by force
  have s1: "s1 = s'" using assms(1) seg0 q spec
    by (auto simp: recoverStartup_def Let_def split: sum.splits if_splits)
  have good: "goodReq (initialEventsRequest (newWatchSpec E g))"
    by (intro goodReq_initialEvents goodReq_spawn)
  from getWatcher_steps [OF good q [unfolded getInitialEventsWatcher_def]] ok s1 obtain seg where
    seg: "sHist s' = sHist ?s @ seg" "quiet seg" "spawnerOK b (spw s')"
    by (auto simp: steps_def)
  have "opensNext K g b [] True w (seg0 @ seg)" if "r = Inr (Some w)" for w
  proof -
    have "q = Inr w" using that assms(1) seg0 q spec
      by (auto simp: recoverStartup_def Let_def split: sum.splits if_splits)
    with getInitialEventsWatcher_spec [OF q [unfolded this]] ok seg s1
    have "recoversAll K g w seg" by (auto simp: recoversAll_def)
    with recoversAll_extend [of K g w seg seg0 "[]"] show ?thesis by (simp add: opensNext_def)
  qed
  with seg seg0 show ?thesis by (intro exI [where x = "seg0 @ seg"]) auto
qed

text \<open>A start that succeeds: the handler's invariant holds, a version it resumes from is the one that
  was loaded, and its watch is open at that version, or is a recovery, or still has to be made.\<close>

definition startedOK :: "k8s \<Rightarrow> gvr \<Rightarrow> bool \<Rightarrow> job \<Rightarrow> hist \<Rightarrow> bool" where
  "startedOK K g b j seg \<longleftrightarrow>
     jKey j = g \<and> (jVersion j \<noteq> [] \<longrightarrow> b \<and> ALoad g (Inr (jVersion j)) \<in> set seg) \<and>
     (case jWatch j of
        None \<Rightarrow> jVersion j = []
      | Some w \<Rightarrow> opensNext K g b (jVersion j) (wMode w \<noteq> None) w seg)"

lemma startedOK_recovered:
  assumes rec: "recoverStartup K E b st (newWatchSpec E g) rv t = (Inr (jWatch j), s')" and ok: "spawnerOK b (spw t)"
    and t: "sHist t = h @ d" "quiet d" and j: "jKey j = g" "jVersion j = []"
  shows "\<exists>seg. sHist s' = h @ seg \<and> quiet seg \<and> startedOK K g b j seg \<and>
    handlerInv b (handlerInit (jVersion j) (jWatch j) s')"
proof -
  from recoverStartup_spec [OF rec ok] obtain seg where seg: "sHist s' = sHist t @ seg" "quiet seg"
    "spawnerOK b (spw s')" "\<forall>w. jWatch j = Some w \<longrightarrow> opensNext K g b [] True w seg" by auto
  have opens: "opensNext K g b [] True w (d @ seg)" if "jWatch j = Some w" for w
    using seg(4) that opensNext_extend [of K g b "[]" True w seg d "[]"] by simp
  then have mode: "wMode w \<noteq> None \<and> (\<forall>m. wMode w = Some m \<longrightarrow> wf_mode m)" if "jWatch j = Some w" for w
    using opensNext_mode [of K g b "[]" True w "d @ seg"] that by auto
  have "startedOK K g b j (d @ seg)"
    using j opens mode by (auto simp: startedOK_def split: option.split)
  moreover have "handlerInv b (handlerInit (jVersion j) (jWatch j) s')"
    using seg(3) mode by (intro handlerInv_init) auto
  ultimately show ?thesis using seg t by (intro exI [where x = "d @ seg"]) simp
qed

lemma startedOK_resumed:
  assumes get: "getWatcher K E b (withResourceVersion (wsSpawn (newWatchSpec E g)) rv) t = (Inr w, s')"
    and ok: "spawnerOK b (spw t)" and t: "sHist t = h @ d" "quiet d"
    and rv: "rv \<noteq> [] \<longrightarrow> b \<and> ALoad g (Inr rv) \<in> set d" and j: "jKey j = g" "jVersion j = rv" "jWatch j = Some w"
  shows "\<exists>seg. sHist s' = h @ seg \<and> quiet seg \<and> startedOK K g b j seg \<and>
    handlerInv b (handlerInit (jVersion j) (jWatch j) s')"
proof -
  have "goodReq (withResourceVersion (wsSpawn (newWatchSpec E g)) rv)"
    by (intro goodReq_withResourceVersion goodReq_spawn)
  from getWatcher_steps [OF this get] ok obtain seg where seg: "sHist s' = sHist t @ seg" "quiet seg"
    "spawnerOK b (spw s')" by (auto simp: steps_def)
  from getWatcher_plain [OF get ok] seg(1) obtain ini where w: "wMode w = None" "openedAt g (wId w) rv ini seg"
    "rv \<noteq> [] \<longrightarrow> \<not> ini" by auto
  have "opensNext K g b rv False w seg" using w rv by (cases "rv = []") (auto simp: opensNext_def)
  from opensNext_extend [OF this, of d "[]"] have "startedOK K g b j (d @ seg)"
    using j w(1) rv by (auto simp: startedOK_def)
  moreover have "handlerInv b (handlerInit (jVersion j) (jWatch j) s')"
    using j seg(3) w(1) by (intro handlerInv_init) auto
  ultimately show ?thesis using t seg by (intro exI [where x = "d @ seg"]) simp
qed

lemma startSpec_spec:
  assumes contract: "retry_contract check"
    and run: "startSpec K E check b st (newWatchSpec E g) s = (Inr j, s')" and ok: "spawnerOK b (spw s)"
  shows "\<exists>seg. sHist s' = sHist s @ seg \<and> quiet seg \<and> startedOK K g b j seg \<and>
    jSpec j = newWatchSpec E g \<and> handlerInv b (handlerInit (jVersion j) (jWatch j) s')"
proof -
  have key: "wsGvr (newWatchSpec E g) = g" by (simp add: newWatchSpec_def)
  obtain rv h1 where ld: "loadVersion E b st g (sHist s) = (rv, h1)" by force
  obtain cause h2 where ck: "checkVersion K check (newWatchSpec E g) rv h1 = (cause, h2)" by force
  from loadVersion_hist [OF ld] obtain a where a: "h1 = sHist s @ a" "quiet a"
    "rv \<noteq> [] \<longrightarrow> b \<and> ALoad g (Inr rv) \<in> set a" by blast
  from checkVersion_hist [OF contract ck] obtain c where c: "h2 = h1 @ c" "quiet c" by blast
  let ?s = "s\<lparr>sHist := h2\<rparr>" and ?sp = "withResourceVersion (wsSpawn (newWatchSpec E g)) rv"
  let ?rec = "\<lambda>t. recoverStartup K E b st (newWatchSpec E g) rv t = (Inr (jWatch j), s')"
  obtain q s1 where q: "getWatcher K E b ?sp ?s = (q, s1)" by force
  have "goodReq ?sp" by (intro goodReq_withResourceVersion goodReq_spawn)
  from getWatcher_steps [OF this q] ok obtain d where d: "sHist s1 = h2 @ d" "quiet d" "spawnerOK b (spw s1)"
    by (auto simp: steps_def)
  have spec: "jSpec j = newWatchSpec E g" "jKey j = g" and
    cases: "jVersion j = [] \<and> (?rec ?s \<or> ?rec s1) \<or>
      (\<exists>w. q = Inr w \<and> s1 = s' \<and> jVersion j = rv \<and> jWatch j = Some w)"
    using run ld ck key q by (auto simp: startSpec_def Let_def split: sum.splits prod.splits option.splits if_splits)
  from cases consider (rec) "?rec ?s" "jVersion j = []" | (again) "?rec s1" "jVersion j = []"
    | (resume) w where "q = Inr w" "s1 = s'" "jVersion j = rv" "jWatch j = Some w" by blast
  then show ?thesis
  proof cases
    case rec
    from startedOK_recovered [OF rec(1) _ _ _ spec(2) rec(2), of "sHist s" "a @ c"] a c ok spec(1) show ?thesis by auto
  next
    case again
    from startedOK_recovered [OF again(1) d(3) _ _ spec(2) again(2), of "sHist s" "a @ c @ d"] a c d spec(1)
    show ?thesis by auto
  next
    case resume
    from startedOK_resumed [OF q [unfolded resume(1,2)] _ _ _ _ spec(2) resume(3,4), of "sHist s" "a @ c"] a c ok spec(1)
    show ?thesis by auto
  qed
qed

end
