(* ===== verification/Relist.thy ===== *)
theory Relist
  imports Startup
begin

text \<open>
  The periodic relist (\<^verbatim>\<open>relist/relist.go\<close>, \<^verbatim>\<open>relist/listers.go\<close>, \<^verbatim>\<open>relistType\<close> and \<^verbatim>\<open>performRelist\<close> of
  \<^verbatim>\<open>watchlist.go\<close>): list every resource of a flag in pages, turn the items into snapshot entries, send
  them through a channel, and pass each object on at most once over all attempts. The lister goroutine
  and the reader of its channel are run one after the other; what the lister has put on the channel is
  a list of responses. All answers from outside are functions of the history, as for the watches.
\<close>

datatype lact =
    LList gvr listOptions "gerr + lobj"
  | LSubmit bool                    \<comment> \<open>\<^verbatim>\<open>Pool.Submit\<close>\<close>
  | LSend "gerr + entry" bool       \<comment> \<open>a send on the lister's channel\<close>
  | LPut entry bool                 \<comment> \<open>\<^verbatim>\<open>chans.Put\<close> on the output channel\<close>
  | LDone "gerr option"             \<comment> \<open>\<^verbatim>\<open>ctx.Err()\<close>\<close>

type_synonym lhist = "lact list"

record renv =
  rList :: "lhist \<Rightarrow> gvr \<Rightarrow> listOptions \<Rightarrow> gerr + lobj"
  rSubmit :: "lhist \<Rightarrow> bool"
  rTryPut :: "lhist \<Rightarrow> bool"
  rPutCh :: "lhist \<Rightarrow> bool"
  rPutOut :: "lhist \<Rightarrow> entry \<Rightarrow> bool"
  rCtxErr :: "lhist \<Rightarrow> gerr option"
  rCause :: "lhist \<Rightarrow> gerr option"

section \<open>listers.go\<close>

text \<open>What \<^verbatim>\<open>reflect\<close> shows of a list result: whether it is a pointer, a nil one, a struct; its field
  Items, the field Continue of its field ListMeta, its own field Continue; and of an item whether it
  is a pointer, can be addressed, can be turned into an interface, and which object it then is.\<close>

record ritem =
  riPointer :: bool
  riCanAddr :: bool
  riCanInterface :: bool
  riObject :: "robj option"

record rlist =
  rlPointer :: bool
  rlNil :: bool
  rlStruct :: bool
  rlItems :: "ritem list option"
  rlMetaContinue :: "string option"
  rlContinue :: "string option"

fun itemEntries :: "k8s \<Rightarrow> ritem list \<Rightarrow> entry list \<Rightarrow> (gerr + entry list) outcome" where
  "itemEntries K [] events = Ret (Inr events)"
| "itemEntries K (item # items) events =
     (if \<not> riPointer item \<and> \<not> riCanAddr item then
        Ret (Inl (Wrap ''listToEntries: item is not addressable'' [Sent ErrPermanent]))
      else if \<not> riCanInterface item then itemEntries K items events
      else
        (case riObject item of
           None \<Rightarrow> itemEntries K items events
         | Some obj \<Rightarrow>
             (case MustNewEntry K (Some obj) STWatchList CTSnapshot of
                Panic m \<Rightarrow> Panic m
              | Ret e \<Rightarrow> itemEntries K items (events @ [e]))))"

definition listToEntries :: "k8s \<Rightarrow> rlist option \<Rightarrow> (gerr + entry list) outcome" where
  "listToEntries K listResult =
     (case listResult of
        None \<Rightarrow> Ret (Inl (Wrap ''listToEntries: listResult is nil'' [Sent ErrPermanent]))
      | Some l \<Rightarrow>
          if rlPointer l \<and> rlNil l \<or> \<not> rlStruct l then Panic ''reflect: call of FieldByName on a non-struct''
          else
            (case rlItems l of
               None \<Rightarrow> Ret (Inl (Wrap ''listToEntries: no Items field found'' [Sent ErrPermanent]))
             | Some items \<Rightarrow> itemEntries K items []))"

definition getContinue :: "rlist option \<Rightarrow> gerr + string" where
  "getContinue obj =
     (let r =
        (case obj of
           None \<Rightarrow> Inl (Msg ''expected non-nil pointer to struct'')
         | Some l \<Rightarrow>
             if \<not> rlPointer l \<or> rlNil l then Inl (Msg ''expected non-nil pointer to struct'')
             else if \<not> rlStruct l then Inl (Msg ''expected struct'')
             else
               (case rlMetaContinue l of
                  Some c \<Rightarrow> Inr c
                | None \<Rightarrow>
                    (case rlContinue l of
                       Some c \<Rightarrow> Inr c
                     | None \<Rightarrow> Inl (Msg ''could not find Continue field''))))
      in
      case r of Inl err \<Rightarrow> Inl (Wrap ''getContinue'' [err, Sent ErrPermanent]) | Inr c \<Rightarrow> Inr c)"

text \<open>\<open>view\<close> is what reflection shows of a list.\<close>

definition adapter :: "k8s \<Rightarrow> (lobj \<Rightarrow> rlist option) \<Rightarrow> renv \<Rightarrow> gvr \<Rightarrow> listOptions \<Rightarrow> lhist \<Rightarrow>
    (gerr + entry list \<times> string) outcome \<times> lhist" where
  "adapter K view E g options h =
     (let r = rList E h g options; h = h @ [LList g options r] in
      case r of
        Inl err \<Rightarrow> (Ret (Inl err), h)
      | Inr obj \<Rightarrow>
          (case listToEntries K (view obj) of
             Panic m \<Rightarrow> (Panic m, h)
           | Ret (Inl err) \<Rightarrow> (Ret (Inl err), h)
           | Ret (Inr entries) \<Rightarrow>
               (case getContinue (view obj) of
                  Inl err \<Rightarrow> (Ret (Inl err), h)
                | Inr continueToken \<Rightarrow> (Ret (Inr (entries, continueToken)), h))))"

section \<open>relist.go\<close>

definition makePagers :: "schemes \<Rightarrow> u32 \<Rightarrow> gvr list option" where
  "makePagers S =
     [RTNode \<mapsto> [WithResource (coreGV S) ''nodes''],
      RTPod \<mapsto> [WithResource (coreGV S) ''pods''],
      RTNamespace \<mapsto> [WithResource (coreGV S) ''namespaces''],
      RTPersistentVolume \<mapsto> [WithResource (coreGV S) ''persistentvolumes''],
      RTRBAC \<mapsto>
        [WithResource (rbacGV S) ''roles'', WithResource (rbacGV S) ''rolebindings'',
         WithResource (rbacGV S) ''clusterroles'', WithResource (rbacGV S) ''clusterrolebindings''],
      RTService \<mapsto> [WithResource (coreGV S) ''services''],
      RTDeployment \<mapsto> [WithResource (appsGV S) ''deployments''],
      RTIngressController \<mapsto> [WithResource (networkingGV S) ''ingresses''],
      RTEndpoint \<mapsto> [WithResource (coreGV S) ''endpoints'']]"

datatype fault = NoFault | OutOfFuel | PanicFault string

text \<open>What the closure of \<^verbatim>\<open>retryableList\<close> assigns.\<close>

record page =
  pgResult :: "entry list"
  pgCont :: string
  pgFault :: fault
  pgHist :: lhist

definition pageAttempt :: "k8s \<Rightarrow> (lobj \<Rightarrow> rlist option) \<Rightarrow> renv \<Rightarrow> gvr \<Rightarrow> listOptions \<Rightarrow> page op" where
  "pageAttempt K view E g options s =
     (case adapter K view E g options (pgHist s) of
        (Panic m, h) \<Rightarrow> (Some (Sent ErrPermanent), s\<lparr>pgFault := PanicFault m, pgHist := h\<rparr>)
      | (Ret (Inl err), h) \<Rightarrow> (Permanent K (Some err), s\<lparr>pgResult := [], pgCont := [], pgHist := h\<rparr>)
      | (Ret (Inr (result, cont)), h) \<Rightarrow> (None, s\<lparr>pgResult := result, pgCont := cont, pgHist := h\<rparr>))"

definition retryableList :: "k8s \<Rightarrow> (lobj \<Rightarrow> rlist option) \<Rightarrow> renv \<Rightarrow> page retry \<Rightarrow> gvr \<Rightarrow> listOptions \<Rightarrow> lhist \<Rightarrow>
    gerr option \<times> page" where
  "retryableList K view E pretry g options h =
     pretry (Some 10) (pageAttempt K view E g options)
       \<lparr>pgResult = [], pgCont = [], pgFault = NoFault, pgHist = h\<rparr>"

text \<open>The lister's side of the channel: what is on it, and the history.\<close>

record rchan =
  chQueue :: "(gerr + entry) list"
  chFault :: fault
  chHist :: lhist

fun sendAll :: "renv \<Rightarrow> entry list \<Rightarrow> rchan \<Rightarrow> bool \<times> rchan" where
  "sendAll E [] c = (True, c)"
| "sendAll E (e # es) c =
     (let ok = rPutCh E (chHist c); c = c\<lparr>chHist := chHist c @ [LSend (Inr e) ok]\<rparr> in
      if ok then sendAll E es (c\<lparr>chQueue := chQueue c @ [Inr e]\<rparr>) else (False, c))"

text \<open>The loop over the pages has fuel, one unit for each page.\<close>

fun listOne :: "k8s \<Rightarrow> (lobj \<Rightarrow> rlist option) \<Rightarrow> renv \<Rightarrow> page retry \<Rightarrow> nat \<Rightarrow> gvr \<Rightarrow> string \<Rightarrow> rchan \<Rightarrow>
    gerr option \<times> rchan" where
  "listOne K view E pretry 0 g continueToken c = (Some (Sent ErrPermanent), c\<lparr>chFault := OutOfFuel\<rparr>)"
| "listOne K view E pretry (Suc n) g continueToken c =
     (let (err, p) = retryableList K view E pretry g
            (emptyOptions\<lparr>loLimit := 100, loContinue := continueToken\<rparr>) (chHist c);
          c = c\<lparr>chHist := pgHist p, chFault := pgFault p\<rparr>
      in
      case err of
        Some e \<Rightarrow> (Some e, c)
      | None \<Rightarrow>
          (case sendAll E (pgResult p) c of
             (False, c) \<Rightarrow> (rCause E (chHist c), c)
           | (True, c) \<Rightarrow>
               if pgCont p = [] then (None, c)
               else listOne K view E pretry n g (pgCont p) c))"

definition sendErr :: "renv \<Rightarrow> gerr \<Rightarrow> rchan \<Rightarrow> rchan" where
  "sendErr E err c =
     (let ok = rTryPut E (chHist c); c = c\<lparr>chHist := chHist c @ [LSend (Inl err) ok]\<rparr> in
      if ok then c\<lparr>chQueue := chQueue c @ [Inl err]\<rparr>
      else
        (let ok = rPutCh E (chHist c); c = c\<lparr>chHist := chHist c @ [LSend (Inl err) ok]\<rparr> in
         if ok then c\<lparr>chQueue := chQueue c @ [Inl err]\<rparr> else c))"

fun listEach :: "k8s \<Rightarrow> (lobj \<Rightarrow> rlist option) \<Rightarrow> renv \<Rightarrow> page retry \<Rightarrow> nat \<Rightarrow> gvr list \<Rightarrow> rchan \<Rightarrow> rchan" where
  "listEach K view E pretry n [] c = c"
| "listEach K view E pretry n (g # gs) c =
     (case listOne K view E pretry n g [] c of
        (Some err, c) \<Rightarrow> if chFault c \<noteq> NoFault then c else sendErr E err c
      | (None, c) \<Rightarrow> listEach K view E pretry n gs c)"

text \<open>The channel once it is closed.\<close>

definition listAll :: "k8s \<Rightarrow> (lobj \<Rightarrow> rlist option) \<Rightarrow> renv \<Rightarrow> page retry \<Rightarrow> nat \<Rightarrow> gvr list \<Rightarrow> lhist \<Rightarrow> rchan" where
  "listAll K view E pretry n gs h =
     (let submitted = rSubmit E h; c = \<lparr>chQueue = [], chFault = NoFault, chHist = h @ [LSubmit submitted]\<rparr> in
      if submitted then listEach K view E pretry n gs c
      else
        (let err = (case rCause E (chHist c) of
                      None \<Rightarrow> Msg ''worker pool declined the relist'' | Some err \<Rightarrow> err) in
         c\<lparr>chQueue := [Inl (Wrap ''relist could not be started'' [err])]\<rparr>))"

definition Relister_List :: "k8s \<Rightarrow> (lobj \<Rightarrow> rlist option) \<Rightarrow> renv \<Rightarrow> page retry \<Rightarrow> nat \<Rightarrow> schemes \<Rightarrow> u32 \<Rightarrow> lhist \<Rightarrow>
    gerr + rchan" where
  "Relister_List K view E pretry n S rt h =
     (case makePagers S rt of
        None \<Rightarrow> Inl (Wrap ''no pager found for resource type'' [Sent ErrPermanent])
      | Some listers \<Rightarrow> Inr (listAll K view E pretry n listers h))"

section \<open>relistType and performRelist\<close>

record rtype =
  seen :: "string list"
  rtFault :: fault
  rtHist :: lhist

definition ctxErr :: "renv \<Rightarrow> rtype \<Rightarrow> gerr option \<times> rtype" where
  "ctxErr E s = (let e = rCtxErr E (rtHist s) in (e, s\<lparr>rtHist := rtHist s @ [LDone e]\<rparr>))"

definition optErr :: "gerr option \<Rightarrow> gerr list" where
  "optErr e = (case e of None \<Rightarrow> [] | Some e \<Rightarrow> [e])"

fun forward :: "renv \<Rightarrow> (gerr + entry) list \<Rightarrow> rtype op" where
  "forward E [] s =
     (case ctxErr E s of
        (None, s) \<Rightarrow> (None, s)
      | (Some e, s) \<Rightarrow> (Some (Wrap ''relist context canceled'' [e]), s))"
| "forward E (Inl err # ch) s = (Some err, s)"
| "forward E (Inr entry # ch) s =
     (if uid entry \<in> set (seen s) then forward E ch s
      else
        (let s = s\<lparr>seen := seen s @ [uid entry]\<rparr>; ok = rPutOut E (rtHist s) entry;
             s = s\<lparr>rtHist := rtHist s @ [LPut entry ok]\<rparr>
         in
         if ok then forward E ch s
         else (let (e, s) = ctxErr E s in (Some (Wrap ''relist context canceled'' (optErr e)), s))))"

definition relistAttempt :: "k8s \<Rightarrow> (lobj \<Rightarrow> rlist option) \<Rightarrow> renv \<Rightarrow> page retry \<Rightarrow> nat \<Rightarrow> schemes \<Rightarrow> u32 \<Rightarrow> rtype op" where
  "relistAttempt K view E pretry n S rt s =
     (case ctxErr E s of
        (Some e, s) \<Rightarrow> (Some e, s)
      | (None, s) \<Rightarrow>
          (case Relister_List K view E pretry n S rt (rtHist s) of
             Inl err \<Rightarrow> (Some err, s)
           | Inr c \<Rightarrow>
               (let s = s\<lparr>rtHist := chHist c\<rparr> in
                if chFault c \<noteq> NoFault then (Some (Sent ErrPermanent), s\<lparr>rtFault := chFault c\<rparr>)
                else forward E (chQueue c) s)))"

text \<open>An error that outlasts the retries is logged; only the state is left.\<close>

definition relistType :: "k8s \<Rightarrow> (lobj \<Rightarrow> rlist option) \<Rightarrow> renv \<Rightarrow> page retry \<Rightarrow> rtype retry \<Rightarrow> nat \<Rightarrow> schemes \<Rightarrow> u32 \<Rightarrow>
    lhist \<Rightarrow> gerr option \<times> rtype" where
  "relistType K view E pretry retry n S rt h =
     retry (Some 7) (relistAttempt K view E pretry n S rt) \<lparr>seen = [], rtFault = NoFault, rtHist = h\<rparr>"

text \<open>The body of the loop of \<^verbatim>\<open>performRelist\<close>; the state is the error to return, a fault and the history.\<close>

unbundle bit_operations_syntax

definition relistStep :: "k8s \<Rightarrow> (lobj \<Rightarrow> rlist option) \<Rightarrow> renv \<Rightarrow> page retry \<Rightarrow> rtype retry \<Rightarrow> nat \<Rightarrow> schemes \<Rightarrow> u32 \<Rightarrow>
    u32 \<Rightarrow> gerr option \<times> fault \<times> lhist \<Rightarrow> bool \<times> gerr option \<times> fault \<times> lhist" where
  "relistStep K view E pretry retry n S retrieveTypes rt s =
     (let (err, f, h) = s in
      if retrieveTypes AND rt = rt then
        (let e = rCtxErr E h; h = h @ [LDone e] in
         case e of
           Some e \<Rightarrow> (False, Some e, f, h)
         | None \<Rightarrow>
             (let (_, t) = relistType K view E pretry retry n S rt h in
              (rtFault t = NoFault, None, rtFault t, rtHist t)))
      else (True, err, f, h))"

definition performRelist :: "k8s \<Rightarrow> (lobj \<Rightarrow> rlist option) \<Rightarrow> renv \<Rightarrow> page retry \<Rightarrow> rtype retry \<Rightarrow> nat \<Rightarrow> schemes \<Rightarrow> u32 \<Rightarrow>
    lhist \<Rightarrow> gerr option \<times> fault \<times> lhist" where
  "performRelist K view E pretry retry n S retrieveTypes h =
     ListRetrieve (relistStep K view E pretry retry n S retrieveTypes) (None, NoFault, h)"

end
