(* ===== verification/RelistSpec.thy ===== *)
theory RelistSpec
  imports Relist
begin

text \<open>
  What the relist promises: the pagers list the resources the watches watch; the entries of a page are
  those of its objects; a relist that succeeds has sent every object of a complete paginated list of
  every resource; and no object is sent twice, however often a partial list was retried.
\<close>

section \<open>Pages\<close>

definition itemEntry :: "k8s \<Rightarrow> ritem \<Rightarrow> entry list" where
  "itemEntry K item =
     (case (if riCanInterface item then riObject item else None) of
        None \<Rightarrow> []
      | Some obj \<Rightarrow> (case NewEntry K (Some obj) STWatchList CTSnapshot of Inr e \<Rightarrow> [e] | Inl _ \<Rightarrow> []))"

lemma itemEntries_step:
  "itemEntries K (item # items) events = Ret (Inr es) \<Longrightarrow>
     itemEntries K items (events @ itemEntry K item) = Ret (Inr es)"
  by (auto simp: itemEntry_def MustNewEntry_def split: if_splits option.splits sum.splits)

lemma itemEntries_spec:
  "itemEntries K items events = Ret (Inr es) \<Longrightarrow> es = events @ concat (map (itemEntry K) items)"
proof (induction items arbitrary: events)
  case (Cons item items)
  from Cons.IH [OF itemEntries_step [OF Cons.prems]] show ?case by simp
qed simp

lemma itemEntry_wf:
  assumes "e \<in> set (itemEntry K item)"
  shows "wf_entry e \<and> changeType e = CTSnapshot \<and> sourceType e = STWatchList"
proof -
  obtain obj where new: "NewEntry K obj STWatchList CTSnapshot = Inr e"
    using assms by (auto simp: itemEntry_def split: option.splits sum.splits if_splits)
  then have "changeType e = CTSnapshot \<and> sourceType e = STWatchList" by (auto simp: NewEntry_Inr_iff)
  with NewEntry_wf [OF new] show ?thesis by blast
qed

text \<open>A list of a typed client: a pointer to a struct with its items in place, each of a kind the
  program knows. Such a list is never refused and never makes the conversion panic.\<close>

definition typedList :: "rlist \<Rightarrow> bool" where
  "typedList l \<longleftrightarrow>
     rlPointer l \<and> \<not> rlNil l \<and> rlStruct l \<and> rlMetaContinue l \<noteq> None \<and>
     (case rlItems l of
        None \<Rightarrow> False
      | Some items \<Rightarrow>
          list_all (\<lambda>i. riCanAddr i \<and> riCanInterface i \<and>
            (case riObject i of None \<Rightarrow> False | Some v \<Rightarrow> optr v \<noteq> None \<and> kindOT (okind v) \<noteq> None)) items)"

lemma itemEntries_typed:
  "list_all (\<lambda>i. riCanAddr i \<and> riCanInterface i \<and>
     (case riObject i of None \<Rightarrow> False | Some v \<Rightarrow> optr v \<noteq> None \<and> kindOT (okind v) \<noteq> None)) items \<Longrightarrow>
   \<exists>es. itemEntries K items events = Ret (Inr es) \<and> length es = length events + length items"
proof (induction items arbitrary: events)
  case (Cons i items)
  then obtain v where v: "riObject i = Some v" "optr v \<noteq> None" "kindOT (okind v) \<noteq> None"
    "riCanAddr i" "riCanInterface i" by (auto split: option.splits)
  then obtain e where "NewEntry K (Some v) STWatchList CTSnapshot = Inr e"
    by (auto simp: NewEntry_Inr_iff)
  moreover obtain es where "itemEntries K items (events @ [e]) = Ret (Inr es)"
    "length es = length (events @ [e]) + length items"
    using Cons.IH [of "events @ [e]"] Cons.prems by auto
  ultimately show ?case using v by (auto simp: MustNewEntry_def)
qed simp

text \<open>What the adapter makes of a list.\<close>

definition pageOf :: "k8s \<Rightarrow> (lobj \<Rightarrow> rlist option) \<Rightarrow> lobj \<Rightarrow> (entry list \<times> string) option" where
  "pageOf K view l =
     (case (listToEntries K (view l), getContinue (view l)) of
        (Ret (Inr es), Inr c) \<Rightarrow> Some (es, c) | _ \<Rightarrow> None)"

lemma pageOf_typed:
  assumes "view l = Some x" and "typedList x"
  shows "\<exists>items. rlItems x = Some items \<and>
    pageOf K view l = Some (concat (map (itemEntry K) items), the (rlMetaContinue x)) \<and>
    length (concat (map (itemEntry K) items)) = length items"
proof -
  obtain items where items: "rlItems x = Some items" using assms(2) by (auto simp: typedList_def split: option.splits)
  with assms(2) itemEntries_typed [of items K "[]"] obtain es where
    es: "itemEntries K items [] = Ret (Inr es)" "length es = length items"
    by (auto simp: typedList_def)
  with itemEntries_spec [OF es(1)] assms items show ?thesis
    by (auto simp: pageOf_def listToEntries_def getContinue_def typedList_def Let_def)
qed

lemma pageOf_snapshots:
  "pageOf K view l = Some (es, c) \<Longrightarrow> e \<in> set es \<Longrightarrow> wf_entry e \<and> changeType e = CTSnapshot \<and> sourceType e = STWatchList"
  by (auto simp: pageOf_def listToEntries_def dest!: itemEntries_spec dest: itemEntry_wf
      split: outcome.splits sum.splits option.splits if_splits)

lemma adapter_page:
  assumes "adapter K view E g options h = (Ret (Inr (es, c)), h')"
  shows "\<exists>l. h' = h @ [LList g options (Inr l)] \<and> pageOf K view l = Some (es, c)"
proof -
  obtain l where l: "rList E h g options = Inr l"
    using assms by (cases "rList E h g options") (auto simp: adapter_def Let_def)
  with assms have "listToEntries K (view l) = Ret (Inr es)" "getContinue (view l) = Inr c"
    "h' = h @ [LList g options (Inr l)]"
    by (auto simp: adapter_def Let_def split: outcome.splits sum.splits)
  then show ?thesis by (simp add: pageOf_def)
qed

lemma adapter_hist: "\<exists>r. snd (adapter K view E g options h) = h @ [LList g options r]"
  by (auto simp: adapter_def Let_def split: sum.splits outcome.splits prod.splits)

section \<open>Pagers and watches\<close>

lemma makePagers_watchSpecs:
  "Retrieve_Valid rt \<Longrightarrow> makePagers S rt = map_option (map wsGvr) (watchSpecs E S rt)"
  by (auto simp: Retrieve_Valid_iff retrieveFlags_def makePagers_def watchSpecs_def create_defs
      newWatchSpec_def sentinel_defs)

lemma makePagers_None: "\<not> Retrieve_Valid rt \<Longrightarrow> makePagers S rt = None"
  by (auto simp: Retrieve_Valid_iff retrieveFlags_def makePagers_def)

section \<open>A complete list\<close>

definition pageOpts :: "string \<Rightarrow> listOptions" where
  "pageOpts c = emptyOptions\<lparr>loLimit := 100, loContinue := c\<rparr>"

text \<open>The pages of one resource, from the continue token \<open>c\<close> to the page without one.\<close>

fun pageChain :: "k8s \<Rightarrow> (lobj \<Rightarrow> rlist option) \<Rightarrow> lhist \<Rightarrow> gvr \<Rightarrow> string \<Rightarrow> lobj list \<Rightarrow> entry list \<Rightarrow> bool" where
  "pageChain K view h g c [] es = False"
| "pageChain K view h g c (l # ls) es =
     (LList g (pageOpts c) (Inr l) \<in> set h \<and>
      (\<exists>es1 es2 c'. pageOf K view l = Some (es1, c') \<and> es = es1 @ es2 \<and>
         (if c' = [] then ls = [] \<and> es2 = [] else pageChain K view h g c' ls es2)))"

lemma pageChain_mono: "pageChain K view h g c ls es \<Longrightarrow> set h \<subseteq> set h' \<Longrightarrow> pageChain K view h' g c ls es"
proof (induction ls arbitrary: c es)
  case (Cons l ls)
  then obtain es1 es2 c' where "LList g (pageOpts c) (Inr l) \<in> set h'" "pageOf K view l = Some (es1, c')"
    "es = es1 @ es2" "if c' = [] then ls = [] \<and> es2 = [] else pageChain K view h g c' ls es2"
    by auto
  with Cons.IH Cons.prems(2) show ?case by (cases "c' = []") auto
qed simp

lemma pageChain_snapshots:
  "pageChain K view h g c ls es \<Longrightarrow> e \<in> set es \<Longrightarrow> wf_entry e \<and> changeType e = CTSnapshot \<and> sourceType e = STWatchList"
proof (induction ls arbitrary: c es)
  case (Cons l ls)
  then obtain es1 es2 c' where p: "pageOf K view l = Some (es1, c')" "es = es1 @ es2"
    "if c' = [] then ls = [] \<and> es2 = [] else pageChain K view h g c' ls es2" by auto
  with Cons.IH [of c' es2] Cons.prems(2) pageOf_snapshots [OF p(1)] show ?case
    by (cases "c' = []") auto
qed simp

text \<open>A context that is done stays done, and has a cause: the documented behaviour of contexts and of
  the sends that watch one.\<close>

definition ctxStays :: "renv \<Rightarrow> bool" where
  "ctxStays E \<longleftrightarrow>
     (\<forall>h e more. \<not> rPutOut E h e \<longrightarrow> rCtxErr E (h @ LPut e False # more) \<noteq> None) \<and>
     (\<forall>h r more. \<not> rPutCh E h \<longrightarrow> rCtxErr E (h @ LSend r False # more) \<noteq> None) \<and>
     (\<forall>h r. \<not> rPutCh E h \<longrightarrow> rCause E (h @ [LSend r False]) \<noteq> None)"

text \<open>\<open>live E h\<close>: the context is not done yet at some later point.\<close>

definition live :: "renv \<Rightarrow> lhist \<Rightarrow> bool" where
  "live E h \<longleftrightarrow> (\<exists>more. rCtxErr E (h @ more) = None)"

lemma live_prefix: "live E (h @ h') \<Longrightarrow> live E h"
  unfolding live_def by (metis append_assoc)

lemma live_sends: "ctxStays E \<Longrightarrow> live E (h @ LSend r False # h') \<Longrightarrow> rPutCh E h"
  unfolding live_def ctxStays_def by (metis append.assoc append_Cons)

lemma live_puts: "ctxStays E \<Longrightarrow> live E (h @ LPut e False # h') \<Longrightarrow> rPutOut E h e"
  unfolding live_def ctxStays_def by (metis append.assoc append_Cons)

text \<open>What was put on the output, whether or not it was taken.\<close>

definition putsOf :: "lhist \<Rightarrow> entry list" where
  "putsOf h = concat (map (\<lambda>a. case a of LPut e _ \<Rightarrow> [e] | _ \<Rightarrow> []) h)"

lemma putsOf_simps [simp]:
  "putsOf [] = []" "putsOf (h @ h') = putsOf h @ putsOf h'" "putsOf (LPut e ok # h) = e # putsOf h"
  "putsOf (LList g opts r # h) = putsOf h" "putsOf (LSubmit ok # h) = putsOf h"
  "putsOf (LSend x ok # h) = putsOf h" "putsOf (LDone err # h) = putsOf h"
  by (simp_all add: putsOf_def)

lemma putsOf_set: "LPut e ok \<in> set h \<Longrightarrow> e \<in> set (putsOf h)"
  by (force simp: putsOf_def)

lemma retryableList_success:
  assumes "retry_contract pretry" and "retryableList K view E pretry g options h = (None, p)"
  shows "\<exists>h0 l. pgHist p = h @ h0 @ [LList g options (Inr l)] \<and> pageOf K view l = Some (pgResult p, pgCont p)"
proof -
  let ?I = "\<lambda>s. \<exists>h0. pgHist s = h @ h0"
  have "?I (snd (pageAttempt K view E g options s))" if "?I s" for s
    using that adapter_hist [of K view E g options "pgHist s"]
    by (auto simp: pageAttempt_def split: prod.splits outcome.splits sum.splits)
  from retry_success [where I = ?I, OF assms(1) assms(2) [unfolded retryableList_def] _ this] obtain s0 where
    "\<exists>h0. pgHist s0 = h @ h0" "pageAttempt K view E g options s0 = (None, p)" by auto
  then show ?thesis
    by (auto simp: pageAttempt_def dest!: adapter_page split: prod.splits outcome.splits sum.splits)
qed

lemma retryableList_hist:
  assumes "retry_contract pretry"
  shows "\<exists>h0. pgHist (snd (retryableList K view E pretry g options h)) = h @ h0 \<and> putsOf h0 = []"
  unfolding retryableList_def
proof (rule retry_inv [OF assms])
  fix s :: page assume "\<exists>h0. pgHist s = h @ h0 \<and> putsOf h0 = []"
  then show "\<exists>h0. pgHist (snd (pageAttempt K view E g options s)) = h @ h0 \<and> putsOf h0 = []"
    using adapter_hist [of K view E g options "pgHist s"]
    by (auto simp: pageAttempt_def split: prod.splits outcome.splits sum.splits)
qed simp

lemma sendAll_hist: "\<exists>h0. chHist (snd (sendAll E es c)) = chHist c @ h0 \<and> putsOf h0 = []"
proof (induction es arbitrary: c)
  case (Cons e es)
  let ?c = "\<lambda>q. c\<lparr>chHist := chHist c @ [LSend (Inr e) True], chQueue := q\<rparr>"
  obtain h0 where "chHist (snd (sendAll E es (?c (chQueue c @ [Inr e])))) = chHist c @ LSend (Inr e) True # h0"
    "putsOf h0 = []"
    using Cons.IH [of "?c (chQueue c @ [Inr e])"] by auto
  then show ?case by (auto simp: Let_def)
qed (auto intro: exI [where x = "[]"])

lemma sendAll_True:
  "sendAll E es c = (True, c') \<Longrightarrow> chQueue c' = chQueue c @ map Inr es"
  by (induction es arbitrary: c) (auto simp: Let_def split: if_splits)

lemma sendAll_False:
  "sendAll E es c = (False, c') \<Longrightarrow> \<exists>h r. \<not> rPutCh E h \<and> chHist c' = h @ [LSend r False]"
  by (induction es arbitrary: c) (auto simp: Let_def split: if_splits)

lemma listOne_hist:
  assumes "retry_contract pretry"
  shows "\<exists>h0. chHist (snd (listOne K view E pretry n g ct c)) = chHist c @ h0 \<and> putsOf h0 = []"
proof (induction n arbitrary: ct c)
  case 0
  show ?case by simp
next
  case (Suc n)
  obtain err p where rl: "retryableList K view E pretry g (emptyOptions\<lparr>loLimit := 100, loContinue := ct\<rparr>) (chHist c) = (err, p)"
    by force
  obtain h0 where h0: "pgHist p = chHist c @ h0" "putsOf h0 = []"
    using retryableList_hist [OF assms, of K view E g "emptyOptions\<lparr>loLimit := 100, loContinue := ct\<rparr>" "chHist c"] rl by auto
  let ?c = "c\<lparr>chHist := pgHist p, chFault := pgFault p\<rparr>"
  obtain b c1 where sa: "sendAll E (pgResult p) ?c = (b, c1)" by force
  obtain h1 where h1: "chHist c1 = pgHist p @ h1" "putsOf h1 = []"
    using sendAll_hist [of E "pgResult p" ?c] sa by auto
  obtain h2 where h2: "chHist (snd (listOne K view E pretry n g (pgCont p) c1)) = chHist c1 @ h2" "putsOf h2 = []"
    using Suc.IH by blast
  have "chHist (snd (listOne K view E pretry (Suc n) g ct c)) \<in> {pgHist p, chHist c1, chHist c1 @ h2}"
    using rl sa h2(1) by (cases err; cases b) (auto simp: Let_def)
  then show ?case using h0 h1 h2(2) by (elim insertE emptyE) (simp_all del: listOne.simps)
qed

text \<open>A resource listed without an error, under a live context, is listed completely.\<close>

lemma listOne_complete:
  assumes contract: "retry_contract pretry" and ctx: "ctxStays E"
    and "listOne K view E pretry n g ct c = (None, c')" and "live E (chHist c')"
  shows "\<exists>ls es. pageChain K view (chHist c') g ct ls es \<and> chQueue c' = chQueue c @ map Inr es"
  using assms(3,4)
proof (induction n arbitrary: ct c)
  case (Suc n)
  obtain p where rl: "retryableList K view E pretry g (pageOpts ct) (chHist c) = (None, p)"
    using Suc.prems(1) by (auto simp: pageOpts_def Let_def split: prod.splits option.splits)
  from retryableList_success [OF contract rl] obtain h0 l where
    l: "pgHist p = chHist c @ h0 @ [LList g (pageOpts ct) (Inr l)]" "pageOf K view l = Some (pgResult p, pgCont p)"
    by blast
  let ?c = "c\<lparr>chHist := pgHist p, chFault := pgFault p\<rparr>"
  obtain b c1 where sa: "sendAll E (pgResult p) ?c = (b, c1)" by force
  obtain h1 where h1: "chHist c1 = pgHist p @ h1" "putsOf h1 = []"
    using sendAll_hist [of E "pgResult p" ?c] sa by auto
  have step: "listOne K view E pretry (Suc n) g ct c =
      (if \<not> b then (rCause E (chHist c1), c1)
       else if pgCont p = [] then (None, c1) else listOne K view E pretry n g (pgCont p) c1)"
    using rl sa by (simp add: pageOpts_def)
  have b: b
  proof (rule ccontr)
    assume "\<not> b"
    then obtain h r where "\<not> rPutCh E h" "chHist c1 = h @ [LSend r False]"
      using sendAll_False [of E "pgResult p" ?c c1] sa by auto
    with ctx have "rCause E (chHist c1) \<noteq> None" by (simp add: ctxStays_def)
    with step Suc.prems(1) \<open>\<not> b\<close> show False by simp
  qed
  have q1: "chQueue c1 = chQueue c @ map Inr (pgResult p)"
    using sendAll_True [of E "pgResult p" ?c c1] sa b by simp
  show ?case
  proof (cases "pgCont p = []")
    case True
    with step b Suc.prems(1) have "c' = c1" by simp
    with True l h1 q1 show ?thesis
      by (intro exI [where x = "[l]"] exI [where x = "pgResult p"]) auto
  next
    case False
    with step b Suc.prems(1) have rest: "listOne K view E pretry n g (pgCont p) c1 = (None, c')" by simp
    from Suc.IH [OF rest Suc.prems(2)] obtain ls es where IH: "pageChain K view (chHist c') g (pgCont p) ls es"
      "chQueue c' = chQueue c1 @ map Inr es" by blast
    have "set (chHist c1) \<subseteq> set (chHist c')"
      using listOne_hist [OF contract, of K view E n g "pgCont p" c1] rest by auto
    with l h1 have "LList g (pageOpts ct) (Inr l) \<in> set (chHist c')" by auto
    with IH l(2) q1 False show ?thesis
      by (intro exI [where x = "l # ls"] exI [where x = "pgResult p @ es"]) simp
  qed
qed simp

lemma listEach_hist:
  assumes "retry_contract pretry"
  shows "\<exists>h0. chHist (listEach K view E pretry n gs c) = chHist c @ h0 \<and> putsOf h0 = []"
proof (induction gs arbitrary: c)
  case (Cons g gs)
  obtain err c1 where lo: "listOne K view E pretry n g [] c = (err, c1)" by force
  obtain h0 where h0: "chHist c1 = chHist c @ h0" "putsOf h0 = []"
    using listOne_hist [OF assms, of K view E n g "[]" c] lo by auto
  obtain h1 where "chHist (listEach K view E pretry n gs c1) = chHist c1 @ h1" "putsOf h1 = []" using Cons.IH by blast
  with lo h0 show ?case by (cases err) (auto simp: sendErr_def Let_def)
qed simp

text \<open>All resources of a flag: a channel without an error, under a live context, holds the complete
  lists of all of them, one after the other.\<close>

lemma listEach_complete:
  assumes contract: "retry_contract pretry" and ctx: "ctxStays E"
    and "listEach K view E pretry n gs c = c'" and "chFault c' = NoFault"
    and "\<forall>err. Inl err \<notin> set (chQueue c')" and "live E (chHist c')"
  shows "\<exists>ess. list_all2 (\<lambda>g es. \<exists>ls. pageChain K view (chHist c') g [] ls es) gs ess \<and>
    chQueue c' = chQueue c @ map Inr (concat ess)"
  using assms(3-6)
proof (induction gs arbitrary: c)
  case Nil
  then show ?case by (intro exI [where x = "[]"]) simp
next
  case (Cons g gs)
  obtain err c1 where lo: "listOne K view E pretry n g [] c = (err, c1)" by force
  show ?case
  proof (cases err)
    case (Some e)
    show ?thesis
    proof (cases "chFault c1 = NoFault")
      case True
      with lo Some Cons.prems(1) have "c' = sendErr E e c1" by simp
      then show ?thesis
        using Cons.prems(3,4) live_sends [OF ctx, of _ "Inl e" "[]"]
        by (auto simp: sendErr_def Let_def split: if_splits)
    next
      case False
      with lo Some Cons.prems(1,2) show ?thesis by simp
    qed
  next
    case None
    with lo Cons.prems(1) have rest: "listEach K view E pretry n gs c1 = c'" by simp
    obtain h0 where h0: "chHist c' = chHist c1 @ h0"
      using listEach_hist [OF contract, of K view E n gs c1] rest by auto
    with Cons.prems(4) have "live E (chHist c1)" using live_prefix by metis
    from listOne_complete [OF contract ctx lo [unfolded None] this] obtain ls es where
      one: "pageChain K view (chHist c1) g [] ls es" "chQueue c1 = chQueue c @ map Inr es" by blast
    from Cons.IH [OF rest Cons.prems(2-4)] obtain ess where
      "list_all2 (\<lambda>g es. \<exists>ls. pageChain K view (chHist c') g [] ls es) gs ess"
      "chQueue c' = chQueue c1 @ map Inr (concat ess)" by blast
    with one h0 pageChain_mono [OF one(1), of "chHist c'"] show ?thesis
      by (intro exI [where x = "es # ess"]) auto
  qed
qed

section \<open>Only snapshots\<close>

definition isSnapshot :: "entry \<Rightarrow> bool" where
  "isSnapshot e \<longleftrightarrow> wf_entry e \<and> changeType e = CTSnapshot \<and> sourceType e = STWatchList"

definition queueOK :: "(gerr + entry) list \<Rightarrow> bool" where
  "queueOK q \<longleftrightarrow> (\<forall>e. Inr e \<in> set q \<longrightarrow> isSnapshot e)"

lemma queueOK_simps [simp]:
  "queueOK []" "queueOK (q @ q') \<longleftrightarrow> queueOK q \<and> queueOK q'" "queueOK (Inl err # q) \<longleftrightarrow> queueOK q"
  "queueOK (Inr e # q) \<longleftrightarrow> isSnapshot e \<and> queueOK q"
  by (auto simp: queueOK_def)

lemma sendAll_queue: "queueOK (chQueue c) \<Longrightarrow> \<forall>e \<in> set es. isSnapshot e \<Longrightarrow> queueOK (chQueue (snd (sendAll E es c)))"
  by (induction es arbitrary: c) (auto simp: Let_def)

lemma listOne_queue:
  assumes contract: "retry_contract pretry"
  shows "queueOK (chQueue c) \<Longrightarrow> queueOK (chQueue (snd (listOne K view E pretry n g ct c)))"
proof (induction n arbitrary: ct c)
  case (Suc n)
  obtain err p where rl: "retryableList K view E pretry g (emptyOptions\<lparr>loLimit := 100, loContinue := ct\<rparr>) (chHist c) = (err, p)"
    by force
  let ?c = "c\<lparr>chHist := pgHist p, chFault := pgFault p\<rparr>"
  show ?case
  proof (cases err)
    case None
    from retryableList_success [OF contract rl [unfolded None]] obtain l where
      "pageOf K view l = Some (pgResult p, pgCont p)" by blast
    then have "\<forall>e \<in> set (pgResult p). isSnapshot e" using pageOf_snapshots by (auto simp: isSnapshot_def)
    then have "queueOK (chQueue (snd (sendAll E (pgResult p) ?c)))" using Suc.prems by (intro sendAll_queue) auto
    moreover obtain b c1 where "sendAll E (pgResult p) ?c = (b, c1)" by force
    ultimately show ?thesis using None rl Suc.IH by (cases b) auto
  qed (use rl Suc.prems in auto)
qed simp

lemma listEach_queue:
  assumes contract: "retry_contract pretry"
  shows "queueOK (chQueue c) \<Longrightarrow> queueOK (chQueue (listEach K view E pretry n gs c))"
proof (induction gs arbitrary: c)
  case (Cons g gs)
  obtain err c1 where lo: "listOne K view E pretry n g [] c = (err, c1)" by force
  have "queueOK (chQueue c1)" using listOne_queue [OF contract Cons.prems, of K view E n g "[]"] lo by simp
  with lo Cons.IH show ?case by (cases err) (auto simp: sendErr_def Let_def)
qed simp

section \<open>Each object once\<close>

definition relInv :: "renv \<Rightarrow> lhist \<Rightarrow> rtype \<Rightarrow> bool" where
  "relInv E h0 s \<longleftrightarrow>
     (\<exists>seg. rtHist s = h0 @ seg \<and> map uid (putsOf seg) = seen s \<and> distinct (seen s) \<and>
        (\<forall>e \<in> set (putsOf seg). isSnapshot e) \<and> (\<forall>e. LPut e False \<in> set seg \<longrightarrow> \<not> live E (rtHist s)))"

lemma not_live_append: "\<not> live E h \<Longrightarrow> \<not> live E (h @ h')"
  using live_prefix by blast

lemma relInv_extend:
  assumes "relInv E h0 s" and "putsOf h = []"
  shows "relInv E h0 (s\<lparr>rtHist := rtHist s @ h\<rparr>)"
proof -
  from assms(1) obtain seg where seg: "rtHist s = h0 @ seg" "map uid (putsOf seg) = seen s" "distinct (seen s)"
    "\<forall>e \<in> set (putsOf seg). isSnapshot e" "\<forall>e. LPut e False \<in> set seg \<longrightarrow> \<not> live E (rtHist s)"
    by (auto simp: relInv_def)
  moreover have "LPut e False \<notin> set h" for e using putsOf_set [of e False h] assms(2) by auto
  ultimately show ?thesis
    unfolding relInv_def using assms(2) not_live_append [of E "rtHist s" h]
    by (intro exI [where x = "seg @ h"]) auto
qed

lemma relInv_put:
  assumes ctx: "ctxStays E" and "relInv E h0 s" and "isSnapshot e" and "uid e \<notin> set (seen s)"
    and ok: "ok = rPutOut E (rtHist s) e"
  shows "relInv E h0 (s\<lparr>seen := seen s @ [uid e], rtHist := rtHist s @ [LPut e ok]\<rparr>)"
proof -
  from assms(2) obtain seg where seg: "rtHist s = h0 @ seg" "map uid (putsOf seg) = seen s" "distinct (seen s)"
    "\<forall>e \<in> set (putsOf seg). isSnapshot e" "\<forall>e. LPut e False \<in> set seg \<longrightarrow> \<not> live E (rtHist s)"
    by (auto simp: relInv_def)
  have "\<not> ok \<Longrightarrow> \<not> live E (rtHist s @ [LPut e ok])"
    using live_puts [OF ctx, of "rtHist s" e "[]"] ok by auto
  then have dead: "\<forall>e'. LPut e' False \<in> set (seg @ [LPut e ok]) \<longrightarrow> \<not> live E (rtHist s @ [LPut e ok])"
    using seg(5) not_live_append by auto
  show ?thesis
    unfolding relInv_def
  proof (intro exI [where x = "seg @ [LPut e ok]"] conjI)
    show "distinct (seen (s\<lparr>seen := seen s @ [uid e], rtHist := rtHist s @ [LPut e ok]\<rparr>))"
      using seg(3) assms(4) by simp
    show "\<forall>e' \<in> set (putsOf (seg @ [LPut e ok])). isSnapshot e'" using seg(4) assms(3) by simp
    show "\<forall>e'. LPut e' False \<in> set (seg @ [LPut e ok]) \<longrightarrow>
        \<not> live E (rtHist (s\<lparr>seen := seen s @ [uid e], rtHist := rtHist s @ [LPut e ok]\<rparr>))"
      using dead by simp
  qed (use seg in simp_all)
qed

lemma ctxErr_inv: "relInv E h0 s \<Longrightarrow> ctxErr E s = (r, s') \<Longrightarrow> relInv E h0 s'"
  using relInv_extend [of E h0 s "[LDone r]"] by (auto simp: ctxErr_def Let_def)

lemma forward_inv:
  assumes ctx: "ctxStays E"
  shows "relInv E h0 s \<Longrightarrow> queueOK q \<Longrightarrow> relInv E h0 (snd (forward E q s))"
proof (induction q arbitrary: s)
  case Nil
  then show ?case using ctxErr_inv by (auto split: prod.split option.split)
next
  case (Cons x ch)
  show ?case
  proof (cases x)
    case (Inl err)
    with Cons.prems show ?thesis by simp
  next
    case (Inr entry)
    show ?thesis
    proof (cases "uid entry \<in> set (seen s)")
      case True
      with Inr Cons show ?thesis by simp
    next
      case False
      let ?ok = "rPutOut E (rtHist s) entry"
      let ?s = "s\<lparr>seen := seen s @ [uid entry], rtHist := rtHist s @ [LPut entry ?ok]\<rparr>"
      have inv: "relInv E h0 ?s" using Cons.prems False Inr by (intro relInv_put [OF ctx]) auto
      show ?thesis
      proof (cases ?ok)
        case True
        with Cons inv False Inr show ?thesis by (simp add: Let_def)
      next
        case nok: False
        obtain r s1 where "ctxErr E ?s = (r, s1)" by force
        with ctxErr_inv [OF inv this] nok False Inr show ?thesis by (simp add: Let_def)
      qed
    qed
  qed
qed

lemma forward_last:
  assumes ctx: "ctxStays E"
  shows "relInv E h0 s \<Longrightarrow> queueOK q \<Longrightarrow> forward E q s = (None, s') \<Longrightarrow>
    \<exists>s2. relInv E h0 s2 \<and> ctxErr E s2 = (None, s')"
proof (induction q arbitrary: s)
  case Nil
  then show ?case by (auto split: prod.splits option.splits)
next
  case (Cons x ch)
  then obtain entry where x: "x = Inr entry" by (cases x) auto
  show ?case
  proof (cases "uid entry \<in> set (seen s)")
    case True
    with x Cons show ?thesis by simp
  next
    case False
    let ?ok = "rPutOut E (rtHist s) entry"
    let ?s = "s\<lparr>seen := seen s @ [uid entry], rtHist := rtHist s @ [LPut entry ?ok]\<rparr>"
    have inv: "relInv E h0 ?s" using Cons.prems False x by (intro relInv_put [OF ctx]) auto
    have "?ok \<and> forward E ch ?s = (None, s')"
      using Cons.prems(3) False x by (auto simp: Let_def split: if_splits prod.splits)
    with Cons.IH [of ?s] inv Cons.prems(2) x show ?thesis by auto
  qed
qed

text \<open>A success: no error was on the channel, everything on it is accounted for, and the context is
  still live.\<close>

lemma forward_success:
  "forward E q s = (None, s') \<Longrightarrow>
     (\<forall>err. Inl err \<notin> set q) \<and> (\<forall>e. Inr e \<in> set q \<longrightarrow> uid e \<in> set (seen s')) \<and> set (seen s) \<subseteq> set (seen s') \<and>
     (\<exists>h. rtHist s' = rtHist s @ h @ [LDone None] \<and> rCtxErr E (rtHist s @ h) = None)"
proof (induction E q s rule: forward.induct)
  case (1 E s)
  then show ?case by (auto simp: ctxErr_def Let_def split: option.splits)
next
  case (3 E entry ch s)
  show ?case
  proof (cases "uid entry \<in> set (seen s)")
    case True
    with 3 show ?thesis by auto
  next
    case False
    let ?s = "s\<lparr>seen := seen s @ [uid entry], rtHist := rtHist s @ [LPut entry True]\<rparr>"
    have ok: "rPutOut E (rtHist s) entry" "forward E ch ?s = (None, s')"
      using 3(3) False by (auto simp: Let_def split: if_splits prod.splits)
    from 3(2) [OF False refl] ok have IH: "\<forall>err. Inl err \<notin> set ch" "\<forall>e. Inr e \<in> set ch \<longrightarrow> uid e \<in> set (seen s')"
      "set (seen ?s) \<subseteq> set (seen s')"
      "\<exists>h. rtHist s' = rtHist ?s @ h @ [LDone None] \<and> rCtxErr E (rtHist ?s @ h) = None" by auto
    then obtain h where "rtHist s' = rtHist ?s @ h @ [LDone None]" "rCtxErr E (rtHist ?s @ h) = None" by blast
    with IH show ?thesis by (auto intro!: exI [where x = "LPut entry True # h"])
  qed
qed simp

section \<open>A relist\<close>

lemma listAll_spec:
  assumes contract: "retry_contract pretry"
  shows "queueOK (chQueue (listAll K view E pretry n gs h)) \<and>
    (\<exists>h0. chHist (listAll K view E pretry n gs h) = h @ h0 \<and> putsOf h0 = [])"
proof (cases "rSubmit E h")
  case True
  let ?c = "\<lparr>chQueue = [], chFault = NoFault, chHist = h @ [LSubmit True]\<rparr>"
  have "queueOK (chQueue ?c)" by simp
  from listEach_queue [OF contract this] listEach_hist [OF contract, of K view E n gs ?c] True
  show ?thesis by (auto simp: listAll_def)
qed (simp add: listAll_def Let_def)

lemma relistAttempt_inv:
  assumes contract: "retry_contract pretry" and ctx: "ctxStays E" and "relInv E h0 s"
  shows "relInv E h0 (snd (relistAttempt K view E pretry n S rt s))"
proof -
  obtain r s1 where s1: "ctxErr E s = (r, s1)" by force
  have inv1: "relInv E h0 s1" using ctxErr_inv [OF assms(3) s1] .
  show ?thesis
  proof (cases "r = None \<and> makePagers S rt \<noteq> None")
    case False
    with s1 inv1 show ?thesis
      by (auto simp: relistAttempt_def Relister_List_def split: option.split)
  next
    case True
    then obtain gs where gs: "makePagers S rt = Some gs" by blast
    let ?c = "listAll K view E pretry n gs (rtHist s1)"
    from listAll_spec [OF contract, of K view E n gs "rtHist s1"] obtain h1 where
      q: "queueOK (chQueue ?c)" and h1: "chHist ?c = rtHist s1 @ h1" "putsOf h1 = []" by blast
    let ?s = "s1\<lparr>rtHist := chHist ?c\<rparr>"
    have inv2: "relInv E h0 ?s" using relInv_extend [OF inv1 h1(2)] h1(1) by simp
    then have "relInv E h0 (?s\<lparr>rtFault := f\<rparr>)" for f by (simp add: relInv_def)
    with forward_inv [OF ctx inv2 q] s1 True gs show ?thesis
      by (simp add: relistAttempt_def Relister_List_def Let_def)
  qed
qed

text \<open>Whatever happens, each object is put on the output at most once, as a snapshot.\<close>

lemma relistType_inv:
  assumes "retry_contract pretry" and "retry_contract retry" and "ctxStays E"
  shows "relInv E h (snd (relistType K view E pretry retry n S rt h))"
  unfolding relistType_def
proof (rule retry_inv [OF assms(2)])
  show "relInv E h \<lparr>seen = [], rtFault = NoFault, rtHist = h\<rparr>" by (simp add: relInv_def)
qed (rule relistAttempt_inv [OF assms(1,3)])

text \<open>And a relist without an error has sent all objects of a complete list of each resource. Its last
  attempt listed everything and forwarded the whole list.\<close>

lemma relistAttempt_success:
  assumes "relistAttempt K view E pretry n S rt s0 = (None, s)"
  obtains s1 gs c where "ctxErr E s0 = (None, s1)" and "makePagers S rt = Some gs"
    and "c = listAll K view E pretry n gs (rtHist s1)" and "chFault c = NoFault"
    and "forward E (chQueue c) (s1\<lparr>rtHist := chHist c\<rparr>) = (None, s)"
proof -
  obtain s1 where s1: "ctxErr E s0 = (None, s1)"
    using assms by (auto simp: relistAttempt_def split: prod.splits option.splits)
  obtain gs where gs: "makePagers S rt = Some gs"
    using assms s1 by (auto simp: relistAttempt_def Relister_List_def split: option.splits)
  from that [OF s1 gs refl] assms show ?thesis
    using s1 gs by (auto simp: relistAttempt_def Relister_List_def Let_def split: if_splits)
qed

text \<open>What such an attempt listed: a chain of pages for each resource, all of it on the channel.\<close>

lemma listAll_complete:
  assumes contract: "retry_contract pretry" and ctx: "ctxStays E"
    and c: "c = listAll K view E pretry n gs h" and "chFault c = NoFault"
    and errs: "\<forall>err. Inl err \<notin> set (chQueue c)" and "live E (chHist c)"
  shows "\<exists>ess. list_all2 (\<lambda>g es. \<exists>ls. pageChain K view (chHist c) g [] ls es) gs ess \<and>
    chQueue c = map Inr (concat ess)"
proof -
  have "rSubmit E h" using errs c by (auto simp: listAll_def Let_def split: if_splits)
  then have "listEach K view E pretry n gs \<lparr>chQueue = [], chFault = NoFault, chHist = h @ [LSubmit True]\<rparr> = c"
    using c by (simp add: listAll_def)
  from listEach_complete [OF contract ctx this assms(4-6)] show ?thesis by auto
qed

text \<open>What it sent, counted from the first attempt on.\<close>

lemma relistAttempt_sent:
  assumes contract: "retry_contract pretry" and ctx: "ctxStays E" and inv: "relInv E h s1"
    and c: "c = listAll K view E pretry n gs (rtHist s1)"
    and fw: "forward E (chQueue c) (s1\<lparr>rtHist := chHist c\<rparr>) = (None, s)"
  shows "\<exists>seg. rtHist s = h @ seg \<and> map uid (putsOf seg) = seen s \<and> distinct (seen s) \<and> (\<forall>e. LPut e False \<notin> set seg)"
proof -
  from listAll_spec [OF contract, of K view E n gs "rtHist s1"] c obtain h2 where
    h2: "queueOK (chQueue c)" "chHist c = rtHist s1 @ h2" "putsOf h2 = []" by blast
  then have "relInv E h (s1\<lparr>rtHist := chHist c\<rparr>)" using relInv_extend [OF inv h2(3)] by simp
  from forward_last [OF ctx this h2(1) fw] obtain s2 where
    s2: "relInv E h s2" "ctxErr E s2 = (None, s)" by blast
  then obtain seg where seg: "rtHist s2 = h @ seg" "map uid (putsOf seg) = seen s2" "distinct (seen s2)"
    "\<forall>e. LPut e False \<in> set seg \<longrightarrow> \<not> live E (rtHist s2)" by (auto simp: relInv_def)
  have "live E (rtHist s2)" "s = s2\<lparr>rtHist := rtHist s2 @ [LDone None]\<rparr>"
    using s2(2) by (auto simp: ctxErr_def Let_def live_def intro: exI [where x = "[]"])
  with seg show ?thesis by (intro exI [where x = "seg @ [LDone None]"]) auto
qed

lemma relistType_complete:
  assumes contract: "retry_contract pretry" and rcontract: "retry_contract retry" and ctx: "ctxStays E"
    and "relistType K view E pretry retry n S rt h = (None, s)"
  shows "\<exists>gs ess sent. makePagers S rt = Some gs \<and>
    list_all2 (\<lambda>g es. \<exists>ls. pageChain K view (rtHist s) g [] ls es) gs ess \<and>
    (\<exists>seg. rtHist s = h @ seg \<and> putsOf seg = sent \<and> (\<forall>e. LPut e False \<notin> set seg)) \<and>
    distinct (map uid sent) \<and> (\<forall>e \<in> set (concat ess). uid e \<in> uid ` set sent)"
proof -
  have "relInv E h \<lparr>seen = [], rtFault = NoFault, rtHist = h\<rparr>" by (simp add: relInv_def)
  from retry_success [where I = "relInv E h", OF rcontract assms(4) [unfolded relistType_def] this
      relistAttempt_inv [OF contract ctx]]
  obtain s0 where inv0: "relInv E h s0" and att: "relistAttempt K view E pretry n S rt s0 = (None, s)" by blast
  from relistAttempt_success [OF att] obtain s1 gs c where s1: "ctxErr E s0 = (None, s1)" and gs: "makePagers S rt = Some gs"
    and c: "c = listAll K view E pretry n gs (rtHist s1)" and nf: "chFault c = NoFault"
    and fw: "forward E (chQueue c) (s1\<lparr>rtHist := chHist c\<rparr>) = (None, s)" by blast
  from forward_success [OF fw] obtain h1 where F: "\<forall>err. Inl err \<notin> set (chQueue c)"
    "\<forall>e. Inr e \<in> set (chQueue c) \<longrightarrow> uid e \<in> set (seen s)"
    "rtHist s = chHist c @ h1 @ [LDone None]" "rCtxErr E (chHist c @ h1) = None" by auto
  then have "live E (chHist c)" by (auto simp: live_def)
  from listAll_complete [OF contract ctx c nf F(1) this] obtain ess where
    ess: "list_all2 (\<lambda>g es. \<exists>ls. pageChain K view (chHist c) g [] ls es) gs ess" "chQueue c = map Inr (concat ess)"
    by blast
  have "set (chHist c) \<subseteq> set (rtHist s)" unfolding F(3) by auto
  then have chains: "list_all2 (\<lambda>g es. \<exists>ls. pageChain K view (rtHist s) g [] ls es) gs ess"
    using pageChain_mono by (intro list_all2_mono [OF ess(1)]) blast
  have "relInv E h s1" using inv0 ctxErr_inv s1 by blast
  from relistAttempt_sent [OF contract ctx this c fw] obtain seg where seg: "rtHist s = h @ seg"
    "map uid (putsOf seg) = seen s" "distinct (seen s)" "\<forall>e. LPut e False \<notin> set seg" by blast
  have "uid e \<in> uid ` set (putsOf seg)" if "e \<in> set (concat ess)" for e
    using F(2) ess(2) that unfolding seg(2) [symmetric] by auto
  with gs chains seg show ?thesis by metis
qed

end
