(* ===== verification/Reader.thy ===== *)
theory Reader
  imports RelistSpec
begin

text \<open>
  The reader's life (\<^verbatim>\<open>watchlist.go\<close>): \<^verbatim>\<open>New\<close> with its options and the version of the server,
  \<^verbatim>\<open>SetOut\<close>, \<^verbatim>\<open>Run\<close>, \<^verbatim>\<open>Close\<close>. The mutex makes each of them one step. The reader is an instance of the
  interface \<^verbatim>\<open>tattler.Reader\<close>, stated as a locale.
\<close>

unbundle bit_operations_syntax

section \<open>The server's version\<close>

text \<open>\<^verbatim>\<open>unicode.IsDigit\<close> of a code point: the ASCII digits, and beyond Latin-1 what the tables of the
  standard library say, \<open>otherDigit\<close>. Go's \<^verbatim>\<open>int\<close> has 64 bits; a string is the list of its code points.\<close>

definition unicode_IsDigit :: "(nat \<Rightarrow> bool) \<Rightarrow> nat \<Rightarrow> bool" where
  "unicode_IsDigit otherDigit r = (if r < 256 then 48 \<le> r \<and> r \<le> 57 else otherDigit r)"

fun decimalLoop :: "(nat \<Rightarrow> bool) \<Rightarrow> u64 \<Rightarrow> nat list \<Rightarrow> u64" where
  "decimalLoop otherDigit n [] = n"
| "decimalLoop otherDigit n (r # rs) =
     (if \<not> unicode_IsDigit otherDigit r then n
      else decimalLoop otherDigit (n * 10 + (of_nat r - 48)) rs)"

definition convertToDecimal :: "(nat \<Rightarrow> bool) \<Rightarrow> nat list \<Rightarrow> u64" where
  "convertToDecimal otherDigit s = decimalLoop otherDigit 0 s"

definition majorMinor :: "(nat \<Rightarrow> bool) \<Rightarrow> gerr + nat list \<times> nat list \<Rightarrow> gerr + u64 \<times> u64" where
  "majorMinor otherDigit version =
     (case version of
        Inl err \<Rightarrow> Inl (Wrap ''can't determine k8 version'' [err])
      | Inr (major, minor) \<Rightarrow> Inr (convertToDecimal otherDigit major, convertToDecimal otherDigit minor))"

section \<open>Construction\<close>

record reader =
  rdTypes :: u32
  rdRelistInterval :: int           \<comment> \<open>nanoseconds\<close>
  rdBookmarking :: bool
  rdBookmarkStore :: bool
  rdDataCh :: "nat option"
  rdStarted :: bool
  rdCancelled :: bool               \<comment> \<open>the spawner's context\<close>
  rdWatchesCancelled :: bool
  rdCloseChClosed :: bool
  rdSpawnChClosed :: bool
  rdRelisting :: bool
  rdJobs :: "job list"              \<comment> \<open>the handler goroutines\<close>

definition hour :: int where
  "hour = 60 * 60 * 1000000000"

definition WithRelist :: "int \<Rightarrow> reader \<Rightarrow> gerr + reader" where
  "WithRelist d c =
     (if d < 1 * hour then Inl (Msg ''relist duration must be at least 1 hour'')
      else if d > 7 * 24 * hour then Inl (Msg ''relist duration must be less than 7 days'')
      else Inr (c\<lparr>rdRelistInterval := d\<rparr>))"

text \<open>\<open>isNil\<close>: the store passed is a nil interface.\<close>

definition WithBookmarkStore :: "bool \<Rightarrow> reader \<Rightarrow> gerr + reader" where
  "WithBookmarkStore isNil c =
     (if isNil then Inl (Msg ''bookmark store is nil'') else Inr (c\<lparr>rdBookmarkStore := True\<rparr>))"

fun applyAll :: "(reader \<Rightarrow> gerr + reader) list \<Rightarrow> reader \<Rightarrow> gerr + reader" where
  "applyAll [] r = Inr r"
| "applyAll (opt # opts) r = (case opt r of Inl err \<Rightarrow> Inl err | Inr r \<Rightarrow> applyAll opts r)"

text \<open>\<^verbatim>\<open>relist.New\<close> fails only without a clientset.\<close>

definition Relister_New :: "bool \<Rightarrow> gerr option" where
  "Relister_New clientset = (if \<not> clientset then Some (Msg ''clientset is nil'') else None)"

text \<open>The loop over the 32 bits of the mask: the first bit that is set and is no flag.\<close>

fun checkBits :: "u32 \<Rightarrow> nat list \<Rightarrow> u32 option" where
  "checkBits retrieveTypes [] = None"
| "checkBits retrieveTypes (i # is) =
     (let b = push_bit i 1 in
      if retrieveTypes AND b \<noteq> 0 \<and> \<not> Retrieve_Valid b then Some b else checkBits retrieveTypes is)"

definition Reader_New :: "(nat \<Rightarrow> bool) \<Rightarrow> bool \<Rightarrow> gerr + nat list \<times> nat list \<Rightarrow> u32 \<Rightarrow> (reader \<Rightarrow> gerr + reader) list \<Rightarrow>
    gerr option \<Rightarrow> gerr + reader" where
  "Reader_New otherDigit clientset version retrieveTypes opts taskErr =
     (if \<not> clientset then Inl (Msg ''clientset is nil'')
      else case Relister_New clientset of
        Some err \<Rightarrow> Inl (Msg ''error creating relister'')
      | None \<Rightarrow>
          (case majorMinor otherDigit version of
             Inl err \<Rightarrow> Inl err
           | Inr (major, minor) \<Rightarrow>
               if retrieveTypes = 0 then Inl (Msg ''no data types to retrieve'')
               else if checkBits retrieveTypes [0..<32] \<noteq> None then Inl (Msg ''unknown data type to retrieve'')
               else
                 (case applyAll opts
                     \<lparr>rdTypes = retrieveTypes, rdRelistInterval = -1, rdBookmarking = False, rdBookmarkStore = False,
                      rdDataCh = None, rdStarted = False, rdCancelled = False, rdWatchesCancelled = False,
                      rdCloseChClosed = False, rdSpawnChClosed = False, rdRelisting = False, rdJobs = []\<rparr> of
                    Inl err \<Rightarrow> Inl err
                  | Inr r \<Rightarrow>
                      (let r = (if sint major \<noteq> 1 \<or> sint minor \<ge> 29 then r\<lparr>rdBookmarking := True\<rparr> else r) in
                       case taskErr of
                         Some err \<Rightarrow> Inl (Wrap ''error starting the watcher spawner'' [err])
                       | None \<Rightarrow> Inr r))))"

section \<open>Operations\<close>

definition SetOut :: "reader \<Rightarrow> nat option \<Rightarrow> gerr option \<times> reader" where
  "SetOut r out =
     (if rdStarted r then (Some (Msg ''cannot call SetOut once the Reader has had Start() called''), r)
      else (None, r\<lparr>rdDataCh := out\<rparr>))"

text \<open>The body of the loop of \<^verbatim>\<open>Run\<close> over the flags.\<close>

definition runStep :: "k8s \<Rightarrow> env \<Rightarrow> (string \<times> hist) retry \<Rightarrow> schemes \<Rightarrow> reader \<Rightarrow> u32 \<Rightarrow>
    job list \<times> gerr option \<times> sstate \<Rightarrow> bool \<times> job list \<times> gerr option \<times> sstate" where
  "runStep K E check S r rt x =
     (let (js, err, s) = x in
      if rdTypes r AND rt = rt then
        (let (js', err, s) = startWatch K E check S (rdBookmarking r) (rdBookmarkStore r) rt s
         in (err = None, js @ js', err, s))
      else (True, js, err, s))"

definition relistTask :: "reader \<Rightarrow> reader" where
  "relistTask r = (if rdRelistInterval r \<le> 0 then r else r\<lparr>rdRelisting := True\<rparr>)"

text \<open>A failed \<^verbatim>\<open>Run\<close> cancels the watchers it has started and waits for them, so none is left.\<close>

definition Run :: "k8s \<Rightarrow> env \<Rightarrow> (string \<times> hist) retry \<Rightarrow> schemes \<Rightarrow> reader \<Rightarrow> sstate \<Rightarrow> gerr option \<times> reader \<times> sstate" where
  "Run K E check S r s =
     (if rdStarted r then (Some (Msg ''cannot call Run once the Reader has already started''), r, s)
      else if rdDataCh r = None then (Some (Msg ''cannot call Run if SetOut has not been called''), r, s)
      else
        (let r = r\<lparr>rdWatchesCancelled := False\<rparr>;
             (js, err, s) = ListRetrieve (runStep K E check S r) ([], None, s)
         in
         case err of
           Some e \<Rightarrow> (Some e, r\<lparr>rdWatchesCancelled := True, rdJobs := []\<rparr>, s)
         | None \<Rightarrow> (None, (relistTask (r\<lparr>rdJobs := js\<rparr>))\<lparr>rdStarted := True\<rparr>, s)))"

text \<open>\<open>waitErr\<close> is what waiting for the watchers returned.\<close>

definition Close :: "reader \<Rightarrow> gerr option \<Rightarrow> gerr option outcome \<times> reader" where
  "Close r waitErr =
     (if \<not> rdStarted r then (Ret (Some (Msg ''cannot call Close before Run is called'')), r)
      else if rdCloseChClosed r then (Panic ''close of closed channel'', r)
      else
        (let r = r\<lparr>rdCloseChClosed := True, rdCancelled := True, rdWatchesCancelled := True\<rparr>;
             res = (case waitErr of Some err \<Rightarrow> Some (Wrap ''watchers stopped with errors'' [err]) | None \<Rightarrow> None)
         in
         if rdSpawnChClosed r then (Panic ''close of closed channel'', r)
         else (Ret res, r\<lparr>rdSpawnChClosed := True\<rparr>)))"

section \<open>Versions\<close>

lemma unicode_IsDigit_ascii: "unicode_IsDigit od (of_char c) = isDecDigit c"
  by (simp add: unicode_IsDigit_def isDecDigit_def)

lemma decimalLoop_digits:
  "list_all isDecDigit ds \<Longrightarrow>
     decimalLoop od (of_nat m) (map of_char ds @ rs) =
       decimalLoop od (of_nat (foldl (\<lambda>n c. 10 * n + digitVal c) m ds)) rs"
proof (induction ds arbitrary: m)
  case (Cons d ds)
  then have d: "isDecDigit d" and ds: "list_all isDecDigit ds" by auto
  from d have "(48::nat) \<le> of_char d" by (simp add: isDecDigit_def)
  then have "(of_nat m :: u64) * 10 + (of_nat (of_char d) - 48) = of_nat (10 * m + digitVal d)"
    by (simp add: digitVal_def of_nat_diff mult.commute)
  with d Cons.IH [OF ds, of "10 * m + digitVal d"] show ?case
    by (simp add: unicode_IsDigit_ascii mult.commute)
qed simp

text \<open>A number with anything after it that is no digit: the number.\<close>

lemma convertToDecimal_prefix:
  assumes "list_all isDecDigit ds" and "rest = [] \<or> \<not> unicode_IsDigit od (hd rest)"
  shows "convertToDecimal od (map of_char ds @ rest) = of_nat (decVal ds)"
proof -
  have "decimalLoop od n rest = n" for n using assms(2) by (cases rest) auto
  with decimalLoop_digits [OF assms(1), of od 0 rest] show ?thesis
    by (simp add: convertToDecimal_def decVal_def)
qed

text \<open>A digit that is not ASCII is taken for one, but not for its value: the Arabic-Indic one (U+0661)
  counts as its distance from the ASCII zero.\<close>

lemma convertToDecimal_foreign_digit:
  assumes "od 1633" shows "convertToDecimal od [1633] = 1585"
  using assms by (simp add: convertToDecimal_def unicode_IsDigit_def)

lemma WithRelist_seven_days: "WithRelist (7 * 24 * hour) r = Inr (r\<lparr>rdRelistInterval := 7 * 24 * hour\<rparr>)"
  by (simp add: WithRelist_def hour_def)

section \<open>The mask\<close>

lemma checkBits_None:
  "checkBits m is = None \<longleftrightarrow> (\<forall>i \<in> set is. m AND push_bit i 1 \<noteq> 0 \<longrightarrow> Retrieve_Valid (push_bit i 1))"
  by (induction "is") (auto simp: Let_def)

lemma power_inj: "k < 32 \<Longrightarrow> (2 ^ i = (2 ^ k :: u32)) \<longleftrightarrow> i = k"
proof
  assume k: "k < 32" and eq: "(2 ^ i :: u32) = 2 ^ k"
  have "bit (2 ^ k :: u32) k" using k by (simp add: bit_exp_iff)
  then have "bit (2 ^ i :: u32) k" unfolding eq .
  then show "i = k" by (simp add: bit_exp_iff)
qed simp

lemma Valid_power: "Retrieve_Valid (2 ^ i) \<longleftrightarrow> i < 9"
  by (auto simp: Retrieve_Valid_power power_inj)

lemma one_bit: "push_bit i (1 :: u32) = 2 ^ i"
  by (simp add: push_bit_eq_mult)

lemma checkBits_iff: "checkBits m [0..<32] = None \<longleftrightarrow> unat m < 512"
proof -
  have "checkBits m [0..<32] = None \<longleftrightarrow> (\<forall>i < 32. bit m i \<longrightarrow> i < 9)"
    using flag_nonzero_iff_bit [of _ m]
    by (auto simp: checkBits_None one_bit Valid_power)
  also have "\<dots> \<longleftrightarrow> take_bit 9 m = m"
  proof
    assume high: "\<forall>i < 32. bit m i \<longrightarrow> i < 9"
    show "take_bit 9 m = m"
      by (rule bit_word_eqI) (use high in \<open>auto simp: bit_take_bit_iff\<close>)
  next
    assume eq: "take_bit 9 m = m"
    show "\<forall>i < 32. bit m i \<longrightarrow> i < 9"
      by (metis bit_take_bit_iff eq)
  qed
  also have "\<dots> \<longleftrightarrow> take_bit 9 (unat m) = unat m"
    by (metis unsigned_take_bit_eq unsigned_word_eqI)
  also have "\<dots> \<longleftrightarrow> unat m < 512"
    by (simp add: take_bit_nat_eq_self_iff)
  finally show ?thesis .
qed


lemma checkBits_bits: "checkBits m [0..<32] = None \<Longrightarrow> bit m k \<Longrightarrow> k < 9"
  using flag_nonzero_iff_bit [of k m] bit_imp_le_length [of m k]
  by (auto simp: checkBits_None one_bit Valid_power)

text \<open>Which arguments \<^verbatim>\<open>New\<close> takes: some flag, and no bit that is not a flag.\<close>

lemma applyAll_frame:
  assumes "\<And>opt r r'. opt \<in> set opts \<Longrightarrow> opt r = Inr r' \<Longrightarrow> P r \<Longrightarrow> P r'"
    and "applyAll opts r = Inr r'" and "P r"
  shows "P r'"
  using assms
proof (induction opts arbitrary: r)
  case (Cons opt opts)
  then obtain r1 where r1: "opt r = Inr r1" "applyAll opts r1 = Inr r'" by (auto split: sum.splits)
  have "P r1" using Cons.prems(1) [of opt r r1] Cons.prems(3) r1(1) by simp
  with Cons.IH [of r1] Cons.prems(1) r1(2) show ?case by (metis list.set_intros(2))
qed simp

text \<open>The options of the package.\<close>

definition readerOption :: "(reader \<Rightarrow> gerr + reader) \<Rightarrow> bool" where
  "readerOption opt \<longleftrightarrow> (\<exists>d. opt = WithRelist d) \<or> (\<exists>isNil. opt = WithBookmarkStore isNil)"

definition freshReader :: "reader \<Rightarrow> bool" where
  "freshReader r \<longleftrightarrow> \<not> rdStarted r \<and> rdDataCh r = None \<and> rdJobs r = [] \<and> \<not> rdCloseChClosed r \<and>
     (rdRelistInterval r = -1 \<or> hour \<le> rdRelistInterval r \<and> rdRelistInterval r \<le> 7 * 24 * hour)"

lemma option_fresh: "readerOption opt \<Longrightarrow> opt r = Inr r' \<Longrightarrow> freshReader r \<and> rdTypes r = m \<Longrightarrow> freshReader r' \<and> rdTypes r' = m"
  by (auto simp: readerOption_def WithRelist_def WithBookmarkStore_def freshReader_def split: if_splits)

lemma Reader_New_Inr:
  assumes "Reader_New od clientset version m opts taskErr = Inr r" and "\<forall>opt \<in> set opts. readerOption opt"
  shows "m \<noteq> 0 \<and> unat m < 512 \<and> freshReader r \<and> rdTypes r = m \<and> clientset \<and> taskErr = None \<and>
    (\<exists>major minor. majorMinor od version = Inr (major, minor) \<and>
       (rdBookmarking r \<longrightarrow> sint major \<noteq> 1 \<or> 29 \<le> sint minor))"
proof -
  let ?r0 = "\<lparr>rdTypes = m, rdRelistInterval = -1, rdBookmarking = False, rdBookmarkStore = False,
    rdDataCh = None, rdStarted = False, rdCancelled = False, rdWatchesCancelled = False,
    rdCloseChClosed = False, rdSpawnChClosed = False, rdRelisting = False, rdJobs = []\<rparr>"
  obtain major minor r1 where "clientset" "taskErr = None" "majorMinor od version = Inr (major, minor)" "m \<noteq> 0"
    "checkBits m [0..<32] = None" "applyAll opts ?r0 = Inr r1"
    "r = (if sint major \<noteq> 1 \<or> sint minor \<ge> 29 then r1\<lparr>rdBookmarking := True\<rparr> else r1)"
    using assms(1) by (auto simp: Reader_New_def Relister_New_def Let_def split: if_splits sum.splits option.splits)
  moreover from this applyAll_frame [of opts "\<lambda>r. freshReader r \<and> rdTypes r = m" ?r0 r1] option_fresh assms(2)
  have "freshReader r1 \<and> rdTypes r1 = m" by (auto simp: freshReader_def)
  moreover have "rdBookmarking r1 = False"
  proof -
    have "\<not> rdBookmarking r'" if "opt \<in> set opts" "opt r = Inr r'" "\<not> rdBookmarking r" for opt r r'
    proof -
      have "readerOption opt" using that(1) assms(2) by blast
      then show ?thesis using that(2,3)
        by (auto simp: readerOption_def WithRelist_def WithBookmarkStore_def split: if_splits)
    qed
    with applyAll_frame [of opts "\<lambda>r. \<not> rdBookmarking r" ?r0 r1] \<open>applyAll opts ?r0 = Inr r1\<close> show ?thesis by auto
  qed
  ultimately show ?thesis
    using checkBits_iff by (auto simp: freshReader_def)
qed

section \<open>The interface tattler.Reader\<close>

text \<open>What the runner relies on: a reader that runs refuses \<^verbatim>\<open>SetOut\<close> and \<^verbatim>\<open>Run\<close> and is not changed by
  them, \<^verbatim>\<open>Run\<close> without an error starts it, and \<^verbatim>\<open>Run\<close> with an error does not.\<close>

locale tattlerReader =
  fixes setOut :: "'r \<Rightarrow> nat option \<Rightarrow> gerr option \<times> 'r"
    and run :: "'r \<Rightarrow> 'w \<Rightarrow> gerr option \<times> 'r \<times> 'w"
    and isStarted :: "'r \<Rightarrow> bool"
  assumes setOut_started: "isStarted r \<Longrightarrow> \<exists>e. setOut r out = (Some e, r)"
    and setOut_keeps: "isStarted (snd (setOut r out)) = isStarted r"
    and run_started: "isStarted r \<Longrightarrow> \<exists>e. run r w = (Some e, r, w)"
    and run_ok: "run r w = (None, r', w') \<Longrightarrow> isStarted r'"
    and run_fail: "run r w = (Some e, r', w') \<Longrightarrow> isStarted r' = isStarted r"

interpretation watchlist: tattlerReader SetOut "Run K E check S" rdStarted for K E check S
proof unfold_locales
  fix r out show "rdStarted r \<Longrightarrow> \<exists>e. SetOut r out = (Some e, r)" by (simp add: SetOut_def)
next
  fix r out show "rdStarted (snd (SetOut r out)) = rdStarted r" by (simp add: SetOut_def)
next
  fix r w show "rdStarted r \<Longrightarrow> \<exists>e. Run K E check S r w = (Some e, r, w)" by (simp add: Run_def)
next
  fix r w r' w' assume "Run K E check S r w = (None, r', w')"
  then show "rdStarted r'" by (auto simp: Run_def Let_def split: if_splits prod.splits option.splits)
next
  fix r w e r' w' assume "Run K E check S r w = (Some e, r', w')"
  then show "rdStarted r' = rdStarted r"
    by (auto simp: Run_def Let_def split: if_splits prod.splits option.splits)
qed

section \<open>What Run starts\<close>

lemma startedOK_extend: "startedOK K g b j seg \<Longrightarrow> startedOK K g b j (a @ seg @ c)"
  by (auto simp: startedOK_def opensNext_extend split: option.splits)

text \<open>The jobs of some resources, in order, each started well.\<close>

definition jobsOK :: "k8s \<Rightarrow> env \<Rightarrow> bool \<Rightarrow> gvr list \<Rightarrow> job list \<Rightarrow> sstate \<Rightarrow> sstate \<Rightarrow> bool" where
  "jobsOK K E b gs js s s' \<longleftrightarrow>
     map jKey js = gs \<and> spawnerOK b (spw s') \<and>
     (\<exists>seg. sHist s' = sHist s @ seg \<and> quiet seg \<and>
        (\<forall>j \<in> set js. jSpec j = newWatchSpec E (jKey j) \<and> startedOK K (jKey j) b j seg \<and>
           handlerInv b (handlerInit (jVersion j) (jWatch j) s')))"

lemma handlerInit_spw:
  "handlerInv b (handlerInit rv w s) \<Longrightarrow> spawnerOK b (spw s') \<Longrightarrow> handlerInv b (handlerInit rv w s')"
  by (cases w) (simp_all add: handlerInv_def handlerInit_def)

lemma jobsOK_append:
  assumes "jobsOK K E b gs js s s1" and "jobsOK K E b gs' js' s1 s2"
  shows "jobsOK K E b (gs @ gs') (js @ js') s s2"
proof -
  from assms(1) obtain seg where 1: "map jKey js = gs" "sHist s1 = sHist s @ seg" "quiet seg"
    "\<forall>j \<in> set js. jSpec j = newWatchSpec E (jKey j) \<and> startedOK K (jKey j) b j seg \<and>
       handlerInv b (handlerInit (jVersion j) (jWatch j) s1)" by (auto simp: jobsOK_def)
  from assms(2) obtain seg' where 2: "map jKey js' = gs'" "sHist s2 = sHist s1 @ seg'" "quiet seg'" "spawnerOK b (spw s2)"
    "\<forall>j \<in> set js'. jSpec j = newWatchSpec E (jKey j) \<and> startedOK K (jKey j) b j seg' \<and>
       handlerInv b (handlerInit (jVersion j) (jWatch j) s2)" by (auto simp: jobsOK_def)
  show ?thesis
    unfolding jobsOK_def
  proof (intro conjI exI [where x = "seg @ seg'"] ballI)
    fix j assume j: "j \<in> set (js @ js')"
    have "startedOK K (jKey j) b j (seg @ seg')"
      using j 1(4) 2(5) startedOK_extend [of K "jKey j" b j seg "[]" seg']
        startedOK_extend [of K "jKey j" b j seg' seg "[]"] by auto
    moreover have "handlerInv b (handlerInit (jVersion j) (jWatch j) s2)"
      using j 1(4) 2(4,5) handlerInit_spw by auto
    ultimately show "jSpec j = newWatchSpec E (jKey j)" "startedOK K (jKey j) b j (seg @ seg')"
      "handlerInv b (handlerInit (jVersion j) (jWatch j) s2)"
      using j 1(4) 2(5) by auto
  qed (use 1 2 in auto)
qed

lemma jobsOK_quiet: "spawnerOK b (spw s) \<Longrightarrow> spw s' = spw s \<Longrightarrow> sHist s' = sHist s @ seg \<Longrightarrow> quiet seg \<Longrightarrow> jobsOK K E b [] [] s s'"
  by (auto simp: jobsOK_def)

lemma startSpecs_spec:
  assumes contract: "retry_contract check"
  shows "startSpecs K E check b st ws s = (js, None, s') \<Longrightarrow> \<forall>sp \<in> set ws. sp = newWatchSpec E (wsGvr sp) \<Longrightarrow>
    spawnerOK b (spw s) \<Longrightarrow> jobsOK K E b (map wsGvr ws) js s s'"
proof (induction ws arbitrary: s js)
  case Nil
  have "js = []" "s' = s" using Nil.prems(1) by simp_all
  with jobsOK_quiet [OF Nil.prems(3), of s "[]"] show ?case by simp
next
  case (Cons sp ws)
  let ?g = "wsGvr sp"
  have sp: "sp = newWatchSpec E ?g" by (rule bspec [OF Cons.prems(2) list.set_intros(1)])
  have new: "\<forall>sp \<in> set ws. sp = newWatchSpec E (wsGvr sp)" using Cons.prems(2) by (meson list.set_intros(2))
  obtain j s1 js1 where one: "startSpec K E check b st sp s = (Inr j, s1)"
    and rest: "startSpecs K E check b st ws s1 = (js1, None, s')" and js: "js = j # js1"
  proof -
    obtain r s1 where r: "startSpec K E check b st sp s = (r, s1)" by force
    obtain js1 e s2 where rest: "startSpecs K E check b st ws s1 = (js1, e, s2)" by (metis prod_cases3)
    from r rest Cons.prems(1) that show thesis by (cases r) auto
  qed
  obtain seg where seg: "sHist s1 = sHist s @ seg" "quiet seg" "startedOK K ?g b j seg"
    "jSpec j = newWatchSpec E ?g" "handlerInv b (handlerInit (jVersion j) (jWatch j) s1)"
    using startSpec_spec [OF contract _ Cons.prems(3), of K E st ?g j s1] one unfolding sp [symmetric] by blast
  have key: "jKey j = ?g" using seg(3) by (simp add: startedOK_def)
  have ok1: "spawnerOK b (spw s1)" using seg(5) by (simp add: handlerInv_def handlerInit_def)
  have "jobsOK K E b [?g] [j] s s1" using seg key ok1 by (auto simp: jobsOK_def)
  from jobsOK_append [OF this Cons.IH [OF rest new ok1]] js show ?case by simp
qed

lemma startWatch_spec:
  assumes contract: "retry_contract check" and mono: "ctxMonotone E"
    and "startWatch K E check S b st rt s = (js, None, s')" and ok: "spawnerOK b (spw s)"
  shows "\<exists>ws. watchSpecs E S rt = Some ws \<and> jobsOK K E b (map wsGvr ws) js s s'"
proof -
  obtain ws where ws: "watchSpecs E S rt = Some ws"
    using assms(3) by (auto simp: startWatch_def split: option.splits)
  have new: "\<forall>sp \<in> set ws. sp = newWatchSpec E (wsGvr sp)" using watchSpecs_new [OF ws] by blast
  obtain js1 err s1 where w: "watchAll K E check b st ws s = (js1, err, s1)" by (metis prod_cases3)
  have res: "js1 = js" "err = None" and s': "s' = s1\<lparr>sHist := sHist s1 @ [ACtx False, ACtx False]\<rparr>"
    and live: "\<not> envCtxDone E (sHist s1)"
    using assms(3) ws w mono [unfolded ctxMonotone_def, rule_format, of "sHist s1" "[ACtx True]"]
    by (auto simp: startWatch_def ctxDone_def Let_def split: bool.splits option.splits if_splits)
  have "\<not> envCtxDone E (sHist s)"
    using w live mono by (auto simp: watchAll_def ctxDone_def Let_def ctxMonotone_def)
  let ?s = "s\<lparr>sHist := sHist s @ [ACtx False]\<rparr>"
  have "startSpecs K E check b st ws ?s = (js, None, s1)"
    using w res \<open>\<not> envCtxDone E (sHist s)\<close> by (simp add: watchAll_def ctxDone_def Let_def)
  from startSpecs_spec [OF contract this new] ok have J: "jobsOK K E b (map wsGvr ws) js ?s s1" by simp
  have "jobsOK K E b [] [] s ?s" using jobsOK_quiet [OF ok, of ?s "[ACtx False]"] by simp
  from jobsOK_append [OF this J] have J2: "jobsOK K E b (map wsGvr ws) js s s1" by simp
  then have "spawnerOK b (spw s1)" by (simp add: jobsOK_def)
  from jobsOK_append [OF J2 jobsOK_quiet [OF this, of s' "[ACtx False, ACtx False]"]] s' ws show ?thesis by simp
qed

text \<open>The resources of a mask, in the order they are started.\<close>

definition selected :: "env \<Rightarrow> schemes \<Rightarrow> u32 \<Rightarrow> u32 list \<Rightarrow> gvr list" where
  "selected E S m rts =
     concat (map (\<lambda>rt. map wsGvr (the (watchSpecs E S rt))) (filter (\<lambda>rt. m AND rt = rt) rts))"

lemma runStep_all:
  assumes contract: "retry_contract check" and mono: "ctxMonotone E"
  shows "yieldAll (runStep K E check S r) rts (js, None, s) = (js', None, s') \<Longrightarrow>
    spawnerOK (rdBookmarking r) (spw s) \<Longrightarrow>
    \<exists>js2. js' = js @ js2 \<and> jobsOK K E (rdBookmarking r) (selected E S (rdTypes r) rts) js2 s s'"
proof (induction rts arbitrary: js s)
  case Nil
  then have "js' = js" "s' = s" by simp_all
  with jobsOK_quiet [OF Nil.prems(2), of s "[]"] show ?case by (simp add: selected_def)
next
  case (Cons rt rts)
  show ?case
  proof (cases "rdTypes r AND rt = rt")
    case False
    then have "runStep K E check S r rt (js, None, s) = (True, js, None, s)" by (simp add: runStep_def)
    with Cons.prems(1) have "yieldAll (runStep K E check S r) rts (js, None, s) = (js', None, s')" by simp
    from Cons.IH [OF this Cons.prems(2)] False show ?thesis by (simp add: selected_def)
  next
    case True
    obtain js1 err s1 where w: "startWatch K E check S (rdBookmarking r) (rdBookmarkStore r) rt s = (js1, err, s1)"
      by (metis prod_cases3)
    have step: "runStep K E check S r rt (js, None, s) = (err = None, js @ js1, err, s1)"
      using True w by (simp add: runStep_def)
    have err: "err = None" using Cons.prems(1) step by (cases err) auto
    with step Cons.prems(1) have rest: "yieldAll (runStep K E check S r) rts (js @ js1, None, s1) = (js', None, s')"
      by simp
    from startWatch_spec [OF contract mono w [unfolded err] Cons.prems(2)] obtain ws where
      ws: "watchSpecs E S rt = Some ws" "jobsOK K E (rdBookmarking r) (map wsGvr ws) js1 s s1" by blast
    then have "spawnerOK (rdBookmarking r) (spw s1)" by (simp add: jobsOK_def)
    from Cons.IH [OF rest this] obtain js2 where
      "js' = (js @ js1) @ js2" "jobsOK K E (rdBookmarking r) (selected E S (rdTypes r) rts) js2 s1 s'" by blast
    with jobsOK_append [OF ws(2)] ws(1) True show ?thesis
      by (intro exI [where x = "js1 @ js2"]) (simp add: selected_def)
  qed
qed

text \<open>A \<^verbatim>\<open>Run\<close> without an error has one handler for each resource of the mask.\<close>

lemma Run_spec:
  assumes contract: "retry_contract check" and mono: "ctxMonotone E"
    and "Run K E check S r s = (None, r', s')" and "spawnerOK (rdBookmarking r) (spw s)"
  shows "rdStarted r' \<and> jobsOK K E (rdBookmarking r) (selected E S (rdTypes r) retrieveFlags) (rdJobs r') s s' \<and>
    (rdRelisting r' \<longleftrightarrow> rdRelisting r \<or> 0 < rdRelistInterval r)"
proof -
  let ?r = "r\<lparr>rdWatchesCancelled := False\<rparr>"
  obtain js err s1 where l: "ListRetrieve (runStep K E check S ?r) ([], None, s) = (js, err, s1)" by (metis prod_cases3)
  have "err = None" "s1 = s'" and r': "r' = (relistTask (?r\<lparr>rdJobs := js\<rparr>))\<lparr>rdStarted := True\<rparr>"
    using assms(3) l by (auto simp: Run_def Let_def split: if_splits option.splits)
  with l have "yieldAll (runStep K E check S ?r) retrieveFlags ([], None, s) = (js, None, s')"
    by (simp add: ListRetrieve_yieldAll)
  from runStep_all [OF contract mono this] assms(4) have
    "jobsOK K E (rdBookmarking r) (selected E S (rdTypes r) retrieveFlags) js s s'" by simp
  with r' show ?thesis by (auto simp: relistTask_def)
qed

lemma Run_fail:
  "Run K E check S r s = (Some e, r', s') \<Longrightarrow> \<not> rdStarted r \<Longrightarrow> \<not> rdStarted r' \<and> (rdJobs r' = [] \<or> r' = r)"
  by (auto simp: Run_def Let_def split: if_splits prod.splits option.splits)

end
