(* ===== verification/Runner.thy ===== *)
theory Runner
  imports Pipeline Routing Metrics Reader
begin

text \<open>
  The package \<^verbatim>\<open>tattler\<close>: a \<^verbatim>\<open>Runner\<close> wires the stages together, takes readers and processors, and
  starts them. The readers are whatever implements the interface; the router is that of \<open>Routing\<close>.
  A channel is its number, \<open>fresh\<close> is the first unused one. \<^verbatim>\<open>New\<close> starts the goroutines of the stages;
  which ones run, on which channels, is part of its result.
\<close>

type_synonym chan = nat

datatype 'x task =
    PreprocessTask chan chan "'x processor list"
  | SecretsTask chan chan

record 'x runnerConf =
  rcBlocking :: bool
  rcPreProcessors :: "'x processor list option"   \<comment> \<open>\<open>None\<close> for a nil slice\<close>
  rcMeter :: "(string \<Rightarrow> gerr option) option"

section \<open>Options\<close>

type_synonym 'x runnerOption = "'x runnerConf \<Rightarrow> gerr + 'x runnerConf"

definition WithPreProcessor :: "'x processor list \<Rightarrow> 'x runnerOption" where
  "WithPreProcessor p c =
     Inr (c\<lparr>rcPreProcessors :=
       (case rcPreProcessors c of
          None \<Rightarrow> if p = [] then None else Some p
        | Some ps \<Rightarrow> Some (ps @ p))\<rparr>)"

definition Runner_WithBlocking :: "'x runnerOption" where
  "Runner_WithBlocking c = Inr (c\<lparr>rcBlocking := True\<rparr>)"

definition WithMeterProvider :: "(string \<Rightarrow> gerr option) option \<Rightarrow> 'x runnerOption" where
  "WithMeterProvider m c =
     (case m of None \<Rightarrow> Inl (Msg ''meter cannot be nil'') | Some _ \<Rightarrow> Inr (c\<lparr>rcMeter := m\<rparr>))"

section \<open>New\<close>

text \<open>\<^verbatim>\<open>preprocess.New\<close> and \<^verbatim>\<open>safety.New\<close>: they submit their loop to the pool. \<open>pool\<close> is the error of a
  pool that declines.\<close>

definition Preprocess_New :: "gerr option \<Rightarrow> chan \<Rightarrow> chan \<Rightarrow> 'x processor list \<Rightarrow> gerr + 'x task" where
  "Preprocess_New pool in_ch out procs =
     (case pool of
        Some cause \<Rightarrow> Inl (Wrap ''preprocess.New: could not start the runner'' [cause])
      | None \<Rightarrow> Inr (PreprocessTask in_ch out procs))"

definition Secrets_New :: "gerr option \<Rightarrow> chan option \<Rightarrow> chan option \<Rightarrow> (gerr + 'x task) outcome" where
  "Secrets_New pool in_ch out =
     (case (in_ch, out) of
        (Some i, Some q) \<Rightarrow>
          Ret (case pool of
                 Some cause \<Rightarrow> Inl (Wrap ''safety.New: could not start the scrubber'' [cause])
               | None \<Rightarrow> Inr (SecretsTask i q))
      | _ \<Rightarrow> Panic ''can't call Secrets.New() with a nil in or out channel'')"

record ('x, 'r) runner =
  rnInput :: chan
  rnRouter :: router
  rnTasks :: "'x task list"
  rnReaders :: "'r list"
  rnStarted :: bool

fun applyConf :: "'x runnerOption list \<Rightarrow> 'x runnerConf \<Rightarrow> gerr + 'x runnerConf" where
  "applyConf [] c = Inr c"
| "applyConf (opt # opts) c = (case opt c of Inl err \<Rightarrow> Inl err | Inr c \<Rightarrow> applyConf opts c)"

definition Runner_New :: "(eventType \<Rightarrow> string) \<Rightarrow> gerr option \<Rightarrow> gerr option \<Rightarrow> chan \<Rightarrow> chan option \<Rightarrow>
    'x runnerOption list \<Rightarrow> metricsState \<Rightarrow> (gerr + ('x, 'r) runner) outcome \<times> 'x task list \<times> metricsState" where
  "Runner_New printEv poolPre poolSec fresh in_ch options ms =
     (case in_ch of
        None \<Rightarrow> (Ret (Inl (Msg ''input channel cannot be nil'')), [], ms)
      | Some c \<Rightarrow>
          (case applyConf options \<lparr>rcBlocking = False, rcPreProcessors = None, rcMeter = None\<rparr> of
             Inl err \<Rightarrow> (Ret (Inl err), [], ms)
           | Inr conf \<Rightarrow>
               (case (case rcPreProcessors conf of
                        None \<Rightarrow> Inr ([], c)
                      | Some procs \<Rightarrow>
                          (case Preprocess_New poolPre c fresh procs of
                             Inl err \<Rightarrow> Inl err | Inr t \<Rightarrow> Inr ([t], fresh))) of
                  Inl err \<Rightarrow> (Ret (Inl err), [], ms)
                | Inr (ts, secretsIn) \<Rightarrow>
                    (case (case rcMeter conf of None \<Rightarrow> (None, ms) | Some m \<Rightarrow> Metrics_Init printEv m ms) of
                       (Some err, ms) \<Rightarrow> (Ret (Inl err), ts, ms)
                     | (None, ms) \<Rightarrow>
                         (let routerIn = fresh + 1 in
                          case Secrets_New poolSec (Some secretsIn) (Some routerIn) of
                            Panic m \<Rightarrow> (Panic m, ts, ms)
                          | Ret (Inl err) \<Rightarrow> (Ret (Inl err), ts, ms)
                          | Ret (Inr t) \<Rightarrow>
                              (let ts = ts @ [t];
                                   rOpts = (if rcBlocking conf then [Routing_WithBlocking] else [])
                               in
                               case Routing_New (Some routerIn) rOpts of
                                 Inl err \<Rightarrow> (Ret (Inl err), ts, ms)
                               | Inr router \<Rightarrow>
                                   (Ret (Inr \<lparr>rnInput = c, rnRouter = router, rnTasks = ts, rnReaders = [],
                                       rnStarted = False\<rparr>), ts, ms)))))))"

section \<open>Operations\<close>

text \<open>\<open>setOut\<close> and \<open>run\<close> are the reader's; \<open>'w\<close> is the world its \<^verbatim>\<open>Run\<close> works on.\<close>

definition AddReader :: "('r \<Rightarrow> nat option \<Rightarrow> gerr option \<times> 'r) \<Rightarrow> ('r \<Rightarrow> 'w \<Rightarrow> gerr option \<times> 'r \<times> 'w) \<Rightarrow>
    ('x, 'r) runner \<Rightarrow> 'r \<Rightarrow> 'w \<Rightarrow> gerr option \<times> ('x, 'r) runner \<times> 'w" where
  "AddReader setOut run r reader w =
     (case setOut reader (Some (rnInput r)) of
        (Some err, reader) \<Rightarrow> (Some (Wrap ''Reader.SetOut()'' [err]), r, w)
      | (None, reader) \<Rightarrow>
          if rnStarted r then
            (case run reader w of
               (Some err, reader, w) \<Rightarrow> (Some (Wrap ''Reader.Run()'' [err]), r, w)
             | (None, reader, w) \<Rightarrow> (None, r\<lparr>rnReaders := rnReaders r @ [reader]\<rparr>, w))
          else (None, r\<lparr>rnReaders := rnReaders r @ [reader]\<rparr>, w))"

definition AddProcessor :: "('x, 'r) runner \<Rightarrow> string \<Rightarrow> chan option \<Rightarrow> gerr option \<times> ('x, 'r) runner" where
  "AddProcessor r name in_ch =
     (case in_ch of
        None \<Rightarrow> (Some (Msg ''in cannot be nil''), r)
      | Some c \<Rightarrow>
          if rnStarted r then (Some (Msg ''cannot add a processor after Runner has started''), r)
          else
            (case Register (rnRouter r) name (Some c) of
               Inl err \<Rightarrow> (Some err, r)
             | Inr router \<Rightarrow> (None, r\<lparr>rnRouter := router\<rparr>)))"

fun runReaders :: "('r \<Rightarrow> 'w \<Rightarrow> gerr option \<times> 'r \<times> 'w) \<Rightarrow> 'r list \<Rightarrow> 'w \<Rightarrow> gerr option \<times> 'r list \<times> 'w" where
  "runReaders run [] w = (None, [], w)"
| "runReaders run (reader # rs) w =
     (case run reader w of
        (Some err, reader, w) \<Rightarrow> (Some (Wrap ''reader'' [err]), reader # rs, w)
      | (None, reader, w) \<Rightarrow> (case runReaders run rs w of (err, rs, w) \<Rightarrow> (err, reader # rs, w)))"

definition Start :: "('r \<Rightarrow> 'w \<Rightarrow> gerr option \<times> 'r \<times> 'w) \<Rightarrow> gerr option \<Rightarrow> ('x, 'r) runner \<Rightarrow> 'w \<Rightarrow>
    gerr option \<times> ('x, 'r) runner \<times> 'w" where
  "Start run taskErr r w =
     (case runReaders run (rnReaders r) w of
        (Some err, rs, w) \<Rightarrow> (Some err, r\<lparr>rnReaders := rs\<rparr>, w)
      | (None, rs, w) \<Rightarrow>
          (let r = r\<lparr>rnReaders := rs\<rparr> in
           case Router_Start taskErr (rnRouter r) of
             Inl err \<Rightarrow> (Some err, r, w)
           | Inr router \<Rightarrow> (None, r\<lparr>rnRouter := router, rnStarted := True\<rparr>, w)))"

section \<open>Wiring\<close>

text \<open>The wires: what a task reads and writes. The router's channel is written by the scrubber alone,
  and the only way from the input to it is through the preprocessors, if there are any, and the
  scrubber.\<close>

fun taskIn :: "'x task \<Rightarrow> chan" where
  "taskIn (PreprocessTask i q ps) = i"
| "taskIn (SecretsTask i q) = i"

fun taskOut :: "'x task \<Rightarrow> chan" where
  "taskOut (PreprocessTask i q ps) = q"
| "taskOut (SecretsTask i q) = q"

text \<open>The chain that \<^verbatim>\<open>New\<close> builds, as the pipeline models it.\<close>

definition wiredAs :: "'x processor list option \<Rightarrow> ('x, 'r) runner \<Rightarrow> bool" where
  "wiredAs ps r \<longleftrightarrow>
     (case ps of
        None \<Rightarrow> rnTasks r = [SecretsTask (rnInput r) (routerIn (rnRouter r))]
      | Some procs \<Rightarrow>
          (\<exists>mid. rnTasks r = [PreprocessTask (rnInput r) mid procs, SecretsTask mid (routerIn (rnRouter r))] \<and>
             mid \<noteq> rnInput r \<and> mid \<noteq> routerIn (rnRouter r))) \<and>
     routerIn (rnRouter r) \<noteq> rnInput r"

lemma Routing_New_runner:
  "Routing_New (Some c) (if b then [Routing_WithBlocking] else []) =
     Inr \<lparr>routerIn = c, routes = [], rStarted = False, rBlocking = b\<rparr>"
  by (simp add: Routing_New_def Routing_WithBlocking_def)

lemma Runner_New_wired:
  assumes new: "Runner_New printEv poolPre poolSec fresh (Some c) options ms = (Ret (Inr r), ts, ms')" and "c < fresh"
  shows "\<exists>conf. applyConf options \<lparr>rcBlocking = False, rcPreProcessors = None, rcMeter = None\<rparr> = Inr conf \<and>
    wiredAs (rcPreProcessors conf) r \<and> rnInput r = c \<and> rBlocking (rnRouter r) = rcBlocking conf \<and>
    routes (rnRouter r) = [] \<and> rnReaders r = [] \<and> \<not> rnStarted r \<and> ts = rnTasks r"
proof -
  obtain conf where conf: "applyConf options \<lparr>rcBlocking = False, rcPreProcessors = None, rcMeter = None\<rparr> = Inr conf"
    using new by (cases "applyConf options \<lparr>rcBlocking = False, rcPreProcessors = None, rcMeter = None\<rparr>")
      (simp_all add: Runner_New_def)
  obtain merr ms1 where m: "(case rcMeter conf of None \<Rightarrow> (None, ms) | Some m \<Rightarrow> Metrics_Init printEv m ms) = (merr, ms1)"
    by force
  note unfold_new = Runner_New_def Preprocess_New_def Secrets_New_def
  have poolS: "poolSec = None" and merr: "merr = None"
    using new by (cases poolSec; cases merr; cases poolPre; cases "rcPreProcessors conf";
        simp add: unfold_new conf m Let_def)+
  let ?router = "\<lparr>routerIn = fresh + 1, routes = [], rStarted = False, rBlocking = rcBlocking conf\<rparr>"
  have "wiredAs (rcPreProcessors conf) r \<and> rnInput r = c \<and> rnRouter r = ?router \<and>
      rnReaders r = [] \<and> \<not> rnStarted r \<and> ts = rnTasks r"
  proof (cases "rcPreProcessors conf")
    case None
    with new have "r = \<lparr>rnInput = c, rnRouter = ?router, rnTasks = [SecretsTask c (fresh + 1)], rnReaders = [],
        rnStarted = False\<rparr>" "ts = [SecretsTask c (fresh + 1)]"
      by (auto simp: unfold_new conf m Let_def poolS merr Routing_New_runner)
    with None assms(2) show ?thesis by (simp add: wiredAs_def)
  next
    case (Some procs)
    with new have poolP: "poolPre = None" by (cases poolPre) (simp_all add: unfold_new conf)
    from Some new have "r = \<lparr>rnInput = c, rnRouter = ?router,
        rnTasks = [PreprocessTask c fresh procs, SecretsTask fresh (fresh + 1)], rnReaders = [], rnStarted = False\<rparr>"
      "ts = [PreprocessTask c fresh procs, SecretsTask fresh (fresh + 1)]"
      by (auto simp: unfold_new conf m Let_def poolS poolP merr Routing_New_runner)
    with Some assms(2) show ?thesis by (simp add: wiredAs_def)
  qed
  with conf show ?thesis by (intro exI [where x = conf]) simp
qed

section \<open>Readers\<close>

context tattlerReader
begin

text \<open>After a start without an error every reader runs; after one with an error the readers before the
  failing one run.\<close>

lemma runReaders_started: "runReaders run rs w = (None, rs', w') \<Longrightarrow> list_all isStarted rs' \<and> length rs' = length rs"
  by (induction rs arbitrary: w rs') (auto dest: run_ok split: prod.splits option.splits)

lemma runReaders_refuses:
  assumes "list_all isStarted rs" and "rs \<noteq> []"
  shows "\<exists>e. runReaders run rs w = (Some e, rs, w)"
proof -
  obtain r rs' where rs: "rs = r # rs'" using assms(2) by (cases rs) auto
  with assms(1) obtain e where "run r w = (Some e, r, w)" using run_started by auto
  with rs show ?thesis by simp
qed

lemma Start_started:
  "Start run taskErr r w = (None, r', w') \<Longrightarrow>
     rnStarted r' \<and> list_all isStarted (rnReaders r') \<and> length (rnReaders r') = length (rnReaders r)"
  using runReaders_started [of "rnReaders r" w]
  by (auto simp: Start_def Let_def split: prod.splits option.splits sum.splits)

end

end
