(* ===== verification/RelistTask.thy ===== *)
theory RelistTask
  imports RelistSpec
begin

text \<open>
  The relist as a background task: the loop of \<^verbatim>\<open>relistTask\<close> of \<^verbatim>\<open>watchlist.go\<close>, which relists at every
  tick of its timer until the reader is closed; what a run of it sends; and that a relist ends on a
  server that stops handing out continue tokens.
\<close>

section \<open>The loop\<close>

text \<open>What the \<^verbatim>\<open>select\<close> sees, in order. The error of a relist is logged; a panic or a list without
  end takes the loop down. \<open>Waiting\<close> is a loop that sits in its \<^verbatim>\<open>select\<close>.\<close>

datatype signal = TimerFired | CloseSeen

datatype loopEnd = Waiting | Stopped | Faulted fault

fun relistLoop :: "k8s \<Rightarrow> (lobj \<Rightarrow> rlist option) \<Rightarrow> renv \<Rightarrow> page retry \<Rightarrow> rtype retry \<Rightarrow> nat \<Rightarrow> schemes \<Rightarrow> u32 \<Rightarrow>
    signal list \<Rightarrow> lhist \<Rightarrow> loopEnd \<times> lhist" where
  "relistLoop K view E pretry retry n S m [] h = (Waiting, h)"
| "relistLoop K view E pretry retry n S m (CloseSeen # sigs) h = (Stopped, h)"
| "relistLoop K view E pretry retry n S m (TimerFired # sigs) h =
     (case performRelist K view E pretry retry n S m h of
        (err, f, h) \<Rightarrow>
          if f \<noteq> NoFault then (Faulted f, h)
          else relistLoop K view E pretry retry n S m sigs h)"

section \<open>What it sends\<close>

definition snapshotPart :: "lhist \<Rightarrow> bool" where
  "snapshotPart seg \<longleftrightarrow> distinct (map uid (putsOf seg)) \<and>
     (\<forall>e \<in> set (putsOf seg). wf_entry e \<and> changeType e = CTSnapshot \<and> sourceType e = STWatchList)"

unbundle bit_operations_syntax

definition roundOK :: "u32 \<Rightarrow> lhist \<Rightarrow> bool" where
  "roundOK m seg \<longleftrightarrow>
     (\<exists>parts. seg = concat parts \<and> length parts \<le> length (filter (\<lambda>rt. m AND rt = rt) retrieveFlags) \<and>
        list_all snapshotPart parts)"

lemma relistType_part:
  assumes "retry_contract pretry" and "retry_contract retry" and "ctxStays E"
  shows "\<exists>seg. rtHist (snd (relistType K view E pretry retry n S rt h)) = h @ seg \<and> snapshotPart seg"
  using relistType_inv [OF assms, of h K view n S rt]
  by (auto simp: relInv_def snapshotPart_def isSnapshot_def simp flip: distinct_map)

lemma relistStep_part:
  assumes "retry_contract pretry" and "retry_contract retry" and "ctxStays E"
  shows "\<exists>parts. snd (snd (snd (relistStep K view E pretry retry n S m rt (err, f, h)))) = h @ concat parts \<and>
    length parts \<le> length (filter (\<lambda>rt. m AND rt = rt) [rt]) \<and> list_all snapshotPart parts"
proof (cases "m AND rt = rt")
  case True
  let ?e = "rCtxErr E h"
  obtain seg where seg: "rtHist (snd (relistType K view E pretry retry n S rt (h @ [LDone ?e]))) = (h @ [LDone ?e]) @ seg"
    "snapshotPart seg" using relistType_part [OF assms] by blast
  then have "snapshotPart (LDone ?e # seg)" and "snapshotPart [LDone ?e]" by (simp_all add: snapshotPart_def)
  with True seg(1) show ?thesis
    by (cases "?e") (auto simp: relistStep_def Let_def split_beta
        intro: exI [where x = "[LDone None # seg]"] exI [where x = "[[LDone ?e]]"])
next
  case False
  then show ?thesis by (intro exI [where x = "[]"]) (simp add: relistStep_def)
qed

lemma yieldAll_parts:
  assumes "retry_contract pretry" and "retry_contract retry" and "ctxStays E"
  shows "\<exists>parts. snd (snd (yieldAll (relistStep K view E pretry retry n S m) rts (err, f, h))) = h @ concat parts \<and>
    length parts \<le> length (filter (\<lambda>rt. m AND rt = rt) rts) \<and> list_all snapshotPart parts"
proof (induction rts arbitrary: err f h)
  case (Cons rt rts)
  obtain ok err1 f1 h1 where st: "relistStep K view E pretry retry n S m rt (err, f, h) = (ok, err1, f1, h1)"
    by (metis prod_cases4)
  obtain p1 where p1: "h1 = h @ concat p1" "length p1 \<le> length (filter (\<lambda>rt. m AND rt = rt) [rt])"
    "list_all snapshotPart p1"
    using relistStep_part [OF assms, of K view n S m rt err f h] st by auto
  obtain p2 where p2: "snd (snd (yieldAll (relistStep K view E pretry retry n S m) rts (err1, f1, h1))) = h1 @ concat p2"
    "length p2 \<le> length (filter (\<lambda>rt. m AND rt = rt) rts)" "list_all snapshotPart p2"
    using Cons.IH by blast
  show ?case
  proof (cases ok)
    case True
    with p1 p2 st show ?thesis by (intro exI [where x = "p1 @ p2"]) (auto split: if_splits)
  next
    case False
    with p1 st show ?thesis by (intro exI [where x = p1]) (auto split: if_splits)
  qed
qed (auto intro: exI [where x = "[]"])

lemma performRelist_round:
  assumes "retry_contract pretry" and "retry_contract retry" and "ctxStays E"
    and "performRelist K view E pretry retry n S m h = (err, f, h')"
  shows "\<exists>seg. h' = h @ seg \<and> roundOK m seg"
  using yieldAll_parts [OF assms(1-3), of K view n S m retrieveFlags None NoFault h] assms(4)
  by (auto simp: performRelist_def ListRetrieve_yieldAll roundOK_def)

text \<open>One round for each tick before the close, none after it.\<close>

definition ticks :: "signal list \<Rightarrow> nat" where
  "ticks sigs = length (takeWhile (\<lambda>x. x = TimerFired) sigs)"

lemma relistLoop_rounds:
  assumes "retry_contract pretry" and "retry_contract retry" and "ctxStays E"
    and "relistLoop K view E pretry retry n S m sigs h = (r, h')"
  shows "\<exists>segs. h' = h @ concat segs \<and> list_all (roundOK m) segs \<and>
    (case r of Faulted _ \<Rightarrow> length segs \<le> ticks sigs | _ \<Rightarrow> length segs = ticks sigs) \<and>
    (r = Stopped \<longleftrightarrow> CloseSeen \<in> set sigs \<and> (\<forall>f. r \<noteq> Faulted f))"
  using assms(4)
proof (induction sigs arbitrary: h)
  case Nil
  then show ?case by (intro exI [where x = "[]"]) (simp add: ticks_def)
next
  case (Cons sig sigs)
  show ?case
  proof (cases sig)
    case CloseSeen
    with Cons.prems show ?thesis by (intro exI [where x = "[]"]) (simp add: ticks_def)
  next
    case TimerFired
    obtain err f h1 where pr: "performRelist K view E pretry retry n S m h = (err, f, h1)"
      using prod_cases3 by blast
    obtain seg where seg: "h1 = h @ seg" "roundOK m seg" using performRelist_round [OF assms(1-3) pr] by blast
    show ?thesis
    proof (cases "f = NoFault")
      case True
      with Cons.prems TimerFired pr have "relistLoop K view E pretry retry n S m sigs h1 = (r, h')" by simp
      from Cons.IH [OF this] obtain segs where segs: "h' = h1 @ concat segs" "list_all (roundOK m) segs"
        "case r of Faulted _ \<Rightarrow> length segs \<le> ticks sigs | _ \<Rightarrow> length segs = ticks sigs"
        "r = Stopped \<longleftrightarrow> CloseSeen \<in> set sigs \<and> (\<forall>f. r \<noteq> Faulted f)" by blast
      then show ?thesis using seg TimerFired
        by (intro exI [where x = "seg # segs"]) (auto simp: ticks_def split: loopEnd.splits)
    next
      case False
      with Cons.prems TimerFired pr have "r = Faulted f" "h' = h1" by auto
      then show ?thesis using seg TimerFired by (intro exI [where x = "[seg]"]) (simp add: ticks_def)
    qed
  qed
qed

section \<open>A relist ends\<close>

definition llistsOf :: "lhist \<Rightarrow> nat" where
  "llistsOf h = length (filter (\<lambda>a. case a of LList _ _ _ \<Rightarrow> True | _ \<Rightarrow> False) h)"

lemma llistsOf_simps [simp]: "llistsOf (h @ h') = llistsOf h + llistsOf h'" "llistsOf [LList g opts r] = 1"
  by (simp_all add: llistsOf_def)

text \<open>After \<open>N\<close> lists the server hands out no continue token any more.\<close>

definition pagesEnd :: "(lobj \<Rightarrow> rlist option) \<Rightarrow> renv \<Rightarrow> nat \<Rightarrow> bool" where
  "pagesEnd view E N \<longleftrightarrow>
     (\<forall>h g opts l c. N \<le> llistsOf h \<longrightarrow> rList E h g opts = Inr l \<longrightarrow> getContinue (view l) = Inr c \<longrightarrow> c = [])"

lemma adapter_token:
  assumes "adapter K view E g options h = (Ret (Inr (es, c)), h')" and "pagesEnd view E N" and "c \<noteq> []"
  shows "llistsOf h < N \<and> (\<exists>r. h' = h @ [LList g options r])"
proof -
  obtain l where l: "rList E h g options = Inr l"
    using assms(1) by (cases "rList E h g options") (auto simp: adapter_def Let_def)
  with assms(1) have "getContinue (view l) = Inr c" "h' = h @ [LList g options (Inr l)]"
    by (auto simp: adapter_def Let_def split: outcome.splits sum.splits)
  with l assms(2,3) show ?thesis unfolding pagesEnd_def by (metis not_less)
qed

lemma retryableList_token:
  assumes "retry_contract pretry" and "retryableList K view E pretry g options h = (None, p)"
    and "pagesEnd view E N" and "pgCont p \<noteq> []"
  shows "llistsOf h < llistsOf (pgHist p) \<and> llistsOf (pgHist p) \<le> N"
proof -
  let ?I = "\<lambda>s. \<exists>h0. pgHist s = h @ h0"
  have "?I (snd (pageAttempt K view E g options s))" if "?I s" for s
    using that adapter_hist [of K view E g options "pgHist s"]
    by (auto simp: pageAttempt_def split: prod.splits outcome.splits sum.splits)
  from retry_success [where I = ?I, OF assms(1) assms(2) [unfolded retryableList_def] _ this] obtain s0 h0 where
    s0: "pgHist s0 = h @ h0" "pageAttempt K view E g options s0 = (None, p)" by auto
  then obtain es where "adapter K view E g options (h @ h0) = (Ret (Inr (es, pgCont p)), pgHist p)"
    by (auto simp: pageAttempt_def Permanent_def split: prod.splits outcome.splits sum.splits if_splits)
  from adapter_token [OF this assms(3,4)] show ?thesis by auto
qed

lemma retryableList_fault:
  assumes "retry_contract pretry"
  shows "pgFault (snd (retryableList K view E pretry g options h)) \<noteq> OutOfFuel"
  unfolding retryableList_def
proof (rule retry_inv [OF assms])
  fix s :: page assume "pgFault s \<noteq> OutOfFuel"
  then show "pgFault (snd (pageAttempt K view E g options s)) \<noteq> OutOfFuel"
    by (auto simp: pageAttempt_def split: prod.splits outcome.splits sum.splits)
qed simp

lemma sendAll_fault: "chFault (snd (sendAll E es c)) = chFault c"
  by (induction es arbitrary: c) (auto simp: Let_def)

lemma listOne_ends:
  assumes "retry_contract pretry" and "pagesEnd view E N"
  shows "0 < n \<Longrightarrow> N < llistsOf (chHist c) + n \<Longrightarrow> chFault (snd (listOne K view E pretry n g ct c)) \<noteq> OutOfFuel"
proof (induction n arbitrary: ct c)
  case (Suc n)
  let ?opts = "emptyOptions\<lparr>loLimit := 100, loContinue := ct\<rparr>"
  obtain err p where rl: "retryableList K view E pretry g ?opts (chHist c) = (err, p)" by force
  let ?c = "c\<lparr>chHist := pgHist p, chFault := pgFault p\<rparr>"
  obtain b c1 where sa: "sendAll E (pgResult p) ?c = (b, c1)" by force
  have f: "pgFault p \<noteq> OutOfFuel" using retryableList_fault [OF assms(1), of K view E g ?opts "chHist c"] rl by simp
  have f1: "chFault c1 = pgFault p" using sendAll_fault [of E "pgResult p" ?c] sa by simp
  obtain h1 where h1: "chHist c1 = pgHist p @ h1" using sendAll_hist [of E "pgResult p" ?c] sa by auto
  have more: "chFault (snd (listOne K view E pretry n g (pgCont p) c1)) \<noteq> OutOfFuel" if "err = None" "pgCont p \<noteq> []"
  proof -
    have "llistsOf (chHist c) < llistsOf (pgHist p)" "llistsOf (pgHist p) \<le> N"
      using retryableList_token [OF assms(1) _ assms(2)] rl that by auto
    with Suc.prems h1 show ?thesis by (intro Suc.IH) simp_all
  qed
  show ?case
    using rl sa f f1 more by (cases err; cases b) (auto simp: Let_def)
qed simp

lemma sendErr_fault [simp]: "chFault (sendErr E err c) = chFault c"
  by (simp add: sendErr_def Let_def)

lemma listEach_ends:
  assumes "retry_contract pretry" and "pagesEnd view E N" and "N < n"
  shows "chFault c \<noteq> OutOfFuel \<Longrightarrow> chFault (listEach K view E pretry n gs c) \<noteq> OutOfFuel"
proof (induction gs arbitrary: c)
  case (Cons g gs)
  obtain err c1 where lo: "listOne K view E pretry n g [] c = (err, c1)" by force
  have "chFault c1 \<noteq> OutOfFuel"
    using listOne_ends [OF assms(1,2), of n c K g "[]"] assms(3) lo by simp
  with Cons.IH lo show ?case by (cases err) auto
qed simp

lemma listAll_ends:
  assumes "retry_contract pretry" and "pagesEnd view E N" and "N < n"
  shows "chFault (listAll K view E pretry n gs h) \<noteq> OutOfFuel"
  using listEach_ends [OF assms] by (simp add: listAll_def Let_def)

lemma forward_fault [simp]: "rtFault (snd (forward E q s)) = rtFault s"
  by (induction E q s rule: forward.induct)
    (auto simp: ctxErr_def Let_def split: option.splits)

lemma relistType_ends:
  assumes "retry_contract pretry" and "retry_contract retry" and "pagesEnd view E N" and "N < n"
  shows "rtFault (snd (relistType K view E pretry retry n S rt h)) \<noteq> OutOfFuel"
  unfolding relistType_def
proof (rule retry_inv [OF assms(2)])
  fix s :: rtype assume "rtFault s \<noteq> OutOfFuel"
  then show "rtFault (snd (relistAttempt K view E pretry n S rt s)) \<noteq> OutOfFuel"
    using listAll_ends [OF assms(1,3,4)]
    by (auto simp: relistAttempt_def ctxErr_def Relister_List_def Let_def split: option.splits sum.splits if_splits)
qed simp

lemma yieldAll_ends:
  assumes "retry_contract pretry" and "retry_contract retry" and "pagesEnd view E N" and "N < n"
  shows "f \<noteq> OutOfFuel \<Longrightarrow> fst (snd (yieldAll (relistStep K view E pretry retry n S m) rts (err, f, h))) \<noteq> OutOfFuel"
proof (induction rts arbitrary: err f h)
  case (Cons rt rts)
  obtain ok err1 f1 h1 where st: "relistStep K view E pretry retry n S m rt (err, f, h) = (ok, err1, f1, h1)"
    by (metis prod_cases4)
  have "f1 \<noteq> OutOfFuel"
    using st Cons.prems relistType_ends [OF assms, of K S rt "h @ [LDone None]"]
    by (auto simp: relistStep_def Let_def split_beta split: if_splits option.splits)
  with Cons.IH st show ?case by simp
qed simp

lemma relistLoop_ends:
  assumes "retry_contract pretry" and "retry_contract retry" and "pagesEnd view E N" and "N < n"
  shows "fst (relistLoop K view E pretry retry n S m sigs h) \<noteq> Faulted OutOfFuel"
proof (induction sigs arbitrary: h)
  case (Cons sig sigs)
  obtain err f h1 where pr: "performRelist K view E pretry retry n S m h = (err, f, h1)"
    using prod_cases3 by blast
  then have "f \<noteq> OutOfFuel"
    using yieldAll_ends [OF assms, of NoFault K S m retrieveFlags None h]
    by (simp add: performRelist_def ListRetrieve_yieldAll)
  with Cons.IH pr show ?case by (cases sig) auto
qed simp

end
