(* ===== verification/HandleEnds.thy ===== *)
theory HandleEnds
  imports Handle
begin

text \<open>
  A handler's turn comes to an end: on a server with finitely many events and continue tokens no turn
  runs out of fuel, once the context is done the turn is the handler's last, without an error, and so
  a handler whose context ends returns.
\<close>

text \<open>After \<open>M\<close> events every watch is closed.\<close>

definition eventsEnd :: "env \<Rightarrow> nat \<Rightarrow> bool" where
  "eventsEnd E M \<longleftrightarrow> (\<forall>h w. M \<le> length (getsOf h) \<longrightarrow> envGet E h w = None)"

lemma watchEvents_ends:
  assumes "eventsEnd E M" and "M < n"
  shows "fst (watchEvents K E st key n w h) \<noteq> None"
proof -
  have loop: "fst (watchLoop K E st key x n rv stored s) \<noteq> None" for x rv stored s
    using watchLoop_ends [of M E x n s K st key rv stored] assms by (simp add: eventsEnd_def)
  have "fst (case watchLoop K E st key x n rv stored s of (r, s) \<Rightarrow> (r, wHist s)) \<noteq> None" for x rv stored s
    using loop [of x rv stored s] by (simp add: split_beta)
  then show ?thesis
    by (simp add: watchEvents_def Let_def split: option.split outcome.split delivery.split prod.split)
qed

lemma getRecoveryWatcher_ends:
  assumes "listsEnd K E g N" and "N < n"
  shows "fst (getRecoveryWatcher K E b n (newWatchSpec E g) s) \<noteq> None"
proof -
  have "fst (getListRecoveryWatcher K E b n (newWatchSpec E g) t) \<noteq> None" for t
    using listRecoveryObjects_ends [OF assms, of "sHist t"]
    by (auto simp: getListRecoveryWatcher_def split: option.splits sum.splits prod.splits)
  then show ?thesis
    by (auto simp: getRecoveryWatcher_def split: sum.split prod.split)
qed

lemma rewatch_ends:
  assumes "listsEnd K E g N" and "N < n" and "\<not> hStuck s"
  shows "\<not> hStuck (snd (rewatch K E b st n key (newWatchSpec E g) s))"
proof -
  obtain r ss where nw: "nextWatch K E b n (newWatchSpec E g) s = (r, ss)" by force
  have "r \<noteq> None"
    using nw getRecoveryWatcher_ends [OF assms(1,2), of b "hState s"]
    by (cases rule: nextWatch_cases) auto
  with assms(3) show ?thesis
    by (auto simp: rewatch_nextWatch [OF nw] Let_def setHist_def split: option.split sum.split)
qed

lemma reopen_ends:
  assumes "retry_contract retry" and "listsEnd K E g N" and "N < n" and "\<not> hStuck s"
    and "reopen K E retry b st n key (newWatchSpec E g) s = t"
  shows "(\<exists>s'. t = Again s' \<and> \<not> hStuck s') \<or> (\<exists>e s'. t = Returned e s')"
proof -
  let ?op = "rewatch K E b st n key (newWatchSpec E g)"
  have stuck: "\<not> hStuck (snd (retry None ?op s'))" if "\<not> hStuck s'" for s'
    by (rule retry_inv [where I = "\<lambda>s. \<not> hStuck s", OF assms(1) that rewatch_ends [OF assms(2,3)]])
  obtain d h where c: "ctxDone E (sHist (hState s)) = (d, h)" by force
  obtain r s' where r: "retry None ?op (setHist h s) = (r, s')" by force
  with stuck [of "setHist h s"] assms(4) have "\<not> hStuck s'" by (simp add: setHist_def)
  with assms(5) c r show ?thesis
    by (cases d; cases r) (auto simp: reopen_def split: prod.splits bool.splits)
qed

lemma afterWatch_stuck [simp]: "hStuck (afterWatch K E st key rv err s) = hStuck s"
  by (simp add: afterWatch_def Let_def setHist_def)

lemma handleTurn_ends:
  assumes "retry_contract retry" and "eventsEnd E M" and "M < n" and "listsEnd K E g N" and "N < n" and "\<not> hStuck s"
    and "handleTurn K E retry b st n g (newWatchSpec E g) s = t"
  shows "(\<exists>s'. t = Again s' \<and> \<not> hStuck s') \<or> (\<exists>e s'. t = Returned e s') \<or> (\<exists>m s'. t = Panicked m s')"
proof (cases "hWatch s")
  case None
  with assms(7) have "reopen K E retry b st n g (newWatchSpec E g) s = t" by (simp add: handleTurn_def)
  from reopen_ends [OF assms(1,4,5,6) this] show ?thesis by blast
next
  case (Some w)
  obtain r h where we: "watchEvents K E st g n w (sHist (hState s)) = (Some r, h)"
    using watchEvents_ends [OF assms(2,3), of K st g w "sHist (hState s)"]
    by (cases "watchEvents K E st g n w (sHist (hState s))") auto
  show ?thesis
  proof (cases r)
    case (Ret x)
    obtain rv err where x: "x = (rv, err)" by force
    let ?m = "afterWatch K E st g rv err (setHist h s)"
    have m: "\<not> hStuck ?m" using assms(6) by (simp add: setHist_def)
    have "reopen K E retry b st n g (newWatchSpec E g) ?m = t" using assms(7) we Some Ret x by (simp add: handleTurn_def)
    from reopen_ends [OF assms(1,4,5) m this] show ?thesis by blast
  next
    case (Panic m)
    with assms(7) we Some show ?thesis by (auto simp: handleTurn_def)
  qed
qed

text \<open>A handler whose context is done does not open another watch.\<close>

lemma reopen_done:
  "envCtxDone E (sHist (hState s)) \<Longrightarrow> \<exists>s'. reopen K E retry b st n key sp s = Returned None s'"
  by (auto simp: reopen_def ctxDone_def Let_def)

lemma handleTurn_done:
  assumes "ctxMonotone E" and "envCtxDone E (sHist (hState s))" and "handlerInv b s"
    and "eventsEnd E M" and "M < n"
    and "handleTurn K E retry b st n g sp s = t"
  shows "(\<exists>s'. t = Returned None s') \<or> (\<exists>m s'. t = Panicked m s')"
proof (cases "hWatch s")
  case None
  with assms(6) reopen_done [OF assms(2)] show ?thesis by (auto simp: handleTurn_def)
next
  case (Some w)
  obtain r h where we: "watchEvents K E st g n w (sHist (hState s)) = (Some r, h)"
    using watchEvents_ends [OF assms(4,5), of K st g w "sHist (hState s)"]
    by (cases "watchEvents K E st g n w (sHist (hState s))") auto
  have mode: "wMode w = None \<or> (\<exists>m. wMode w = Some m \<and> wf_mode m)"
    using assms(3) Some by (auto simp: handlerInv_def split: option.splits)
  obtain seg where seg: "h = sHist (hState s) @ seg" using watchEvents_spec [OF we mode] by blast
  show ?thesis
  proof (cases r)
    case (Ret x)
    obtain rv err where x: "x = (rv, err)" by force
    let ?m = "afterWatch K E st g rv err (setHist h s)"
    obtain seg' where "sHist (hState ?m) = sHist (hState s) @ seg @ seg'"
      using afterWatch_spec(3) [of K E st g rv err "setHist h s"] seg by (auto simp: setHist_def)
    then have "envCtxDone E (sHist (hState ?m))" using assms(1,2) by (simp add: ctxMonotone_def)
    from reopen_done [OF this] assms(6) we Some Ret x show ?thesis by (auto simp: handleTurn_def)
  next
    case (Panic m)
    with assms(6) we Some show ?thesis by (auto simp: handleTurn_def)
  qed
qed

section \<open>The handler returns\<close>

text \<open>From its \<open>L\<close>th call on the handler finds its context done.\<close>

definition ctxEnds :: "env \<Rightarrow> nat \<Rightarrow> bool" where
  "ctxEnds E L \<longleftrightarrow> (\<forall>h. L \<le> length h \<longrightarrow> envCtxDone E h)"

text \<open>A turn after which the loop goes on has asked for the context, which was not done.\<close>

lemma reopen_again:
  assumes "retry_contract retry" and "reopen K E retry b st n key (newWatchSpec E g) s = Again s'"
    and "spawnerOK b (spw (hState s))"
  shows "\<not> envCtxDone E (sHist (hState s)) \<and> length (sHist (hState s)) < length (sHist (hState s'))"
proof -
  let ?s = "setHist (sHist (hState s) @ [ACtx False]) s"
  have c: "\<not> envCtxDone E (sHist (hState s))"
    using assms(2) reopen_done [of E s K retry b st n key "newWatchSpec E g"] by auto
  obtain e s1 where r: "retry None (rewatch K E b st n key (newWatchSpec E g)) ?s = (e, s1)" by force
  have "s1 = s'"
    using assms(2) c r by (cases e) (simp_all add: reopen_def ctxDone_def Let_def split: if_splits bool.splits)
  with r have r: "snd (retry None (rewatch K E b st n key (newWatchSpec E g)) ?s) = s'" by simp
  have "between b ?s ?s" using assms(3) by (auto simp: between_def)
  from retry_inv [where I = "between b ?s", OF assms(1) this between_rewatch] have "between b ?s s'"
    unfolding r [symmetric] .
  with c show ?thesis by (auto simp: between_def)
qed

lemma handleTurn_again:
  assumes "retry_contract retry" and "handlerInv b s"
    and "handleTurn K E retry b st n g (newWatchSpec E g) s = Again s'"
  shows "\<exists>h. length (sHist (hState s)) \<le> length h \<and> \<not> envCtxDone E h \<and> length h < length (sHist (hState s'))"
proof (cases "hWatch s")
  case None
  with assms(2,3) have "reopen K E retry b st n g (newWatchSpec E g) s = Again s'" "spawnerOK b (spw (hState s))"
    by (simp_all add: handleTurn_def handlerInv_def)
  from reopen_again [OF assms(1) this] show ?thesis by blast
next
  case (Some w)
  obtain rv err h where we: "watchEvents K E st g n w (sHist (hState s)) = (Some (Ret (rv, err)), h)"
    and re: "reopen K E retry b st n g (newWatchSpec E g) (afterWatch K E st g rv err (setHist h s)) = Again s'"
    using assms(3) Some by (auto simp: handleTurn_def split: option.splits prod.splits outcome.splits)
  let ?m = "afterWatch K E st g rv err (setHist h s)"
  have "wMode w = None \<or> (\<exists>m. wMode w = Some m \<and> wf_mode m)"
    using assms(2) Some by (auto simp: handlerInv_def split: option.splits)
  from watchEvents_spec [OF we this] have "length (sHist (hState s)) \<le> length h" by auto
  moreover have "length h \<le> length (sHist (hState ?m))"
    using afterWatch_spec(3) [of K E st g rv err "setHist h s"] by auto
  ultimately have "length (sHist (hState s)) \<le> length (sHist (hState ?m))" by simp
  moreover have "spawnerOK b (spw (hState ?m))"
    using assms(2) by (simp add: afterWatch_spec handlerInv_def)
  ultimately show ?thesis using reopen_again [OF assms(1) re] by blast
qed

lemma handleLoop_returns:
  assumes "retry_contract retry" and "eventsEnd E M" and "M < fuel" and "listsEnd K E g N" and "N < fuel"
    and "ctxEnds E L"
  shows "handlerInv b s \<Longrightarrow> \<not> hStuck s \<Longrightarrow> L \<le> length (sHist (hState s)) + n \<Longrightarrow>
    (\<exists>e s'. handleLoop K E retry b st fuel g (newWatchSpec E g) (Suc n) s = Returned e s') \<or>
    (\<exists>m s'. handleLoop K E retry b st fuel g (newWatchSpec E g) (Suc n) s = Panicked m s')"
proof (induction n arbitrary: s)
  case 0
  have "handleTurn K E retry b st fuel g (newWatchSpec E g) s \<noteq> Again s'" for s'
    using handleTurn_again [OF assms(1) 0(1), of K E st fuel g s'] 0(3) assms(6) by (auto simp: ctxEnds_def)
  with handleTurn_ends [OF assms(1-5) 0(2) refl, of b st] show ?case by auto
next
  case (Suc n)
  from handleTurn_ends [OF assms(1-5) Suc.prems(2) refl, of b st] consider
      (go) s1 where "handleTurn K E retry b st fuel g (newWatchSpec E g) s = Again s1" "\<not> hStuck s1"
    | (ret) e s1 where "handleTurn K E retry b st fuel g (newWatchSpec E g) s = Returned e s1"
    | (pan) m s1 where "handleTurn K E retry b st fuel g (newWatchSpec E g) s = Panicked m s1" by blast
  then show ?case
  proof cases
    case go
    have "L \<le> length (sHist (hState s1)) + n"
      using handleTurn_again [OF assms(1) Suc.prems(1) go(1)] Suc.prems(3) by auto
    with Suc.IH [of s1] handleTurn_spec [OF assms(1) Suc.prems(1) go(1)] go show ?thesis
      by (simp del: handleLoop.simps add: handleLoop.simps(2) [of _ _ _ _ _ _ _ _ "Suc n"])
  qed simp_all
qed

end
