(* ===== verification/Keeps.thy ===== *)
theory Keeps
  imports Separation
begin

text \<open>
  Processors that can run while the scrubber works on another entry. \<open>proc_local\<close> says what a processor does
  when it runs alone; here it also neither sees nor undoes what happens to other entries meanwhile.
\<close>

text \<open>Two memories show the same of an entry: the spec, the containers and the variables.\<close>

definition sameMemory :: "'x heap \<Rightarrow> 'x heap \<Rightarrow> entry \<Rightarrow> bool" where
  "sameMemory h h' e \<longleftrightarrow>
     entrySpec h' e = entrySpec h e \<and>
     (\<forall>a k. (a, k) \<in> entryConts h e \<longrightarrow> contArrs h' a ! k = contArrs h a ! k \<and> length (contArrs h' a) = length (contArrs h a)) \<and>
     (\<forall>a k. (a, k) \<in> entryEphs h e \<longrightarrow> ephArrs h' a ! k = ephArrs h a ! k \<and> length (ephArrs h' a) = length (ephArrs h a)) \<and>
     (\<forall>a k. (a, k) \<in> entryCells h e \<longrightarrow>
        length (envArrs h' a) = length (envArrs h a) \<and> (k < length (envArrs h a) \<longrightarrow> envArrs h' a ! k = envArrs h a ! k))"

text \<open>A processor keeps to its entry when the others show the same after it, when it keeps them apart, and
  when it neither sees nor undoes what is redacted in them at the same time.\<close>

definition keepsTo :: "'x processor \<Rightarrow> bool" where
  "keepsTo p \<longleftrightarrow>
     (\<forall>h e. wf_heap h \<longrightarrow> wf_heap (fst (p h e)) \<and>
        (\<forall>e'. separate h e e' \<longrightarrow>
           sameMemory h (fst (p h e)) e' \<and> separate (fst (p h e)) e e' \<and>
           (\<forall>S \<subseteq> entryCells h e'. p (redactSet S h) e = (redactSet S (fst (p h e)), snd (p h e)))))"

lemma sameMemory_refl: "sameMemory h h e"
  by (simp add: sameMemory_def)

lemma same_arrCells:
  assumes "\<forall>k < sLen sl. arr' ! (sOff sl + k) = arr ! (sOff sl + k)"
  shows "arrCells arr' sl = arrCells arr sl"
  using assms by (simp add: arrCells_def)

lemma same_elems:
  assumes "\<forall>k < sLen sl. arr' ! (sOff sl + k) = arr ! (sOff sl + k)" and "inBounds arr sl" and "inBounds arr' sl"
  shows "elems arr' sl = elems arr sl"
  using assms by (intro nth_equalityI) (simp_all add: length_elems elems_nth)

lemma sameMemory_conts:
  assumes "sameMemory h h' e" and "entrySpec h e = Some s" and "sl = Containers s \<or> sl = InitContainers s"
  shows "\<forall>k < sLen sl. contArrs h' (sArr sl) ! (sOff sl + k) = contArrs h (sArr sl) ! (sOff sl + k)"
  using assms by (auto simp: sameMemory_def entryConts_def sliceCells_def)

lemma sameMemory_ephs:
  assumes "sameMemory h h' e" and "entrySpec h e = Some s"
  shows "\<forall>k < sLen (EphemeralContainers s).
    ephArrs h' (sArr (EphemeralContainers s)) ! (sOff (EphemeralContainers s) + k) =
    ephArrs h (sArr (EphemeralContainers s)) ! (sOff (EphemeralContainers s) + k)"
  using assms by (auto simp: sameMemory_def entryEphs_def sliceCells_def)

lemma sameMemory_footprint:
  assumes "sameMemory h h' e"
  shows "footprint h' e = footprint h e"
proof (cases "entrySpec h e")
  case None
  with assms show ?thesis by (simp add: footprint_def entryConts_def entryEphs_def entryCells_def sameMemory_def)
next
  case (Some s)
  have spec: "entrySpec h' e = entrySpec h e" using assms by (simp add: sameMemory_def)
  have "specCells h' s = specCells h s"
    using sameMemory_conts [OF assms Some] sameMemory_ephs [OF assms Some]
    unfolding specCells_def by (intro arg_cong2 [where f = "(\<union>)"] same_arrCells) simp_all
  with Some spec show ?thesis
    by (simp add: footprint_def entryConts_def entryEphs_def entryCells_def)
qed

lemma sameMemory_env:
  assumes "sameMemory h h' e" and "wf_heap h" and "wf_heap h'"
  shows "entryEnv h' e = entryEnv h e"
proof (cases "entrySpec h e")
  case None
  with assms(1) show ?thesis by (simp add: entryEnv_def sameMemory_def)
next
  case (Some s)
  have spec: "entrySpec h' e = Some s" using assms(1) Some by (simp add: sameMemory_def)
  note wf = entrySpec_wf [OF assms(2) Some] entrySpec_wf [OF assms(3) spec]
  have conts: "specContainers h' s = specContainers h s"
    using sameMemory_conts [OF assms(1) Some] sameMemory_ephs [OF assms(1) Some] wf
    unfolding specContainers_def wf_spec_def by (intro arg_cong2 [where f = "(@)"] same_elems) simp_all
  have "envOf h' c = envOf h c" if c: "c \<in> set (specContainers h s)" for c
  proof -
    have "sliceCells (cEnv c) \<subseteq> entryCells h e" using container_cells [OF wf(1) c] Some by (simp add: entryCells_def)
    then have "\<forall>k < sLen (cEnv c). envArrs h' (sArr (cEnv c)) ! (sOff (cEnv c) + k) = envArrs h (sArr (cEnv c)) ! (sOff (cEnv c) + k)"
      using assms(1) container_inBounds [OF assms(2) wf(1) c] by (auto simp: sameMemory_def sliceCells_def inBounds_def)
    then show ?thesis
      unfolding envOf_def using container_inBounds [OF assms(2) wf(1) c] container_inBounds [OF assms(3) wf(2)] c conts
      by (intro same_elems) simp_all
  qed
  then show ?thesis using Some spec conts by (simp add: entryEnv_def specEnv_def cong: map_cong)
qed

lemma keepsTo_local:
  assumes "keepsTo p"
  shows "proc_local p"
  unfolding proc_local_def
proof (intro allI impI conjI)
  fix h :: "'a heap" and e assume wf: "wf_heap h"
  with assms show wf': "wf_heap (fst (p h e))" by (simp add: keepsTo_def)
  fix e' assume "separate h e e'"
  with assms wf have "sameMemory h (fst (p h e)) e'" "separate (fst (p h e)) e e'" by (simp_all add: keepsTo_def)
  then show "leavesAlone h e e' (fst (p h e))"
    using sameMemory_env [OF _ wf wf'] sameMemory_footprint by (simp add: leavesAlone_def)
qed

text \<open>Processors that keep to their entry do so together.\<close>

lemma sameMemory_trans: "sameMemory h h1 e \<Longrightarrow> sameMemory h1 h2 e \<Longrightarrow> sameMemory h h2 e"
proof -
  assume a: "sameMemory h h1 e" "sameMemory h1 h2 e"
  have "footprint h1 e = footprint h e" by (rule sameMemory_footprint [OF a(1)])
  with a show ?thesis by (auto simp: sameMemory_def footprint_def)
qed

lemma keepsToD:
  assumes "keepsTo p" and "wf_heap h" and "p h e = (h', r)"
  shows "wf_heap h'" and "separate h e e' \<Longrightarrow> sameMemory h h' e'" and "separate h e e' \<Longrightarrow> separate h' e e'"
    and "separate h e e' \<Longrightarrow> S \<subseteq> entryCells h e' \<Longrightarrow> p (redactSet S h) e = (redactSet S h', r)"
proof -
  have k: "wf_heap (fst (p h e)) \<and> (\<forall>e'. separate h e e' \<longrightarrow> sameMemory h (fst (p h e)) e' \<and> separate (fst (p h e)) e e' \<and>
      (\<forall>S \<subseteq> entryCells h e'. p (redactSet S h) e = (redactSet S (fst (p h e)), snd (p h e))))"
    using assms(1,2) unfolding keepsTo_def by blast
  show "wf_heap h'" and "separate h e e' \<Longrightarrow> sameMemory h h' e'" and "separate h e e' \<Longrightarrow> separate h' e e'"
    and "separate h e e' \<Longrightarrow> S \<subseteq> entryCells h e' \<Longrightarrow> p (redactSet S h) e = (redactSet S h', r)"
    using k unfolding assms(3) by simp_all
qed

lemma keepsTo_then:
  assumes "keepsTo p" and "keepsTo q"
  shows "keepsTo (\<lambda>h e. case p h e of (h, Some err) \<Rightarrow> (h, Some err) | (h, None) \<Rightarrow> q h e)"
  unfolding keepsTo_def
proof (intro allI impI)
  fix h :: "'a heap" and e
  assume wf: "wf_heap h"
  obtain h1 r where p: "p h e = (h1, r)" by force
  obtain h2 r2 where q: "q h1 e = (h2, r2)" by force
  have P: "wf_heap h1" "\<And>e'. separate h e e' \<Longrightarrow> sameMemory h h1 e' \<and> separate h1 e e' \<and>
      (\<forall>S \<subseteq> entryCells h e'. p (redactSet S h) e = (redactSet S h1, r))"
    using keepsToD [OF assms(1) wf p] by simp_all
  have Q: "wf_heap h2" "\<And>e'. separate h1 e e' \<Longrightarrow> sameMemory h1 h2 e' \<and> separate h2 e e' \<and>
      (\<forall>S \<subseteq> entryCells h1 e'. q (redactSet S h1) e = (redactSet S h2, r2))"
    using keepsToD [OF assms(2) P(1) q] by simp_all
  let ?r = "\<lambda>h. case p h e of (h, Some err) \<Rightarrow> (h, Some err) | (h, None) \<Rightarrow> q h e"
  show "wf_heap (fst (?r h)) \<and> (\<forall>e'. separate h e e' \<longrightarrow>
      sameMemory h (fst (?r h)) e' \<and> separate (fst (?r h)) e e' \<and>
      (\<forall>S \<subseteq> entryCells h e'. ?r (redactSet S h) = (redactSet S (fst (?r h)), snd (?r h))))"
  proof (intro conjI allI impI)
    show "wf_heap (fst (?r h))" using p q P Q by (cases r) auto
    fix e' assume sep: "separate h e e'"
    note P' = P(2) [OF sep] and Q' = Q(2) [of e']
    have cells: "entryCells h1 e' = entryCells h e'"
      using sameMemory_footprint [of h h1 e'] P' by (simp add: footprint_def)
    show "sameMemory h (fst (?r h)) e'" using p q P' Q' sameMemory_trans by (cases r) auto
    show "separate (fst (?r h)) e e'" using p q P' Q' by (cases r) auto
    fix S assume S: "S \<subseteq> entryCells h e'"
    then have "p (redactSet S h) e = (redactSet S h1, r)" using P' by blast
    moreover have "q (redactSet S h1) e = (redactSet S h2, r2)" using S P' Q' cells by auto
    ultimately show "?r (redactSet S h) = (redactSet S (fst (?r h)), snd (?r h))" using p q by (cases r) simp_all
  qed
qed

lemma keepsTo_processEntry: "\<forall>p \<in> set procs. keepsTo p \<Longrightarrow> keepsTo (processEntry procs)"
proof (induction procs)
  case Nil
  have "processEntry [] = (\<lambda>h e. (h, None))" by (intro ext) simp
  then show ?case by (simp add: keepsTo_def sameMemory_refl)
next
  case (Cons p procs)
  have "processEntry (p # procs) = (\<lambda>h e. case p h e of (h, Some err) \<Rightarrow> (h, Some err) | (h, None) \<Rightarrow> processEntry procs h e)"
    by (intro ext) simp
  with keepsTo_then [of p "processEntry procs"] Cons show ?case by simp
qed

text \<open>Overwriting the values of one's own variables keeps to the entry.\<close>

lemma overwrite_keepsTo: "keepsTo (overwrite x)"
  unfolding keepsTo_def
proof (intro allI impI conjI)
  fix h :: "'a heap" and e assume wf: "wf_heap h"
  have loc: "proc_local (overwrite x :: 'a processor)" by (rule overwrite_local)
  with wf show "wf_heap (fst (overwrite x h e))" by (simp add: proc_local_def)
  fix e' assume sep: "separate h e e'"
  show "separate (fst (overwrite x h e)) e e'"
    using loc wf sep by (simp add: proc_local_def leavesAlone_def)
  have "envArrs (fst (overwrite x h e)) a ! k = envArrs h a ! k"
    if "(a, k) \<in> entryCells h e'" and "k < length (envArrs h a)" for a k
    using that sep by (auto simp: overwrite_def separate_def)
  then show "sameMemory h (fst (overwrite x h e)) e'"
    by (simp add: sameMemory_def) (simp add: entrySpec_def overwrite_def split: option.split)
  fix S assume "S \<subseteq> entryCells h e'"
  then have dis: "c \<notin> S" if "c \<in> entryCells h e" for c using sep that by (auto simp: separate_def)
  have "fst (overwrite x (redactSet S h) e) = redactSet S (fst (overwrite x h e))"
  proof (rule heap_eqI)
    fix a i assume "i < length (envArrs (fst (overwrite x (redactSet S h) e)) a)"
    then show "envArrs (fst (overwrite x (redactSet S h) e)) a ! i = envArrs (redactSet S (fst (overwrite x h e))) a ! i"
      using dis [of "(a, i)"] by (simp add: redactSet_nth) (simp add: overwrite_def redactSet_nth)
  qed (simp_all add: overwrite_def)
  then show "overwrite x (redactSet S h) e = (redactSet S (fst (overwrite x h e)), snd (overwrite x h e))"
    by (simp add: prod_eq_iff) (simp add: overwrite_def)
qed

end
