(* ===== verification/Fine.thy ===== *)
theory Fine
  imports Pipeline Keeps
begin

text \<open>
  The pipeline with single memory accesses as its steps. In \<open>Pipeline\<close> a stage handles an entry at once;
  here the scrubber is a program of loads and stores, as the loops of \<^verbatim>\<open>safety.go\<close> make them, stale copies
  of containers and pod specs included, and the preprocessing stage runs one processor at a time. The
  accesses of the two stages interleave in any order. Shown here: this machine refines the one of
  \<open>Pipeline\<close>, so that nothing is lost by its larger steps.
\<close>

section \<open>The scrubber as a program\<close>

datatype 'x instr =
    LoadPod ref
  | LoadDeployment ref
  | LoadCont slice nat
  | LoadEph slice nat
  | LoadEnv slice nat
  | StoreEnv slice nat "'x envVar"
  | StoreCont slice nat "'x container"
  | StoreEph slice nat "'x container"
  | StorePod ref "'x podSpec"
  | StoreDeployment ref "'x podSpec"

text \<open>The three loops of \<^verbatim>\<open>scrubPodSpec\<close>, over slices whose headers are copies, elements read as they come.\<close>

definition specProg :: "'x podSpec \<Rightarrow> 'x instr list" where
  "specProg s =
     map (LoadCont (Containers s)) [0..<sLen (Containers s)] @
     map (LoadCont (InitContainers s)) [0..<sLen (InitContainers s)] @
     map (LoadEph (EphemeralContainers s)) [0..<sLen (EphemeralContainers s)]"

definition envProg :: "slice \<Rightarrow> 'x instr list" where
  "envProg env = map (LoadEnv env) [0..<sLen env]"

text \<open>One access: the memory after it, and what the loaded value makes the scrubber do next.\<close>

fun exec :: "'x instr \<Rightarrow> 'x heap \<Rightarrow> 'x instr list \<times> 'x heap" where
  "exec (LoadPod r) h = (let s = pSpec (pods h r) in (specProg s @ [StorePod r s], h))"
| "exec (LoadDeployment r) h = (let s = dTemplateSpec (deployments h r) in (specProg s @ [StoreDeployment r s], h))"
| "exec (LoadCont sl i) h =
     (let c = contArrs h (sArr sl) ! (sOff sl + i) in (envProg (cEnv c) @ [StoreCont sl i c], h))"
| "exec (LoadEph sl i) h =
     (let c = ephArrs h (sArr sl) ! (sOff sl + i) in (envProg (cEnv c) @ [StoreEph sl i c], h))"
| "exec (LoadEnv sl i) h =
     (let ev = envArrs h (sArr sl) ! (sOff sl + i) in ([StoreEnv sl i (ev\<lparr>evValue := redacted\<rparr>)], h))"
| "exec (StoreEnv sl i ev) h = ([], envAssign sl i ev h)"
| "exec (StoreCont sl i c) h = ([], contAssign sl i c h)"
| "exec (StoreEph sl i c) h = ([], ephAssign sl i c h)"
| "exec (StorePod r s) h = ([], h\<lparr>pods := (pods h)(r := (pods h r)\<lparr>pSpec := s\<rparr>)\<rparr>)"
| "exec (StoreDeployment r s) h =
     ([], h\<lparr>deployments := (deployments h)(r := (deployments h r)\<lparr>dTemplateSpec := s\<rparr>)\<rparr>)"

text \<open>The program for an entry; \<open>None\<close> when its cast fails and it is dropped.\<close>

definition scrubProg :: "entry \<Rightarrow> 'x instr list option outcome" where
  "scrubProg e =
     (if objectType e = OTPod then
        (case Entry_Pod e of
           Inl _ \<Rightarrow> Ret None
         | Inr None \<Rightarrow> Panic ''nil pointer dereference''
         | Inr (Some r) \<Rightarrow> Ret (Some [LoadPod r]))
      else if objectType e = OTDeployment then
        (case Entry_Deployment e of
           Inl _ \<Rightarrow> Ret None
         | Inr None \<Rightarrow> Panic ''nil pointer dereference''
         | Inr (Some r) \<Rightarrow> Ret (Some [LoadDeployment r]))
      else Ret (Some []))"

section \<open>The machine\<close>

datatype 'x preCtl = PIdle | PRun entry "'x processor list" | PHold entry
datatype 'x secCtl = SIdle | SRun entry "'x instr list" | SHold entry

record 'x fine =
  fMem :: "'x heap"
  fInQ :: "entry list"
  fPre :: "'x preCtl"
  fSecretsInQ :: "entry list"
  fSec :: "'x secCtl"
  fRouterInQ :: "entry list"
  fRouted :: "entry list"

definition fineInit :: "'x heap \<Rightarrow> entry list \<Rightarrow> 'x fine" where
  "fineInit h es = \<lparr>fMem = h, fInQ = es, fPre = PIdle, fSecretsInQ = [], fSec = SIdle, fRouterInQ = [], fRouted = []\<rparr>"

definition secBegin :: "entry \<Rightarrow> 'x instr list option \<Rightarrow> 'x secCtl" where
  "secBegin e prog = (case prog of None \<Rightarrow> SIdle | Some is \<Rightarrow> SRun e is)"

inductive fine_step :: "'x processor list option \<Rightarrow> 'x fine \<Rightarrow> 'x fine \<Rightarrow> bool"
  for ps :: "'x processor list option" where
  f_pre_take: "ps = Some procs \<Longrightarrow> fInQ s = e # q \<Longrightarrow> fPre s = PIdle \<Longrightarrow>
     fine_step ps s (s\<lparr>fInQ := q, fPre := PRun e procs\<rparr>)"
| f_pre_proc: "fPre s = PRun e (p # procs) \<Longrightarrow> p (fMem s) e = (m, None) \<Longrightarrow>
     fine_step ps s (s\<lparr>fMem := m, fPre := PRun e procs\<rparr>)"
| f_pre_drop: "fPre s = PRun e (p # procs) \<Longrightarrow> p (fMem s) e = (m, Some err) \<Longrightarrow>
     fine_step ps s (s\<lparr>fMem := m, fPre := PIdle\<rparr>)"
| f_pre_done: "fPre s = PRun e [] \<Longrightarrow> fine_step ps s (s\<lparr>fPre := PHold e\<rparr>)"
| f_pre_send: "fPre s = PHold e \<Longrightarrow> length (fSecretsInQ s) < chanBuffer \<Longrightarrow>
     fine_step ps s (s\<lparr>fPre := PIdle, fSecretsInQ := fSecretsInQ s @ [e]\<rparr>)"
| f_sec_take: "fSecretsInQ s = e # q \<Longrightarrow> fSec s = SIdle \<Longrightarrow> scrubProg e = Ret prog \<Longrightarrow>
     fine_step ps s (s\<lparr>fSecretsInQ := q, fSec := secBegin e prog\<rparr>)"
| f_sec_direct: "ps = None \<Longrightarrow> fInQ s = e # q \<Longrightarrow> fSec s = SIdle \<Longrightarrow> scrubProg e = Ret prog \<Longrightarrow>
     fine_step ps s (s\<lparr>fInQ := q, fSec := secBegin e prog\<rparr>)"
| f_sec_exec: "fSec s = SRun e (i # is) \<Longrightarrow> exec i (fMem s) = (js, m) \<Longrightarrow>
     fine_step ps s (s\<lparr>fMem := m, fSec := SRun e (js @ is)\<rparr>)"
| f_sec_done: "fSec s = SRun e [] \<Longrightarrow> fine_step ps s (s\<lparr>fSec := SHold e\<rparr>)"
| f_sec_send: "fSec s = SHold e \<Longrightarrow> length (fRouterInQ s) < chanBuffer \<Longrightarrow>
     fine_step ps s (s\<lparr>fSec := SIdle, fRouterInQ := fRouterInQ s @ [e]\<rparr>)"
| f_router_take: "fRouterInQ s = e # q \<Longrightarrow>
     fine_step ps s (s\<lparr>fRouterInQ := q, fRouted := fRouted s @ [e]\<rparr>)"

inductive_cases fine_stepE: "fine_step ps s t"

section \<open>What a program has still to redact\<close>

fun redactsNext :: "'x heap \<Rightarrow> 'x instr \<Rightarrow> (ref \<times> nat) set" where
  "redactsNext h (LoadPod r) = specCells h (pSpec (pods h r))"
| "redactsNext h (LoadDeployment r) = specCells h (dTemplateSpec (deployments h r))"
| "redactsNext h (LoadCont sl i) = sliceCells (cEnv (contArrs h (sArr sl) ! (sOff sl + i)))"
| "redactsNext h (LoadEph sl i) = sliceCells (cEnv (ephArrs h (sArr sl) ! (sOff sl + i)))"
| "redactsNext h (LoadEnv sl i) = {(sArr sl, sOff sl + i)}"
| "redactsNext h (StoreEnv sl i ev) = {(sArr sl, sOff sl + i)}"
| "redactsNext h _ = {}"

definition pendings :: "'x heap \<Rightarrow> 'x instr list \<Rightarrow> (ref \<times> nat) set" where
  "pendings h is = (\<Union>i \<in> set is. redactsNext h i)"

text \<open>The copies a program holds agree with the memory.\<close>

fun upToDate :: "'x heap \<Rightarrow> 'x instr \<Rightarrow> bool" where
  "upToDate h (StoreEnv sl i ev) \<longleftrightarrow>
     (sOff sl + i < length (envArrs h (sArr sl)) \<longrightarrow> ev = redactVar (envArrs h (sArr sl) ! (sOff sl + i)))"
| "upToDate h (StoreCont sl i c) \<longleftrightarrow> c = contArrs h (sArr sl) ! (sOff sl + i)"
| "upToDate h (StoreEph sl i c) \<longleftrightarrow> c = ephArrs h (sArr sl) ! (sOff sl + i)"
| "upToDate h (StorePod r s) \<longleftrightarrow> s = pSpec (pods h r)"
| "upToDate h (StoreDeployment r s) \<longleftrightarrow> s = dTemplateSpec (deployments h r)"
| "upToDate h _ \<longleftrightarrow> True"

text \<open>And the memory they go to belongs to the entry.\<close>

fun ownedBy :: "'x heap \<Rightarrow> entry \<Rightarrow> 'x instr \<Rightarrow> bool" where
  "ownedBy h e (LoadPod r) \<longleftrightarrow> data e = Some \<lparr>okind = KPod, optr = Some r\<rparr>"
| "ownedBy h e (StorePod r s) \<longleftrightarrow> data e = Some \<lparr>okind = KPod, optr = Some r\<rparr>"
| "ownedBy h e (LoadDeployment r) \<longleftrightarrow> data e = Some \<lparr>okind = KDeployment, optr = Some r\<rparr>"
| "ownedBy h e (StoreDeployment r s) \<longleftrightarrow> data e = Some \<lparr>okind = KDeployment, optr = Some r\<rparr>"
| "ownedBy h e (LoadCont sl i) \<longleftrightarrow>
     (sArr sl, sOff sl + i) \<in> entryConts h e \<and> sliceCells (cEnv (contArrs h (sArr sl) ! (sOff sl + i))) \<subseteq> entryCells h e"
| "ownedBy h e (StoreCont sl i c) \<longleftrightarrow> (sArr sl, sOff sl + i) \<in> entryConts h e"
| "ownedBy h e (LoadEph sl i) \<longleftrightarrow>
     (sArr sl, sOff sl + i) \<in> entryEphs h e \<and> sliceCells (cEnv (ephArrs h (sArr sl) ! (sOff sl + i))) \<subseteq> entryCells h e"
| "ownedBy h e (StoreEph sl i c) \<longleftrightarrow> (sArr sl, sOff sl + i) \<in> entryEphs h e"
| "ownedBy h e (LoadEnv sl i) \<longleftrightarrow> (sArr sl, sOff sl + i) \<in> entryCells h e"
| "ownedBy h e (StoreEnv sl i ev) \<longleftrightarrow> (sArr sl, sOff sl + i) \<in> entryCells h e"

lemma pendings_simps [simp]:
  "pendings h [] = {}" "pendings h (i # is) = redactsNext h i \<union> pendings h is"
  "pendings h (is @ js) = pendings h is \<union> pendings h js"
  by (auto simp: pendings_def)

lemma pending_redactSet [simp]: "redactsNext (redactSet S h) i = redactsNext h i"
  by (cases i) simp_all

lemma pendings_redactSet [simp]: "pendings (redactSet S h) is = pendings h is"
  by (simp add: pendings_def)

lemma entryConts_redactSet [simp]:
  "entryConts (redactSet S h) e = entryConts h e" "entryEphs (redactSet S h) e = entryEphs h e"
  using footprint_redactSet [of S h e] by (simp_all add: footprint_def)

lemma owned_redactSet [simp]: "ownedBy (redactSet S h) e i = ownedBy h e i"
  by (cases i) simp_all

lemma fresh_redactSet: "upToDate h i \<Longrightarrow> upToDate (redactSet S h) i"
  by (cases i) (auto simp: redactSet_nth)

text \<open>One access redacts what it stores, and leaves the rest of its share to the accesses that follow.\<close>

fun storedCell :: "'x instr \<Rightarrow> (ref \<times> nat) set" where
  "storedCell (StoreEnv sl i ev) = {(sArr sl, sOff sl + i)}"
| "storedCell _ = {}"

lemma pendings_maps [simp]:
  "pendings h (map (LoadCont sl) [0..<sLen sl]) = arrCells (contArrs h (sArr sl)) sl"
  "pendings h (map (LoadEph sl) [0..<sLen sl]) = arrCells (ephArrs h (sArr sl)) sl"
  "pendings h (envProg sl) = sliceCells sl"
  by (auto simp: pendings_def arrCells_def envProg_def sliceCells_def)

lemma pendings_spec [simp]: "pendings h (specProg s) = specCells h s"
  by (simp add: specProg_def specCells_def Un_assoc)

lemma envAssign_fresh:
  assumes "upToDate h (StoreEnv sl i ev)"
  shows "envAssign sl i ev h = redactSet {(sArr sl, sOff sl + i)} h"
  using assms
  by (intro heap_eqI) (auto simp: envAssign_def redactSet_nth nth_list_update)

lemma exec_stores:
  assumes "exec i h = (js, h')" and "upToDate h i"
  shows "h' = redactSet (storedCell i) h" and "storedCell i \<union> pendings h js = redactsNext h i"
proof -
  show "h' = redactSet (storedCell i) h"
    using assms envAssign_fresh [of h] contAssign_self [of _ _ h] ephAssign_self [of _ _ h]
    by (cases i) (auto simp: Let_def)
  show "storedCell i \<union> pendings h js = redactsNext h i"
    using assms(1) by (cases i) (auto simp: Let_def pendings_def [of h "[_]"])
qed

lemma exec_fresh:
  assumes "exec i h = (js, h')"
  shows "list_all (upToDate h') js"
  using assms by (cases i) (auto simp: Let_def specProg_def envProg_def list_all_iff redactVar_def)

lemma arrCells_part: "i < sLen sl \<Longrightarrow> sliceCells (cEnv (arr ! (sOff sl + i))) \<subseteq> arrCells arr sl"
  by (auto simp: arrCells_def)

lemma owned_spec:
  assumes "entrySpec h e = Some s"
  shows "list_all (ownedBy h e) (specProg s)"
proof -
  have "entryConts h e = sliceCells (Containers s) \<union> sliceCells (InitContainers s)"
    "entryEphs h e = sliceCells (EphemeralContainers s)" "entryCells h e = specCells h s"
    using assms by (simp_all add: entryConts_def entryEphs_def entryCells_def)
  then show ?thesis
    using arrCells_part unfolding specProg_def specCells_def list_all_iff
    by (fastforce simp: sliceCells_def)
qed

lemma owned_env: "sliceCells sl \<subseteq> entryCells h e \<Longrightarrow> list_all (ownedBy h e) (envProg sl)"
  by (auto simp: envProg_def sliceCells_def list_all_iff)

lemma exec_owned:
  assumes "exec i h = (js, h')" and "ownedBy h e i"
  shows "list_all (ownedBy h e) js"
proof (cases i)
  case (LoadPod r)
  with assms have "entrySpec h e = Some (pSpec (pods h r))" by (simp add: entrySpec_def)
  from owned_spec [OF this] assms LoadPod show ?thesis by (auto simp: Let_def)
next
  case (LoadDeployment r)
  with assms have "entrySpec h e = Some (dTemplateSpec (deployments h r))" by (simp add: entrySpec_def)
  from owned_spec [OF this] assms LoadDeployment show ?thesis by (auto simp: Let_def)
qed (use assms owned_env in \<open>auto simp: Let_def\<close>)

lemma owned_pending: "ownedBy h e i \<Longrightarrow> redactsNext h i \<subseteq> entryCells h e"
  by (cases i) (auto simp: entryCells_def entrySpec_def)

text \<open>What a program needs of the memory is the same after a processor of another entry.\<close>

lemma same_instr:
  assumes "sameMemory h h' e" and "ownedBy h e i"
  shows "redactsNext h' i = redactsNext h i" and "upToDate h i \<Longrightarrow> upToDate h' i" and "ownedBy h' e i"
proof -
  have foot: "entryConts h' e = entryConts h e" "entryEphs h' e = entryEphs h e" "entryCells h' e = entryCells h e"
    using sameMemory_footprint [OF assms(1)] by (simp_all add: footprint_def)
  have spec: "entrySpec h' e = entrySpec h e" using assms(1) by (simp add: sameMemory_def)
  have cells: "specCells h' s = specCells h s" if "entrySpec h e = Some s" for s
    using that foot(3) spec by (simp add: entryCells_def)
  have conts: "contArrs h' a ! k = contArrs h a ! k" if "(a, k) \<in> entryConts h e" for a k
    using assms(1) that by (auto simp: sameMemory_def)
  have ephs: "ephArrs h' a ! k = ephArrs h a ! k" if "(a, k) \<in> entryEphs h e" for a k
    using assms(1) that by (auto simp: sameMemory_def)
  have envs: "k < length (envArrs h a) \<Longrightarrow> envArrs h' a ! k = envArrs h a ! k" "length (envArrs h' a) = length (envArrs h a)"
    if "(a, k) \<in> entryCells h e" for a k
    using assms(1) that by (auto simp: sameMemory_def)
  show "redactsNext h' i = redactsNext h i"
    using assms(2) cells conts ephs spec by (cases i) (auto simp: entrySpec_def)
  show "upToDate h' i" if "upToDate h i"
    using assms(2) that conts ephs envs spec by (cases i) (auto simp: entrySpec_def)
  show "ownedBy h' e i"
    using assms(2) foot conts ephs by (cases i) auto
qed

section \<open>The invariant\<close>

fun preContent :: "'x preCtl \<Rightarrow> entry list" where
  "preContent PIdle = []"
| "preContent (PRun e procs) = [e]"
| "preContent (PHold e) = [e]"

fun secContent :: "'x secCtl \<Rightarrow> entry list" where
  "secContent SIdle = []"
| "secContent (SRun e is) = [e]"
| "secContent (SHold e) = [e]"

definition fContent :: "'x fine \<Rightarrow> entry list" where
  "fContent s = fRouted s @ fRouterInQ s @ secContent (fSec s) @ fSecretsInQ s @ preContent (fPre s) @ fInQ s"

definition fineInv :: "'x processor list option \<Rightarrow> 'x fine \<Rightarrow> bool" where
  "fineInv ps s \<longleftrightarrow>
     wf_heap (fMem s) \<and> apart (fMem s) (fContent s) \<and> (\<forall>e \<in> set (fContent s). wf_entry e) \<and>
     (ps = None \<longrightarrow> fPre s = PIdle \<and> fSecretsInQ s = []) \<and>
     (\<forall>e procs. fPre s = PRun e procs \<longrightarrow> (\<forall>p \<in> set procs. keepsTo p)) \<and>
     (\<forall>e is. fSec s = SRun e is \<longrightarrow> list_all (upToDate (fMem s)) is \<and> list_all (ownedBy (fMem s) e) is)"

lemma fineInv_init:
  "wf_heap h \<Longrightarrow> apart h es \<Longrightarrow> \<forall>e \<in> set es. wf_entry e \<Longrightarrow> fineInv ps (fineInit h es)"
  by (simp add: fineInv_def fineInit_def fContent_def)

lemma fine_content: "fine_step ps s t \<Longrightarrow> fineInv ps s \<Longrightarrow> subseq (fContent t) (fContent s)"
  by (erule fine_stepE)
    (auto simp: fContent_def fineInv_def secBegin_def subseq_append' split: option.split)

text \<open>The entry a processor works on and the entry of the scrubber are different.\<close>

lemma fine_separate:
  assumes "fineInv ps s" and "fPre s = PRun e procs" and "e' \<in> set (fRouted s @ fRouterInQ s @ secContent (fSec s) @ fSecretsInQ s)"
  shows "separate (fMem s) e e'"
  using assms by (auto simp: fineInv_def fContent_def apart_def pairwise_def)

lemma scrubProg_wf:
  assumes "wf_entry e"
  shows "\<exists>is. scrubProg e = Ret (Some is) \<and> pendings h is = entryCells h e \<and> list_all (upToDate h) is \<and> list_all (ownedBy h e) is"
proof -
  consider "objectType e = OTPod" | "objectType e = OTDeployment" "objectType e \<noteq> OTPod"
    | "objectType e \<noteq> OTPod" "objectType e \<noteq> OTDeployment" by blast
  then show ?thesis
  proof cases
    case 1
    with assms wf_entry_Pod obtain p where
      "Entry_Pod e = Inr (Some p)" "data e = Some \<lparr>okind = KPod, optr = Some p\<rparr>" by blast
    with 1 show ?thesis by (simp add: scrubProg_def entryCells_def entrySpec_def)
  next
    case 2
    with assms wf_entry_Deployment obtain p where
      "Entry_Deployment e = Inr (Some p)" "data e = Some \<lparr>okind = KDeployment, optr = Some p\<rparr>" by blast
    with 2 show ?thesis by (simp add: scrubProg_def entryCells_def entrySpec_def)
  next
    case 3
    with assms have "entrySpec h e = None"
      by (auto simp: wf_entry_def entrySpec_def split: option.splits)
    with 3 show ?thesis by (simp add: scrubProg_def entryCells_def)
  qed
qed

lemma processor_step:
  assumes inv: "fineInv ps s" and pre: "fPre s = PRun e procs" and "keepsTo p" and p: "p (fMem s) e = (m, r)"
  shows "wf_heap m" and "apart m (fContent s)"
    and "fSec s = SRun e' is \<Longrightarrow>
      list_all (upToDate m) is \<and> list_all (ownedBy m e') is \<and> pendings m is = pendings (fMem s) is"
proof -
  have wf: "wf_heap (fMem s)" and ap: "apart (fMem s) (fContent s)" using inv by (simp_all add: fineInv_def)
  note k = keepsToD [OF assms(3) wf p]
  show "wf_heap m" by (rule k(1))
  have e: "e \<in> set (fContent s)" using pre by (simp add: fContent_def)
  have "leavesAlone (fMem s) e e' m" if "separate (fMem s) e e'" for e'
    using keepsTo_local [OF assms(3)] wf p that unfolding proc_local_def by (metis fst_conv)
  then show "apart m (fContent s)" by (rule apart_local [OF ap e])
  assume sec: "fSec s = SRun e' is"
  then have "separate (fMem s) e e'" using fine_separate [OF inv pre, of e'] by simp
  note same = same_instr [OF k(2) [OF this]]
  have i: "list_all (upToDate (fMem s)) is" "list_all (ownedBy (fMem s) e') is" using inv sec by (simp_all add: fineInv_def)
  then have "\<forall>i \<in> set is. redactsNext m i = redactsNext (fMem s) i" using same(1) by (simp add: list_all_iff)
  with i same(2,3) show "list_all (upToDate m) is \<and> list_all (ownedBy m e') is \<and> pendings m is = pendings (fMem s) is"
    by (simp add: list_all_iff pendings_def)
qed

lemma fineInv_step:
  assumes step: "fine_step ps s t" and inv: "fineInv ps s"
    and keeps: "\<forall>procs. ps = Some procs \<longrightarrow> (\<forall>p \<in> set procs. keepsTo p)"
  shows "fineInv ps t"
proof -
  note sub = fine_content [OF step inv]
  have wf: "\<forall>e \<in> set (fContent t). wf_entry e" using inv subseq_set [OF sub] by (auto simp: fineInv_def)
  have ap: "apart h (fContent t)" if "apart h (fContent s)" for h :: "'a heap" using apart_subseq [OF that sub] .
  have ap0: "apart (fMem s) (fContent t)" using ap inv by (simp add: fineInv_def)
  from step show ?thesis
  proof cases
    case (f_pre_proc e p procs m)
    then have "keepsTo p" using inv by (simp add: fineInv_def)
    from processor_step [OF inv f_pre_proc(2) this f_pre_proc(3)] ap wf inv f_pre_proc show ?thesis
      by (auto simp: fineInv_def)
  next
    case (f_pre_drop e p procs m err)
    then have "keepsTo p" using inv by (simp add: fineInv_def)
    from processor_step [OF inv f_pre_drop(2) this f_pre_drop(3)] ap wf inv f_pre_drop show ?thesis
      by (auto simp: fineInv_def)
  next
    case (f_sec_take e q prog)
    then have "wf_entry e" using inv by (simp add: fineInv_def fContent_def)
    with scrubProg_wf [of e "fMem s"] f_sec_take obtain "is" where
      "prog = Some is" "list_all (upToDate (fMem s)) is" "list_all (ownedBy (fMem s) e) is" by auto
    with ap0 wf inv f_sec_take show ?thesis by (auto simp: fineInv_def secBegin_def)
  next
    case (f_sec_direct e q prog)
    then have "wf_entry e" using inv by (simp add: fineInv_def fContent_def)
    with scrubProg_wf [of e "fMem s"] f_sec_direct obtain "is" where
      "prog = Some is" "list_all (upToDate (fMem s)) is" "list_all (ownedBy (fMem s) e) is" by auto
    with ap0 wf inv f_sec_direct show ?thesis by (auto simp: fineInv_def secBegin_def)
  next
    case (f_sec_exec e i "is" js m)
    then have i: "upToDate (fMem s) i" "ownedBy (fMem s) e i" "list_all (upToDate (fMem s)) is" "list_all (ownedBy (fMem s) e) is"
      using inv by (simp_all add: fineInv_def)
    note m = exec_stores(1) [OF f_sec_exec(3) i(1)]
    have "list_all (upToDate m) is" using i(3) fresh_redactSet unfolding m list_all_iff by blast
    moreover have "list_all (ownedBy m e) (js @ is)"
      using i(4) exec_owned [OF f_sec_exec(3) i(2)] unfolding m by (auto simp: list_all_iff)
    ultimately show ?thesis using exec_fresh [OF f_sec_exec(3)] ap0 wf inv f_sec_exec m by (simp add: fineInv_def)
  qed (use ap0 wf inv keeps in \<open>auto simp: fineInv_def\<close>)
qed

section \<open>The refinement\<close>

text \<open>The state of \<open>Pipeline\<close> that a state stands for: the busy stages are seen as done.\<close>

fun doneMem :: "'x heap \<Rightarrow> 'x preCtl \<Rightarrow> 'x heap" where
  "doneMem h (PRun e procs) = fst (processEntry procs h e)"
| "doneMem h _ = h"

fun doneOut :: "'x heap \<Rightarrow> 'x preCtl \<Rightarrow> entry option" where
  "doneOut h PIdle = None"
| "doneOut h (PRun e procs) = (if snd (processEntry procs h e) = None then Some e else None)"
| "doneOut h (PHold e) = Some e"

fun leftToDo :: "'x heap \<Rightarrow> 'x secCtl \<Rightarrow> (ref \<times> nat) set" where
  "leftToDo h (SRun e is) = pendings h is"
| "leftToDo h _ = {}"

fun inHand :: "'x secCtl \<Rightarrow> entry option" where
  "inHand SIdle = None"
| "inHand (SRun e is) = Some e"
| "inHand (SHold e) = Some e"

definition preMem :: "'x fine \<Rightarrow> 'x heap" where
  "preMem s = doneMem (fMem s) (fPre s)"

definition preOut :: "'x fine \<Rightarrow> entry option" where
  "preOut s = doneOut (fMem s) (fPre s)"

definition secPend :: "'x fine \<Rightarrow> (ref \<times> nat) set" where
  "secPend s = leftToDo (fMem s) (fSec s)"

definition secOut :: "'x fine \<Rightarrow> entry option" where
  "secOut s = inHand (fSec s)"

definition fineAbs :: "'x fine \<Rightarrow> 'x pipe" where
  "fineAbs s = \<lparr>mem = redactSet (secPend s) (preMem s), inQ = fInQ s, preHold = preOut s, secretsInQ = fSecretsInQ s,
     secHold = secOut s, routerInQ = fRouterInQ s, routed = fRouted s\<rparr>"

lemmas abs_defs = fineAbs_def preMem_def preOut_def secPend_def secOut_def

lemma fineAbs_init [simp]: "fineAbs (fineInit h es) = pipeInit h es"
  by (simp add: abs_defs fineInit_def pipeInit_def)

text \<open>Seeing the processors as done does not depend on the redaction of another entry.\<close>

lemma pre_commutes:
  assumes inv: "fineInv ps s" and pre: "fPre s = PRun e procs"
    and e': "e' \<in> set (fRouted s @ fRouterInQ s @ secContent (fSec s) @ fSecretsInQ s)" and S: "S \<subseteq> entryCells (fMem s) e'"
  shows "processEntry procs (redactSet S (fMem s)) e = (redactSet S (preMem s), snd (processEntry procs (fMem s) e))"
proof -
  have "keepsTo (processEntry procs)" using inv pre by (intro keepsTo_processEntry) (simp add: fineInv_def)
  moreover have "wf_heap (fMem s)" using inv by (simp add: fineInv_def)
  ultimately show ?thesis
    using keepsToD(4) [of "processEntry procs" "fMem s" e "preMem s" _ e' S] fine_separate [OF inv pre e'] S pre
    by (simp add: preMem_def prod_eq_iff)
qed

text \<open>And it leaves the cells of the others what they are.\<close>

lemma pre_cells:
  assumes inv: "fineInv ps s" and e': "e' \<in> set (fRouted s @ fRouterInQ s @ secContent (fSec s) @ fSecretsInQ s)"
  shows "entryCells (preMem s) e' = entryCells (fMem s) e' \<and> entryEnv (preMem s) e' = entryEnv (fMem s) e' \<and> wf_heap (preMem s)"
proof (cases "fPre s")
  case (PRun e procs)
  have k: "keepsTo (processEntry procs)" using inv PRun by (intro keepsTo_processEntry) (simp add: fineInv_def)
  have wf: "wf_heap (fMem s)" using inv by (simp add: fineInv_def)
  have p: "processEntry procs (fMem s) e = (preMem s, snd (processEntry procs (fMem s) e))"
    using PRun by (simp add: preMem_def)
  note d = keepsToD [OF k wf p]
  note same = d(2) [OF fine_separate [OF inv PRun e']]
  show ?thesis
    using sameMemory_footprint [OF same] sameMemory_env [OF same wf d(1)] d(1) by (simp add: footprint_def)
qed (use inv in \<open>simp_all add: preMem_def fineInv_def\<close>)

lemma pend_owned:
  "fineInv ps s \<Longrightarrow> fSec s = SRun e is \<Longrightarrow> secPend s \<subseteq> entryCells (fMem s) e"
  by (fastforce simp: secPend_def fineInv_def pendings_def list_all_iff dest: owned_pending)

lemma pend_idle: "\<forall>e is. fSec s \<noteq> SRun e is \<Longrightarrow> secPend s = {}"
  by (cases "fSec s") (simp_all add: secPend_def)

lemma pre_commutes_pend:
  assumes inv: "fineInv ps s" and pre: "fPre s = PRun e procs"
  shows "processEntry procs (redactSet (secPend s) (fMem s)) e =
    (redactSet (secPend s) (preMem s), snd (processEntry procs (fMem s) e))"
proof (cases "fSec s")
  case (SRun e' "is")
  then show ?thesis by (intro pre_commutes [OF inv pre _ pend_owned [OF inv SRun]]) simp
qed (use pre in \<open>simp_all add: pend_idle preMem_def\<close>)

text \<open>An access of the scrubber changes nothing that has not been counted as done.\<close>

lemma exec_stutters:
  assumes inv: "fineInv ps s" and sec: "fSec s = SRun e (i # is)" and x: "exec i (fMem s) = (js, m)"
  shows "fineAbs (s\<lparr>fMem := m, fSec := SRun e (js @ is)\<rparr>) = fineAbs s"
proof -
  let ?t = "s\<lparr>fMem := m, fSec := SRun e (js @ is)\<rparr>"
  have i: "upToDate (fMem s) i" "ownedBy (fMem s) e i" using inv sec by (simp_all add: fineInv_def)
  note m = exec_stores [OF x i(1)]
  have S: "storedCell i \<subseteq> entryCells (fMem s) e" using m(2) owned_pending [OF i(2)] by blast
  have pend: "secPend ?t \<union> storedCell i = secPend s"
    using m(2) by (auto simp: secPend_def sec m(1))
  have pre: "preMem ?t = redactSet (storedCell i) (preMem s) \<and> preOut ?t = preOut s"
  proof (cases "fPre s")
    case (PRun d procs)
    have "e \<in> set (fRouted s @ fRouterInQ s @ secContent (fSec s) @ fSecretsInQ s)" using sec by simp
    from pre_commutes [OF inv PRun this S] show ?thesis using PRun by (simp add: preMem_def preOut_def m(1))
  qed (simp_all add: preMem_def preOut_def m(1))
  then show ?thesis using pend by (simp add: fineAbs_def secOut_def sec)
qed

lemma processor_stutters:
  assumes inv: "fineInv ps s" and pre: "fPre s = PRun e (p # procs)" and p: "p (fMem s) e = (m, r)"
  shows "fineAbs (s\<lparr>fMem := m, fPre := if r = None then PRun e procs else PIdle\<rparr>) = fineAbs s"
proof -
  have "keepsTo p" using inv pre by (simp add: fineInv_def)
  from processor_step(3) [OF inv pre this p] have
    "secPend (s\<lparr>fMem := m, fPre := if r = None then PRun e procs else PIdle\<rparr>) = secPend s"
    by (cases "fSec s") (simp_all add: secPend_def)
  then show ?thesis using pre p by (cases r) (simp_all add: fineAbs_def preMem_def preOut_def secOut_def)
qed

lemma begin_scrub:
  assumes inv: "fineInv ps s" and e: "e \<in> set (fRouted s @ fRouterInQ s @ secContent (fSec s) @ fSecretsInQ s)"
    and wf: "wf_entry e" and idle: "fSec s = SIdle" and prog: "scrubProg e = Ret prog"
  shows "\<exists>is. prog = Some is \<and>
    scrubber (mem (fineAbs s)) e = Ret (redactSet (pendings (fMem s) is) (preMem s), Some e)"
proof -
  from scrubProg_wf [OF wf, of "fMem s"] prog obtain "is" where
    "prog = Some is" "pendings (fMem s) is = entryCells (fMem s) e" by auto
  with pre_cells [OF inv e] scrubber_wf [OF wf, of "preMem s"] show ?thesis
    by (simp add: fineAbs_def secPend_def idle)
qed

lemma fine_refines_step:
  assumes step: "fine_step ps s t" and inv: "fineInv ps s"
    and keeps: "\<forall>procs. ps = Some procs \<longrightarrow> (\<forall>p \<in> set procs. keepsTo p)"
  shows "(pipe_step ps)\<^sup>=\<^sup>= (fineAbs s) (fineAbs t)"
  using step
proof cases
  case (f_pre_take procs e q)
  have inv_t: "fineInv ps t" by (rule fineInv_step [OF step inv keeps])
  have pre: "fPre t = PRun e procs" using f_pre_take by simp
  have m: "mem (fineAbs s) = redactSet (secPend t) (fMem t)"
    using f_pre_take by (simp add: fineAbs_def preMem_def secPend_def)
  have "preStep procs (mem (fineAbs s)) e = (redactSet (secPend t) (preMem t), preOut t)"
    unfolding m using pre_commutes_pend [OF inv_t pre] pre by (simp add: preStep_def preOut_def)
  moreover have "secPend t = secPend s" using f_pre_take by (simp add: secPend_def)
  ultimately show ?thesis
    using pre_take [OF f_pre_take(2), of "fineAbs s" e q] f_pre_take
    by (simp add: fineAbs_def secOut_def preOut_def [of s])
next
  case (f_pre_proc e p procs m)
  then show ?thesis using processor_stutters [OF inv f_pre_proc(2,3)] by simp
next
  case (f_pre_drop e p procs m err)
  then show ?thesis using processor_stutters [OF inv f_pre_drop(2,3)] by simp
next
  case (f_pre_send e)
  then show ?thesis using pre_send [of "fineAbs s" e ps] by (simp add: abs_defs)
next
  case (f_sec_take e q prog)
  have "wf_entry e" using inv f_sec_take by (simp add: fineInv_def fContent_def)
  from begin_scrub [OF inv _ this f_sec_take(3,4)] f_sec_take(2) obtain "is" where
    "prog = Some is" "scrubber (mem (fineAbs s)) e = Ret (redactSet (pendings (fMem s) is) (preMem s), Some e)" by auto
  from sec_take [OF _ _ this(2), of q ps] this(1) f_sec_take show ?thesis by (simp add: abs_defs secBegin_def)
next
  case (f_sec_direct e q prog)
  have idle: "fPre s = PIdle" using inv f_sec_direct by (simp add: fineInv_def)
  have "wf_entry e" using inv f_sec_direct by (simp add: fineInv_def fContent_def)
  with scrubProg_wf [of e "fMem s"] f_sec_direct(5) scrubber_wf [of e "fMem s"] obtain "is" where
    "prog = Some is" "scrubber (fMem s) e = Ret (redactSet (pendings (fMem s) is) (fMem s), Some e)" by auto
  with sec_direct [OF f_sec_direct(2), of "fineAbs s" e q] f_sec_direct idle show ?thesis
    by (simp add: abs_defs secBegin_def)
next
  case (f_sec_exec e i "is" js m)
  then show ?thesis using exec_stutters [OF inv f_sec_exec(2,3)] by simp
next
  case (f_sec_send e)
  then show ?thesis using sec_send [of "fineAbs s" e ps] by (simp add: abs_defs)
next
  case (f_router_take e q)
  then show ?thesis using router_take [of "fineAbs s" e q ps] by (simp add: abs_defs)
qed (simp_all add: abs_defs)

interpretation accesses: simulation "fine_step ps" "pipe_step ps" fineAbs
  "\<lambda>s. fineInv ps s \<and> (\<forall>procs. ps = Some procs \<longrightarrow> (\<forall>p \<in> set procs. keepsTo p))" for ps :: "'x processor list option"
  by unfold_locales (use fineInv_step in blast, use fine_refines_step in blast)

interpretation chain: simulation_chain "fine_step ps" "pipe_step ps" queue_step fineAbs
  "\<lambda>s. fineInv ps s \<and> (\<forall>procs. ps = Some procs \<longrightarrow> (\<forall>p \<in> set procs. keepsTo p))" pipeAbs "direct_inv ps"
  for ps :: "'x processor list option"
  by unfold_locales (simp add: fineInv_def direct_inv_def abs_defs)

lemma fine_reach:
  assumes "(fine_step ps)\<^sup>*\<^sup>* (fineInit h es) s"
    and "wf_heap h" and "apart h es" and "\<forall>e \<in> set es. wf_entry e"
    and "\<forall>procs. ps = Some procs \<longrightarrow> (\<forall>p \<in> set procs. keepsTo p)"
  shows "fineInv ps s \<and> (pipe_step ps)\<^sup>*\<^sup>* (pipeInit h es) (fineAbs s)"
  using accesses.reach [OF assms(1)] fineInv_init [OF assms(2-4)] assms(5) by simp

section \<open>Redaction in the memory of the moment\<close>

text \<open>What is behind the scrubber: held by it when it is done, in the router's channel, or routed.\<close>

definition fScrubbed :: "'x fine \<Rightarrow> entry list" where
  "fScrubbed s = fRouted s @ fRouterInQ s @ (case fSec s of SHold e \<Rightarrow> [e] | _ \<Rightarrow> [])"

lemma fine_env:
  assumes inv: "fineInv ps s" and e: "e \<in> set (fScrubbed s)"
  shows "entryEnv (mem (fineAbs s)) e = entryEnv (fMem s) e"
proof -
  have at: "e \<in> set (fRouted s @ fRouterInQ s @ secContent (fSec s) @ fSecretsInQ s)"
    using e by (cases "fSec s") (auto simp: fScrubbed_def)
  note pre = pre_cells [OF inv at]
  have "secPend s \<inter> entryCells (preMem s) e = {}"
  proof (cases "fSec s")
    case (SRun d "is")
    have "separate (fMem s) d e"
      using inv e SRun by (auto simp: fineInv_def fContent_def fScrubbed_def apart_def pairwise_def)
    then have "entryCells (fMem s) d \<inter> entryCells (fMem s) e = {}" by (simp add: separate_def)
    then show ?thesis using pend_owned [OF inv SRun] pre by auto
  qed (simp_all add: pend_idle)
  then have "entryEnv (redactSet (secPend s) (preMem s)) e = entryEnv (preMem s) e"
    using pre by (intro entryEnv_cong) (auto simp: redactSet_nth)
  then show ?thesis using pre by (simp add: fineAbs_def)
qed

lemma fine_redacts:
  assumes "(fine_step ps)\<^sup>*\<^sup>* (fineInit h es) s"
    and "wf_heap h" and "apart h es" and "\<forall>e \<in> set es. wf_entry e"
    and "\<forall>procs. ps = Some procs \<longrightarrow> (\<forall>p \<in> set procs. keepsTo p)"
  shows "\<forall>e \<in> set (fScrubbed s). allRedacted (fMem s) e"
proof
  fix e assume e: "e \<in> set (fScrubbed s)"
  from fine_reach [OF assms] have inv: "fineInv ps s" and reach: "(pipe_step ps)\<^sup>*\<^sup>* (pipeInit h es) (fineAbs s)" by simp_all
  have "\<forall>procs. ps = Some procs \<longrightarrow> (\<forall>p \<in> set procs. proc_local p)" using assms(5) keepsTo_local by blast
  from reach_redact_inv [OF reach assms(2-4) this] have "redact_inv (fineAbs s)" .
  moreover have "e \<in> set (scrubbed (fineAbs s))"
    using e by (cases "fSec s") (auto simp: fScrubbed_def scrubbed_def fineAbs_def secOut_def)
  ultimately show "allRedacted (fMem s) e"
    using fine_env [OF inv e] by (simp add: redact_inv_def allRedacted_def)
qed

section \<open>Every run ends, with everything routed\<close>

fun rankPre :: "'x preCtl \<Rightarrow> nat" where
  "rankPre PIdle = 0"
| "rankPre (PRun e procs) = 6"
| "rankPre (PHold e) = 5"

fun rankSec :: "'x secCtl \<Rightarrow> nat" where
  "rankSec SIdle = 0"
| "rankSec (SRun e is) = 3"
| "rankSec (SHold e) = 2"

fun procsLeft :: "'x preCtl \<Rightarrow> nat" where
  "procsLeft (PRun e procs) = length procs"
| "procsLeft _ = 0"

fun progLeft :: "'x secCtl \<Rightarrow> 'x instr list" where
  "progLeft (SRun e is) = is"
| "progLeft _ = []"

text \<open>A load is replaced by loads of a lower loadLevel and stores.\<close>

fun loadLevel :: "'x instr \<Rightarrow> nat" where
  "loadLevel (LoadPod r) = 3"
| "loadLevel (LoadDeployment r) = 3"
| "loadLevel (LoadCont sl i) = 2"
| "loadLevel (LoadEph sl i) = 2"
| "loadLevel (LoadEnv sl i) = 1"
| "loadLevel _ = 0"

definition atLevel :: "nat \<Rightarrow> 'x fine \<Rightarrow> nat" where
  "atLevel n s = length (filter (\<lambda>i. loadLevel i = n) (progLeft (fSec s)))"

definition fineMeasures :: "('x fine \<Rightarrow> nat) list" where
  "fineMeasures =
     [\<lambda>s. 7 * length (fInQ s) + rankPre (fPre s) + 4 * length (fSecretsInQ s) + rankSec (fSec s) + length (fRouterInQ s),
      \<lambda>s. procsLeft (fPre s), atLevel 3, atLevel 2, atLevel 1, atLevel 0]"

lemma fine_decreases: "fine_step ps s t \<Longrightarrow> (t, s) \<in> measures fineMeasures"
proof (erule fine_stepE)
  fix e i "is" js m
  assume "t = s\<lparr>fMem := m, fSec := SRun e (js @ is)\<rparr>" and "fSec s = SRun e (i # is)" and "exec i (fMem s) = (js, m)"
  then show ?thesis
    by (cases i) (auto simp: fineMeasures_def atLevel_def Let_def specProg_def envProg_def filter_empty_conv)
qed (auto simp: fineMeasures_def secBegin_def split: option.split)

interpretation fine: terminating "fine_step ps" fineMeasures for ps :: "'x processor list option"
  by unfold_locales (rule fine_decreases)

lemma fine_progress:
  assumes inv: "fineInv ps s" and stuck: "\<forall>t. \<not> fine_step ps s t"
  shows "fContent s = fRouted s"
proof -
  have wf: "\<forall>e \<in> set (fContent s). wf_entry e" using inv by (simp add: fineInv_def)
  have r: "fRouterInQ s = []" using stuck f_router_take by (cases "fRouterInQ s") blast+
  have sec: "fSec s = SIdle"
  proof (cases "fSec s")
    case (SRun e "is")
    show ?thesis
    proof (cases "is")
      case Nil
      then show ?thesis using stuck f_sec_done SRun by blast
    next
      case (Cons i is')
      obtain js m where "exec i (fMem s) = (js, m)" by force
      then show ?thesis using stuck f_sec_exec [OF SRun [unfolded Cons]] by blast
    qed
  next
    case (SHold e)
    then show ?thesis using stuck f_sec_send [of s e ps] r by (simp add: chanBuffer_def)
  qed simp
  have prog: "\<exists>is. scrubProg e = Ret is" if "e \<in> set (fContent s)" for e
    using that wf scrubProg_wf by blast
  have sq: "fSecretsInQ s = []"
  proof (cases "fSecretsInQ s")
    case (Cons e q)
    then have "e \<in> set (fContent s)" by (simp add: fContent_def)
    then show ?thesis using prog f_sec_take [OF Cons sec] stuck by blast
  qed simp
  have pre: "fPre s = PIdle"
  proof (cases "fPre s")
    case (PRun e procs)
    show ?thesis
    proof (cases procs)
      case Nil
      then show ?thesis using stuck f_pre_done PRun by blast
    next
      case (Cons p procs')
      obtain m r where "p (fMem s) e = (m, r)" by force
      then show ?thesis using stuck f_pre_proc [OF PRun [unfolded Cons]] f_pre_drop [OF PRun [unfolded Cons]] by (cases r) blast+
    qed
  next
    case (PHold e)
    then show ?thesis using stuck f_pre_send [of s e ps] sq by (simp add: chanBuffer_def)
  qed simp
  have "fInQ s = []"
  proof (cases "fInQ s")
    case (Cons e q)
    then have "e \<in> set (fContent s)" by (simp add: fContent_def)
    then show ?thesis using prog f_sec_direct [OF _ Cons sec] f_pre_take [OF _ Cons pre] stuck by (cases ps) blast+
  qed simp
  with r sec sq pre show ?thesis by (simp add: fContent_def)
qed

lemma fine_delivers:
  assumes "(fine_step None)\<^sup>*\<^sup>* (fineInit h es) s"
    and "wf_heap h" and "apart h es" and "\<forall>e \<in> set es. wf_entry e" and "\<forall>t. \<not> fine_step None s t"
  shows "fRouted s = es"
proof -
  from fine_reach [OF assms(1-4)] have inv: "fineInv None s" and reach: "(pipe_step None)\<^sup>*\<^sup>* (pipeInit h es) (fineAbs s)"
    by simp_all
  note all = fine_progress [OF inv assms(5)]
  then have "fRouterInQ s = []" "fSecretsInQ s = []" "fInQ s = []" "fPre s = PIdle" "fSec s = SIdle"
    by (cases "fSec s"; cases "fPre s"; simp add: fContent_def)+
  with reach_content_direct [OF reach assms(4)] show ?thesis by (simp add: abs_defs content_def)
qed

section \<open>A schedule\<close>

text \<open>One schedule as a function, the latest stage first: it computes runs.\<close>

definition secMove :: "'x fine \<Rightarrow> 'x fine option" where
  "secMove s =
     (case fSec s of
        SHold e \<Rightarrow>
          if length (fRouterInQ s) < chanBuffer
          then Some (s\<lparr>fSec := SIdle, fRouterInQ := fRouterInQ s @ [e]\<rparr>) else None
      | SRun e [] \<Rightarrow> Some (s\<lparr>fSec := SHold e\<rparr>)
      | SRun e (i # is) \<Rightarrow> (let (js, m) = exec i (fMem s) in Some (s\<lparr>fMem := m, fSec := SRun e (js @ is)\<rparr>))
      | SIdle \<Rightarrow>
          (case fSecretsInQ s of
             [] \<Rightarrow> None
           | e # q \<Rightarrow>
               (case scrubProg e of
                  Panic msg \<Rightarrow> None
                | Ret prog \<Rightarrow> Some (s\<lparr>fSecretsInQ := q, fSec := secBegin e prog\<rparr>))))"

definition preMove :: "'x processor list \<Rightarrow> 'x fine \<Rightarrow> 'x fine option" where
  "preMove procs s =
     (case fPre s of
        PHold e \<Rightarrow>
          if length (fSecretsInQ s) < chanBuffer
          then Some (s\<lparr>fPre := PIdle, fSecretsInQ := fSecretsInQ s @ [e]\<rparr>) else None
      | PRun e [] \<Rightarrow> Some (s\<lparr>fPre := PHold e\<rparr>)
      | PRun e (p # rest) \<Rightarrow>
          (let (m, r) = p (fMem s) e in Some (s\<lparr>fMem := m, fPre := if r = None then PRun e rest else PIdle\<rparr>))
      | PIdle \<Rightarrow>
          (case fInQ s of [] \<Rightarrow> None | e # q \<Rightarrow> Some (s\<lparr>fInQ := q, fPre := PRun e procs\<rparr>)))"

fun fineMoves :: "'x processor list \<Rightarrow> nat \<Rightarrow> 'x fine \<Rightarrow> 'x fine" where
  "fineMoves procs 0 s = s"
| "fineMoves procs (Suc k) s =
     (case fRouterInQ s of
        e # q \<Rightarrow> fineMoves procs k (s\<lparr>fRouterInQ := q, fRouted := fRouted s @ [e]\<rparr>)
      | [] \<Rightarrow>
          (case secMove s of
             Some t \<Rightarrow> fineMoves procs k t
           | None \<Rightarrow> (case preMove procs s of Some t \<Rightarrow> fineMoves procs k t | None \<Rightarrow> s)))"

lemma secMove_step: "secMove s = Some t \<Longrightarrow> fine_step ps s t"
  by (auto simp: secMove_def intro: f_sec_take f_sec_exec f_sec_done f_sec_send
      split: secCtl.splits list.splits outcome.splits if_splits prod.splits)

lemma preMove_step: "preMove procs s = Some t \<Longrightarrow> fine_step (Some procs) s t"
  by (auto simp: preMove_def intro: f_pre_take f_pre_proc f_pre_drop f_pre_done f_pre_send
      split: preCtl.splits list.splits if_splits prod.splits option.splits)

lemma fineMoves_run: "(fine_step (Some procs))\<^sup>*\<^sup>* s (fineMoves procs k s)"
proof (induction k arbitrary: s)
  case (Suc k)
  have go: "(fine_step (Some procs))\<^sup>*\<^sup>* s (fineMoves procs k t)" if "fine_step (Some procs) s t" for t
    using that Suc.IH by (rule converse_rtranclp_into_rtranclp)
  show ?case
    using go [OF f_router_take] go [OF secMove_step] go [OF preMove_step] by (auto split: list.split option.split)
qed simp

end
