(* ===== verification/EndToEnd.thy ===== *)
theory EndToEnd
  imports Runner RelistTask HandleEnds Fine
begin

text \<open>
  The reader, the pipeline and the router together. Every entry a handler or the relist sends was made by
  the constructor of entries, so the scrubber knows how to handle it; hence what the pipeline asks of its
  input holds of all that the reader can send.
\<close>

section \<open>What a handler sends\<close>

definition emitsOK :: "hist \<Rightarrow> bool" where
  "emitsOK h \<longleftrightarrow> (\<forall>e \<in> set (sentOf h). wf_entry e \<and> sourceType e = STWatchList)"

lemma emitsOK_append [simp]: "emitsOK (h @ h') \<longleftrightarrow> emitsOK h \<and> emitsOK h'"
  by (auto simp: emitsOK_def hist_simps)

lemma emitsOK_quiet: "quiet h \<Longrightarrow> emitsOK h"
  by (simp add: emitsOK_def quiet_def)

lemma emitsOK_simps [simp]:
  "emitsOK []" "emitsOK (AGet w ev # h) \<longleftrightarrow> emitsOK h" "emitsOK (AMetric m # h) \<longleftrightarrow> emitsOK h"
  "emitsOK (AStop w # h) \<longleftrightarrow> emitsOK h" "emitsOK (AStore g rv r # h) \<longleftrightarrow> emitsOK h"
  "emitsOK (APut e ok # h) \<longleftrightarrow> (ok \<longrightarrow> wf_entry e \<and> sourceType e = STWatchList) \<and> emitsOK h"
  by (auto simp: emitsOK_def hist_simps split: option.split bool.split)

lemma NewEntry_emits: "NewEntry K obj STWatchList ct = Inr e \<Longrightarrow> wf_entry e \<and> sourceType e = STWatchList"
  by (auto simp: NewEntry_Inr_iff NewEntry_wf wf_entry_def)

lemma WatchEventToEntry_emits: "WatchEventToEntry K ev = Inr e \<Longrightarrow> wf_entry e \<and> sourceType e = STWatchList"
  by (auto simp: WatchEventToEntry_def NewEntry_emits split: eventType.splits)

lemma deliverSnapshots_emits: "deliverSnapshots K E objs h = (d, h') \<Longrightarrow> emitsOK h \<Longrightarrow> emitsOK h'"
proof (induction objs arbitrary: h)
  case (Cons obj objs)
  show ?case
  proof (cases "NewEntry K obj STWatchList CTSnapshot")
    case (Inl err)
    with Cons.prems show ?thesis by simp
  next
    case (Inr e)
    with Cons.prems Cons.IH [of "h @ [APut e True]"] NewEntry_emits [OF Inr] show ?thesis
      by (cases "envPut E h e") (auto simp: chansPut_def)
  qed
qed simp

lemma watchEvent_emits:
  assumes "emitsOK (wHist s)" and "watchEvent K E w s = (r, s')"
  shows "emitsOK (wHist s')"
proof (cases "envGet E (wHist s) w")
  case None
  with assms show ?thesis by (auto simp: watchEvent_closed stopper_def)
next
  case (Some event)
  have stop: "emitsOK (wHist (stopper w x)) = emitsOK (wHist x)" for x by (simp add: stopper_def)
  have new: "wf_entry e \<and> sourceType e = STWatchList"
    if "(if initialEvents s \<and> evType event = Added then NewEntry K (evObject event) STWatchList CTSnapshot
         else WatchEventToEntry K event) = Inr e" for e
    using that NewEntry_emits WatchEventToEntry_emits by (auto split: if_splits)
  show ?thesis
    using assms Some new
    by (auto simp: watchEvent_def chansGet_def chansPut_def Let_def stop
        split: eventType.splits option.splits sum.splits bool.splits if_splits)
qed

lemma storeVersion_emits: "storeVersion E st key rv h = (r, h') \<Longrightarrow> emitsOK h \<Longrightarrow> emitsOK h'"
  using storeVersion_hist [of E st key rv h r h'] by auto

lemma watchLoop_emits:
  "watchLoop K E st key w n rv stored s = (res, s') \<Longrightarrow> emitsOK (wHist s) \<Longrightarrow> emitsOK (wHist s')"
proof (induction n arbitrary: rv stored s)
  case (Suc n)
  obtain r s1 where ev: "watchEvent K E w s = (r, s1)" by force
  note one = watchEvent_emits [OF Suc.prems(2) ev]
  have keep: "emitsOK h" if "storeVersion E st key x (wHist s1) = (y, h)" for x y h
    using storeVersion_emits [OF that one] .
  show ?case
  proof (cases "\<exists>rv'. r = Ret (rv', None)")
    case True
    then obtain rv' where r: "r = Ret (rv', None)" by blast
    obtain z h where st: "storeVersion E st key rv' (wHist s1) = (z, h)" by force
    have "(\<exists>x y. watchLoop K E st key w n x y s1 = (res, s')) \<or>
        (\<exists>x y. watchLoop K E st key w n x y (s1\<lparr>wHist := h\<rparr>) = (res, s'))"
      using Suc.prems(1) ev r st by (cases z) (auto split: if_splits)
    then show ?thesis using Suc.IH [OF _ one] Suc.IH [of _ _ "s1\<lparr>wHist := h\<rparr>"] keep [OF st] by auto
  next
    case False
    with Suc.prems(1) ev one keep show ?thesis
      by (auto simp: Let_def split: if_splits prod.splits option.splits outcome.splits)
  qed
qed simp

lemma watchEvents_emits:
  assumes "watchEvents K E st key fuel watcher h = (res, h')" and "emitsOK h"
  shows "emitsOK h'"
proof -
  have run: "emitsOK (wHist s)" if "watchLoop K E st key w fuel rv stored
      \<lparr>initialEvents = ini, stopped = False, wHist = h1\<rparr> = (r, s)" and "emitsOK h1" for h1 s r w rv stored ini
    using watchLoop_emits [OF that(1)] that(2) by simp
  show ?thesis
    using assms
    by (auto simp: watchEvents_def Let_def split: option.splits if_splits outcome.splits prod.splits delivery.splits
        dest: run deliverSnapshots_emits storeVersion_emits)
qed

lemma handleTurn_emits:
  assumes contract: "retry_contract retry" and inv: "handlerInv b s" and "emitsOK (sHist (hState s))"
  shows "emitsOK (sHist (hState (endState (handleTurn K E retry b st n g (newWatchSpec E g) s))))"
proof -
  have re: "emitsOK (sHist (hState (endState (reopen K E retry b st n g (newWatchSpec E g) x))))"
    if "emitsOK (sHist (hState x))" and "spawnerOK b (spw (hState x))" for x
    using reopen_hist [OF contract that(2), of K E st n g g] that(1) emitsOK_quiet by fastforce
  have ok: "spawnerOK b (spw (hState s))" using inv by (simp add: handlerInv_def)
  show ?thesis
  proof (cases "hWatch s")
    case None
    then show ?thesis using re [OF assms(3) ok] by (simp add: handleTurn_def)
  next
    case (Some w)
    obtain r h where we: "watchEvents K E st g n w (sHist (hState s)) = (r, h)" by force
    note h = watchEvents_emits [OF we assms(3)]
    have "emitsOK (sHist (hState (afterWatch K E st g rv err (setHist h s))))" for rv err
      using afterWatch_spec(3) [of K E st g rv err "setHist h s"] h emitsOK_quiet by auto
    then have "emitsOK (sHist (hState (endState (reopen K E retry b st n g (newWatchSpec E g)
        (afterWatch K E st g rv err (setHist h s))))))" for rv err
      using ok by (intro re) (simp_all add: afterWatch_spec)
    with Some we h show ?thesis
      by (simp add: handleTurn_def split: option.split outcome.split)
  qed
qed

lemma handleLoop_emits:
  assumes contract: "retry_contract retry"
  shows "handlerInv b s \<Longrightarrow> emitsOK (sHist (hState s)) \<Longrightarrow>
    emitsOK (sHist (hState (endState (handleLoop K E retry b st fuel g (newWatchSpec E g) n s))))"
proof (induction n arbitrary: s)
  case (Suc n)
  note turn = handleTurn_emits [OF contract Suc.prems, of K E st fuel g]
  show ?case
  proof (cases "handleTurn K E retry b st fuel g (newWatchSpec E g) s")
    case (Again s1)
    with Suc.IH [of s1] handleTurn_spec [OF contract Suc.prems(1) Again] turn show ?thesis by simp
  qed (use turn in simp_all)
qed simp

section \<open>What a reader sends\<close>

text \<open>The run of the handler that a job started, in the environment \<open>E\<close> it meets.\<close>

definition jobRun :: "k8s \<Rightarrow> env \<Rightarrow> handler retry \<Rightarrow> bool \<Rightarrow> bool \<Rightarrow> nat \<Rightarrow> nat \<Rightarrow> sstate \<Rightarrow> job \<Rightarrow> turn" where
  "jobRun K E retry b st fuel n s j =
     handleWatcher K E retry b st fuel n (jKey j) (jVersion j) (jWatch j) (newWatchSpec E (jKey j)) s"

lemma jobRun_emits:
  assumes "retry_contract retry" and "jobsOK K E0 b gs js s0 s" and "j \<in> set js" and "emitsOK (sHist s)"
  shows "emitsOK (sHist (hState (endState (jobRun K E retry b st fuel n s j))))"
  unfolding jobRun_def handleWatcher_def
  using assms by (intro handleLoop_emits) (auto simp: jobsOK_def handlerInit_def)

text \<open>All that a started reader can send: its handlers, each in an environment of its own, and the relist,
  whose history is \<open>hr\<close>.\<close>

definition readerSends :: "k8s \<Rightarrow> handler retry \<Rightarrow> nat \<Rightarrow> nat \<Rightarrow> reader \<Rightarrow> sstate \<Rightarrow> lhist \<Rightarrow> entry set" where
  "readerSends K retry fuel n r s hr =
     (\<Union>j \<in> set (rdJobs r). \<Union>E. set (sentOf (sHist (hState (endState
        (jobRun K E retry (rdBookmarking r) (rdBookmarkStore r) fuel n s j)))))) \<union> set (putsOf hr)"

lemma putsOf_concat: "putsOf (concat hs) = concat (map putsOf hs)"
  by (induction hs) simp_all

lemma relistLoop_emits:
  assumes "retry_contract pretry" and "retry_contract rretry" and "ctxStays R"
    and "relistLoop K view R pretry rretry fuel S m sigs [] = (q, hr)" and "e \<in> set (putsOf hr)"
  shows "wf_entry e \<and> sourceType e = STWatchList"
proof -
  from relistLoop_rounds [OF assms(1-4)] obtain segs where segs: "hr = concat segs" "list_all (roundOK m) segs" by auto
  with assms(5) obtain seg where seg: "roundOK m seg" "e \<in> set (putsOf seg)"
    by (auto simp: putsOf_concat list_all_iff)
  then obtain parts where "seg = concat parts" "list_all snapshotPart parts" by (auto simp: roundOK_def)
  with seg(2) obtain part where "snapshotPart part" "e \<in> set (putsOf part)"
    by (auto simp: putsOf_concat list_all_iff)
  then show ?thesis by (simp add: snapshotPart_def)
qed

lemma readerSends_ok:
  assumes "retry_contract check" and "retry_contract retry" and "retry_contract pretry" and "retry_contract rretry"
    and "ctxMonotone E" and "ctxStays R"
    and "Run K E check S r s = (None, r', s')" and "spawnerOK (rdBookmarking r) (spw s)" and "sHist s = []"
    and "relistLoop K view R pretry rretry fuel S m sigs [] = (q, hr)"
    and "e \<in> readerSends K retry fuel n r' s' hr"
  shows "wf_entry e \<and> sourceType e = STWatchList"
proof (cases "e \<in> set (putsOf hr)")
  case True
  then show ?thesis by (rule relistLoop_emits [OF assms(3,4,6,10)])
next
  case False
  with assms(11) obtain j F where j: "j \<in> set (rdJobs r')"
    "e \<in> set (sentOf (sHist (hState (endState (jobRun K F retry (rdBookmarking r') (rdBookmarkStore r') fuel n s' j)))))"
    by (auto simp: readerSends_def)
  have jobs: "jobsOK K E (rdBookmarking r) (selected E S (rdTypes r) retrieveFlags) (rdJobs r') s s'"
    and same: "rdBookmarking r' = rdBookmarking r"
    using Run_spec [OF assms(1,5,7,8)] assms(7)
    by (auto simp: Run_def Let_def relistTask_def split: if_splits prod.splits option.splits)
  have "emitsOK (sHist s')" using jobs assms(9) emitsOK_quiet by (auto simp: jobsOK_def)
  from jobRun_emits [OF assms(2) jobs j(1) this] j(2) same show ?thesis by (auto simp: emitsOK_def)
qed

section \<open>From the pipeline to the processors\<close>

lemma fine_to_routes:
  assumes "(fine_step ps)\<^sup>*\<^sup>* (fineInit h es) s"
    and "wf_heap h" and "apart h es" and "\<forall>e \<in> set es. wf_entry e"
    and "\<forall>procs. ps = Some procs \<longrightarrow> (\<forall>p \<in> set procs. keepsTo p)"
    and "distinct (map routeOut (routes b))" and "c \<in> set (map routeOut (routes b))"
  shows "\<exists>log. Router_task tp b (fRouted s) = Ret log \<and> subseq (offers c log) es \<and>
    (\<forall>e \<in> set (offers c log). \<forall>v \<in> set (entryEnv (fMem s) e). evValue v = ''REDACTED'') \<and>
    (rBlocking b \<longrightarrow> delivs c log = offers c log) \<and>
    (ps = None \<and> (\<forall>t. \<not> fine_step ps s t) \<longrightarrow> offers c log = es)"
proof -
  obtain log where log: "Router_task tp b (fRouted s) = Ret log" "offers c log = fRouted s"
    "rBlocking b \<longrightarrow> delivs c log = fRouted s"
    using Router_task_spec [OF assms(6), of tp "fRouted s"] assms(7) by blast
  have "subseq (fRouted s) es" using reach_order fine_reach [OF assms(1-5)] by (fastforce simp: fineAbs_def)
  moreover have "\<forall>e \<in> set (fRouted s). \<forall>v \<in> set (entryEnv (fMem s) e). evValue v = ''REDACTED''"
    using fine_redacts [OF assms(1-5)] by (auto simp: fScrubbed_def allRedacted_def redacted_def)
  moreover have "ps = None \<and> (\<forall>t. \<not> fine_step ps s t) \<longrightarrow> fRouted s = es"
    using fine_delivers assms(1-4) by blast
  ultimately show ?thesis using log by auto
qed

end
