(* ===== verification/FakeStore.thy ===== *)
theory FakeStore
  imports Bookmarks
begin

text \<open>The in-memory implementation of the interface (\<^verbatim>\<open>bookmarks/store/fake\<close>), with its record of the
  calls made and the errors a test can configure.\<close>

record fake =
  fValues :: "gvr \<Rightarrow> string option"
  fStores :: "(gvr \<Rightarrow> string option) option" \<comment> \<open>\<open>None\<close> is the nil map\<close>
  storeCalls :: "(gvr \<times> string) list"
  deletes :: "gvr list"
  loadErr :: "gerr option"
  storeErr :: "gerr option"
  deleteErr :: "gerr option"

fun copyValues :: "(gvr \<times> string) list \<Rightarrow> (gvr \<Rightarrow> string option) \<Rightarrow> gvr \<Rightarrow> string option" where
  "copyValues [] m = m"
| "copyValues ((g, v) # kvs) m = copyValues kvs (m(g \<mapsto> v))"

definition Fake_New :: "(gvr \<times> string) list \<Rightarrow> fake" where
  "Fake_New values =
     \<lparr>fValues = copyValues values Map.empty, fStores = None, storeCalls = [], deletes = [],
      loadErr = None, storeErr = None, deleteErr = None\<rparr>"

definition mapValue :: "(gvr \<Rightarrow> string option) \<Rightarrow> gvr \<Rightarrow> string" where
  "mapValue m g = (case m g of None \<Rightarrow> [] | Some v \<Rightarrow> v)"

definition Fake_Load :: "fake \<Rightarrow> gvr \<Rightarrow> (gerr + string) \<times> fake" where
  "Fake_Load s g =
     (case loadErr s of Some err \<Rightarrow> (Inl err, s) | None \<Rightarrow> (Inr (mapValue (fValues s) g), s))"

definition Fake_Store :: "fake \<Rightarrow> gvr \<Rightarrow> string \<Rightarrow> gerr option \<times> fake" where
  "Fake_Store s g rv =
     (let s = s\<lparr>storeCalls := storeCalls s @ [(g, rv)]\<rparr> in
      case storeErr s of
        Some err \<Rightarrow> (Some err, s)
      | None \<Rightarrow>
          (let s = (if fStores s = None then s\<lparr>fStores := Some Map.empty\<rparr> else s) in
           if gvr_Empty g then (Some (Msg ''gvr is empty''), s)
           else if rv = [] then (Some (Msg ''resourceVersion is empty''), s)
           else (None, s\<lparr>fStores := map_option (\<lambda>m. m(g \<mapsto> rv)) (fStores s),
                         fValues := (fValues s)(g \<mapsto> rv)\<rparr>)))"

definition Fake_Delete :: "fake \<Rightarrow> gvr \<Rightarrow> string \<Rightarrow> gerr option \<times> fake" where
  "Fake_Delete s g rv =
     (if gvr_Empty g then (None, s)
      else if rv = [] then (Some (Msg ''resourceVersion is empty''), s)
      else case deleteErr s of
        Some err \<Rightarrow> (Some err, s)
      | None \<Rightarrow>
          (case fValues s g of
             None \<Rightarrow> (None, s)
           | Some stored \<Rightarrow>
               if stored \<noteq> rv then (Some (Sent ErrBookmarkChanged), s)
               else (None, s\<lparr>deletes := deletes s @ [g], fValues := (fValues s)(g := None)\<rparr>)))"

definition SetLoadError :: "gerr option \<Rightarrow> fake \<Rightarrow> fake" where
  "SetLoadError err s = s\<lparr>loadErr := err\<rparr>"

definition SetStoreError :: "gerr option \<Rightarrow> fake \<Rightarrow> fake" where
  "SetStoreError err s = s\<lparr>storeErr := err\<rparr>"

definition SetDeleteError :: "gerr option \<Rightarrow> fake \<Rightarrow> fake" where
  "SetDeleteError err s = s\<lparr>deleteErr := err\<rparr>"

definition Stored :: "fake \<Rightarrow> gvr \<Rightarrow> string" where
  "Stored s g = (case fStores s of None \<Rightarrow> [] | Some m \<Rightarrow> mapValue m g)"

definition StoreCalls :: "fake \<Rightarrow> (gvr \<times> string) list" where
  "StoreCalls s = storeCalls s"

definition Deletes :: "fake \<Rightarrow> gvr list" where
  "Deletes s = deletes s"

lemmas fake_defs = Fake_Load_def Fake_Store_def Fake_Delete_def mapValue_def

text \<open>A configured delete error must not be the sentinel of a changed bookmark, or the store would
  report a change that did not happen.\<close>

definition fakeOK :: "fake \<Rightarrow> bool" where
  "fakeOK s \<longleftrightarrow> (case deleteErr s of None \<Rightarrow> True | Some err \<Rightarrow> \<not> errors_Is err ErrBookmarkChanged)"

interpretation fake: bookmarks Fake_Load Fake_Store Fake_Delete "\<lambda>s. mapValue (fValues s)" id fakeOK
  by unfold_locales
    (auto simp: fake_defs fakeOK_def Let_def split: option.splits if_splits)

end
