(* ===== verification/ConfigMapStore.thy ===== *)
theory ConfigMapStore
  imports Bookmarks Retry
begin

text \<open>
  The implementation of the interface over a Kubernetes ConfigMap (\<^verbatim>\<open>bookmarks/store/configmap\<close>).
  Every operation is a read-modify-write of one shared object, repeated by the retrier. The API server
  is a world \<open>'w\<close> with two calls, \<open>get\<close> and \<open>upd\<close>, which are parameters; the variables the closures of
  the source capture are fields of the state the retrier works on.
\<close>

type_synonym cmData = "string \<Rightarrow> string option"

record configMap =
  cmDataOf :: "cmData option" \<comment> \<open>\<open>None\<close> is the nil map\<close>
  cmVersion :: string

type_synonym 'w cmGet = "'w \<Rightarrow> (gerr + configMap) \<times> 'w"
type_synonym 'w cmUpdate = "configMap \<Rightarrow> 'w \<Rightarrow> gerr option \<times> 'w"

definition maxAttempts :: nat where
  "maxAttempts = 5"

definition cmKey :: "gvr \<Rightarrow> string" where
  "cmKey g =
     (if gvr_Empty g then []
      else (let group = (if Group g = [] then ''core'' else Group g)
            in group @ ''.'' @ Version g @ ''.'' @ Resource g))"

text \<open>Reading a map of Go: the nil map has no keys, a missing key reads as the empty string.\<close>

definition dataAt :: "configMap \<Rightarrow> string \<Rightarrow> string option" where
  "dataAt cm k = (case cmDataOf cm of None \<Rightarrow> None | Some d \<Rightarrow> d k)"

definition dataValue :: "configMap \<Rightarrow> string \<Rightarrow> string" where
  "dataValue cm k = (case dataAt cm k of None \<Rightarrow> [] | Some v \<Rightarrow> v)"

section \<open>New\<close>

definition isSpace :: "char \<Rightarrow> bool" where
  "isSpace c \<longleftrightarrow> c \<in> {CHR '' '', CHR 0x09, CHR 0x0A, CHR 0x0B, CHR 0x0C, CHR 0x0D}"

text \<open>\<^verbatim>\<open>strings.TrimSpace\<close> on ASCII text.\<close>

definition TrimSpace :: "string \<Rightarrow> string" where
  "TrimSpace s = rev (dropWhile isSpace (rev (dropWhile isSpace s)))"

text \<open>\<open>clientset\<close> is whether the client set is not nil; a Store is its namespace and name.\<close>

definition ConfigMap_New :: "bool \<Rightarrow> string \<Rightarrow> string \<Rightarrow> gerr + string \<times> string" where
  "ConfigMap_New clientset namespace name =
     (let namespace = TrimSpace namespace; name = TrimSpace name in
      if \<not> clientset then Inl (Msg ''clientset is nil'')
      else if namespace = [] then Inl (Msg ''namespace is empty'')
      else if name = [] then Inl (Msg ''name is empty'')
      else Inr (namespace, name))"

section \<open>Retrying a call\<close>

record 'w cmCall =
  lastErr :: "gerr option"
  loadedVersion :: string
  changed :: bool
  world :: 'w

definition cmStart :: "'w \<Rightarrow> 'w cmCall" where
  "cmStart w = \<lparr>lastErr = None, loadedVersion = [], changed = False, world = w\<rparr>"

lemma world_cmStart [simp]: "world (cmStart w) = w"
  by (simp add: cmStart_def)

text \<open>One attempt, as the retrier calls it: the operation, its error classified and remembered.\<close>

definition retryAttempt :: "k8s \<Rightarrow> 'w cmCall op \<Rightarrow> 'w cmCall op" where
  "retryAttempt K operation c =
     (let (err, c) = operation c; err = Permanent K err in (err, c\<lparr>lastErr := err\<rparr>))"

definition retryAPIServer :: "k8s \<Rightarrow> 'w cmCall retry \<Rightarrow> 'w cmCall op \<Rightarrow> 'w cmCall op" where
  "retryAPIServer K retry operation c =
     (let (err, c) = retry (Some maxAttempts) (retryAttempt K operation) c in
      (if (case err of None \<Rightarrow> False | Some e \<Rightarrow> errors_Is e ErrPermanent) \<and>
          (case lastErr c of None \<Rightarrow> False | Some e \<Rightarrow> \<not> errors_Is e ErrPermanent)
       then lastErr c else err, c))"

section \<open>Load, Store and Delete\<close>

definition loadAttempt :: "'w cmGet \<Rightarrow> gvr \<Rightarrow> 'w cmCall op" where
  "loadAttempt get g c =
     (case get (world c) of
        (Inl err, w) \<Rightarrow> (Some err, c\<lparr>world := w\<rparr>)
      | (Inr cm, w) \<Rightarrow> (None, c\<lparr>world := w, loadedVersion := dataValue cm (cmKey g)\<rparr>))"

definition CM_Load :: "k8s \<Rightarrow> 'w cmCall retry \<Rightarrow> 'w cmGet \<Rightarrow> 'w \<Rightarrow> gvr \<Rightarrow> (gerr + string) \<times> 'w" where
  "CM_Load K retry get w g =
     (case retryAPIServer K retry (loadAttempt get g) (cmStart w) of
        (Some err, c) \<Rightarrow> (Inl err, world c)
      | (None, c) \<Rightarrow> (Inr (loadedVersion c), world c))"

definition storeAttempt :: "'w cmGet \<Rightarrow> 'w cmUpdate \<Rightarrow> string \<Rightarrow> string \<Rightarrow> 'w cmCall op" where
  "storeAttempt get upd key rv c =
     (case get (world c) of
        (Inl err, w) \<Rightarrow> (Some err, c\<lparr>world := w\<rparr>)
      | (Inr cm, w) \<Rightarrow>
          (case cmDataOf cm of
             None \<Rightarrow>
               (let (err, w) = upd (cm\<lparr>cmDataOf := Some [key \<mapsto> rv]\<rparr>) w in (err, c\<lparr>world := w\<rparr>))
           | Some d \<Rightarrow>
               if dataValue cm key = rv then (None, c\<lparr>world := w\<rparr>)
               else (let (err, w) = upd (cm\<lparr>cmDataOf := Some (d(key \<mapsto> rv))\<rparr>) w in (err, c\<lparr>world := w\<rparr>))))"

definition CM_Store ::
  "k8s \<Rightarrow> 'w cmCall retry \<Rightarrow> 'w cmGet \<Rightarrow> 'w cmUpdate \<Rightarrow> 'w \<Rightarrow> gvr \<Rightarrow> string \<Rightarrow> gerr option \<times> 'w" where
  "CM_Store K retry get upd w g rv =
     (if gvr_Empty g then (Some (Msg ''gvr is empty''), w)
      else if rv = [] then (Some (Msg ''resourceVersion is empty''), w)
      else (let key = cmKey g;
                (err, c) = retryAPIServer K retry (storeAttempt get upd key rv) (cmStart w)
            in (err, world c)))"

definition deleteAttempt ::
  "k8s \<Rightarrow> 'w cmGet \<Rightarrow> 'w cmUpdate \<Rightarrow> string \<Rightarrow> string \<Rightarrow> 'w cmCall op" where
  "deleteAttempt K get upd key rv c =
     (case get (world c) of
        (Inl err, w) \<Rightarrow>
          if isNotFound K err then (None, c\<lparr>world := w\<rparr>) else (Some err, c\<lparr>world := w\<rparr>)
      | (Inr cm, w) \<Rightarrow>
          (case dataAt cm key of
             None \<Rightarrow> (None, c\<lparr>world := w\<rparr>)
           | Some stored \<Rightarrow>
               if stored \<noteq> rv then (None, c\<lparr>world := w, changed := True\<rparr>)
               else (let (err, w) = upd (cm\<lparr>cmDataOf := map_option (\<lambda>d. d(key := None)) (cmDataOf cm)\<rparr>) w
                     in (err, c\<lparr>world := w\<rparr>))))"

definition CM_Delete ::
  "k8s \<Rightarrow> 'w cmCall retry \<Rightarrow> 'w cmGet \<Rightarrow> 'w cmUpdate \<Rightarrow> 'w \<Rightarrow> gvr \<Rightarrow> string \<Rightarrow> gerr option \<times> 'w" where
  "CM_Delete K retry get upd w g rv =
     (let key = cmKey g in
      if key = [] then (None, w)
      else if rv = [] then (Some (Msg ''resourceVersion is empty''), w)
      else (case retryAPIServer K retry (deleteAttempt K get upd key rv) (cmStart w) of
              (Some err, c) \<Rightarrow> (Some err, world c)
            | (None, c) \<Rightarrow> (if changed c then Some (Sent ErrBookmarkChanged) else None, world c)))"

section \<open>The retrying wrapper\<close>

lemma cmKey_bookmarkName: "cmKey = bookmarkName"
  by (simp add: fun_eq_iff cmKey_def bookmarkName_def)

lemma cmKey_Nil_iff: "cmKey g = [] \<longleftrightarrow> gvr_Empty g"
  by (simp add: cmKey_def Let_def)

lemma retryAttempt_None: "retryAttempt K oper c = (None, c') \<Longrightarrow> \<exists>c1. oper c = (None, c1) \<and> c' = c1\<lparr>lastErr := None\<rparr>"
  by (auto simp: retryAttempt_def Let_def split: prod.splits)

lemma retryAPIServer_None_iff:
  "fst (retryAPIServer K retry oper c) = None \<longleftrightarrow>
     fst (retry (Some maxAttempts) (retryAttempt K oper) c) = None"
  by (auto simp: retryAPIServer_def Let_def split_beta split: option.splits)

lemma retryAPIServer_snd:
  "snd (retryAPIServer K retry oper c) = snd (retry (Some maxAttempts) (retryAttempt K oper) c)"
  by (simp add: retryAPIServer_def Let_def split_beta)

text \<open>Invariants of the world and what success means, through the wrapper.\<close>

lemma retryAPIServer_inv:
  assumes "retry_contract retry" and "I (world c)"
    and "\<And>c. I (world c) \<Longrightarrow> I (world (snd (oper c)))"
  shows "I (world (snd (retryAPIServer K retry oper c)))"
proof -
  have "I (world (snd (retryAttempt K oper d)))" if "I (world d)" for d
    using assms(3) [OF that] by (simp add: retryAttempt_def Let_def split_beta)
  with retry_inv [OF assms(1), of "\<lambda>c. I (world c)"] assms(2) show ?thesis
    by (simp add: retryAPIServer_snd)
qed

lemma retryAPIServer_success:
  assumes "retry_contract retry" and "retryAPIServer K retry oper c = (None, c')" and "J c"
    and "\<And>c. J c \<Longrightarrow> J ((snd (oper c))\<lparr>lastErr := e\<rparr>)" and "\<And>c e. J (c\<lparr>lastErr := e\<rparr>) = J c"
  shows "\<exists>c0 c1. J c0 \<and> oper c0 = (None, c1) \<and> c' = c1\<lparr>lastErr := None\<rparr>"
proof -
  have r: "retry (Some maxAttempts) (retryAttempt K oper) c = (None, c')"
    using retryAPIServer_None_iff [of K retry oper c] retryAPIServer_snd [of K retry oper c] assms(2)
    by (simp add: prod_eq_iff)
  have "J (snd (retryAttempt K oper d))" if "J d" for d
    using assms(4) [OF that] assms(5) by (simp add: retryAttempt_def Let_def split_beta)
  from retry_success [OF assms(1) r assms(3) this] obtain c0 where
    "J c0" "retryAttempt K oper c0 = (None, c')" by blast
  with retryAttempt_None show ?thesis by blast
qed

section \<open>What is relied on of the API server\<close>

text \<open>
  \<open>log\<close> is the sequence of versions the ConfigMap has had, each marked with whether this process
  wrote it. Between two calls other writers may add versions. A read returns the newest version. An
  update that succeeds becomes the newest version, and it succeeds only if the version it replaces
  carries the resource version of the object passed (optimistic concurrency); resource versions are
  not reused. An update that fails may have been committed all the same.
\<close>

type_synonym cmLog = "(bool \<times> configMap) list"

definition others :: "configMap list \<Rightarrow> cmLog" where
  "others vs = map (Pair False) vs"

definition committed :: "configMap \<Rightarrow> cmLog \<Rightarrow> cmLog \<Rightarrow> bool" where
  "committed cm l l' \<longleftrightarrow>
     (\<exists>vs new. l' = l @ others vs @ [(True, new)] \<and> l @ others vs \<noteq> [] \<and>
        cmDataOf new = cmDataOf cm \<and> cmVersion (snd (last (l @ others vs))) = cmVersion cm)"

definition cm_api :: "'w cmGet \<Rightarrow> 'w cmUpdate \<Rightarrow> ('w \<Rightarrow> cmLog) \<Rightarrow> bool" where
  "cm_api get upd log \<longleftrightarrow>
     (\<forall>w r w'. get w = (r, w') \<longrightarrow>
        (\<exists>vs. log w' = log w @ others vs) \<and>
        (\<forall>cm. r = Inr cm \<longrightarrow> log w' \<noteq> [] \<and> snd (last (log w')) = cm)) \<and>
     (\<forall>cm w r w'. upd cm w = (r, w') \<longrightarrow>
        committed cm (log w) (log w') \<or> (r \<noteq> None \<and> (\<exists>vs. log w' = log w @ others vs))) \<and>
     (\<forall>w. \<forall>x \<in> set (log w). \<forall>y \<in> set (log w). cmVersion (snd x) = cmVersion (snd y) \<longrightarrow> snd x = snd y)"

text \<open>Every version this process wrote is related by \<open>P\<close> to the version it replaced.\<close>

definition ownWrites :: "(configMap \<Rightarrow> configMap \<Rightarrow> bool) \<Rightarrow> cmLog \<Rightarrow> bool" where
  "ownWrites P l \<longleftrightarrow> successively (\<lambda>x y. fst y \<longrightarrow> P (snd x) (snd y)) l"

lemma ownWrites_others: "ownWrites P (l @ others vs) = ownWrites P l"
proof -
  have "successively (\<lambda>x y. fst y \<longrightarrow> P (snd x) (snd y)) (others vs)"
    by (induction vs rule: induct_list012) (auto simp: others_def)
  then show ?thesis
    by (cases vs) (auto simp: ownWrites_def successively_append_iff others_def)
qed

lemma ownWrites_snoc:
  "ownWrites P (l @ [(True, new)]) \<longleftrightarrow> ownWrites P l \<and> (l = [] \<or> P (snd (last l)) new)"
  by (auto simp: ownWrites_def successively_append_iff)

text \<open>An object that was read and is then written back changed replaces exactly what was read.\<close>

lemma committed_replaces:
  assumes api: "cm_api get upd log" and g: "get w = (Inr cm, w1)"
    and u: "upd cm' w1 = (r, w2)" and v: "cmVersion cm' = cmVersion cm"
    and c: "committed cm' (log w1) (log w2)"
  obtains vs new where "log w2 = log w1 @ others vs @ [(True, new)]" "cmDataOf new = cmDataOf cm'"
    "log w1 @ others vs \<noteq> []" "snd (last (log w1 @ others vs)) = cm"
proof -
  obtain vs new where *: "log w2 = log w1 @ others vs @ [(True, new)]" "log w1 @ others vs \<noteq> []"
    "cmDataOf new = cmDataOf cm'" "cmVersion (snd (last (log w1 @ others vs))) = cmVersion cm'"
    using c by (auto simp: committed_def)
  have "log w1 \<noteq> [] \<and> snd (last (log w1)) = cm"
    using api g unfolding cm_api_def by metis
  then have "last (log w1) \<in> set (log w2)" "snd (last (log w1)) = cm"
    using *(1) by auto
  moreover have "last (log w1 @ others vs) \<in> set (log w2)"
    using *(1,2) by (metis Un_iff append_assoc last_in_set set_append)
  ultimately have "snd (last (log w1 @ others vs)) = cm"
    using api *(4) v unfolding cm_api_def by metis
  with * that show thesis by blast
qed

lemma get_log:
  assumes "cm_api get upd log" and "get w = (r, w1)"
  shows "\<exists>vs. log w1 = log w @ others vs"
  using assms by (auto simp: cm_api_def)

lemma upd_cases:
  assumes "cm_api get upd log" and "upd cm w = (r, w1)"
  shows "committed cm (log w) (log w1) \<or> (r \<noteq> None \<and> (\<exists>vs. log w1 = log w @ others vs))"
  using assms by (auto simp: cm_api_def)

text \<open>A read-modify-write step, for any change: our write relates to what it replaced as the written
  object relates to the one read.\<close>

lemma read_write_own:
  assumes api: "cm_api get upd log" and own: "ownWrites P (log w)"
    and g: "get w = (Inr cm, w1)" and u: "upd cm' w1 = (r, w2)" and v: "cmVersion cm' = cmVersion cm"
    and P: "\<And>new. cmDataOf new = cmDataOf cm' \<Longrightarrow> P cm new"
  shows "ownWrites P (log w2) \<and> (r = None \<longrightarrow> log w2 \<noteq> [] \<and> cmDataOf (snd (last (log w2))) = cmDataOf cm')"
proof -
  have own1: "ownWrites P (log w1)"
    using get_log [OF api g] own by (auto simp: ownWrites_others)
  show ?thesis
    using upd_cases [OF api u]
  proof
    assume c: "committed cm' (log w1) (log w2)"
    obtain vs new where *: "log w2 = (log w1 @ others vs) @ [(True, new)]" "cmDataOf new = cmDataOf cm'"
      "snd (last (log w1 @ others vs)) = cm"
      using committed_replaces [OF api g u v c] by (metis append_assoc)
    have "ownWrites P (log w2)"
      unfolding *(1) ownWrites_snoc using P [OF *(2)] own1 *(3) ownWrites_others by auto
    with *(1,2) show ?thesis by simp
  next
    assume "r \<noteq> None \<and> (\<exists>vs. log w2 = log w1 @ others vs)"
    with own1 show ?thesis by (auto simp: ownWrites_others)
  qed
qed

section \<open>No update is lost\<close>

definition onlyKey :: "string \<Rightarrow> string option \<Rightarrow> configMap \<Rightarrow> configMap \<Rightarrow> bool" where
  "onlyKey key v x y \<longleftrightarrow> dataAt y key = v \<and> (\<forall>k. k \<noteq> key \<longrightarrow> dataAt y k = dataAt x k)"

lemma storeAttempt_own:
  assumes api: "cm_api get upd log" and own: "ownWrites (onlyKey key (Some rv)) (log (world c))"
  shows "ownWrites (onlyKey key (Some rv)) (log (world (snd (storeAttempt get upd key rv c))))"
proof (cases "get (world c)")
  case (Pair q w1)
  have own1: "ownWrites (onlyKey key (Some rv)) (log w1)"
    using get_log [OF api Pair] own by (auto simp: ownWrites_others)
  show ?thesis
  proof (cases "\<exists>cm. q = Inr cm \<and> \<not> (cmDataOf cm \<noteq> None \<and> dataValue cm key = rv)")
    case False
    with Pair own1 show ?thesis by (auto simp: storeAttempt_def split: sum.splits option.splits)
  next
    case True
    then obtain cm where cm: "q = Inr cm" "\<not> (cmDataOf cm \<noteq> None \<and> dataValue cm key = rv)" by blast
    define cm' where "cm' = cm\<lparr>cmDataOf := Some ((case cmDataOf cm of None \<Rightarrow> Map.empty | Some d \<Rightarrow> d)(key \<mapsto> rv))\<rparr>"
    obtain r w2 where u: "upd cm' w1 = (r, w2)" by force
    with Pair cm have w2: "world (snd (storeAttempt get upd key rv c)) = w2"
      by (auto simp: storeAttempt_def cm'_def split: option.splits)
    have "onlyKey key (Some rv) cm new" if "cmDataOf new = cmDataOf cm'" for new
      using that by (auto simp: onlyKey_def dataAt_def cm'_def split: option.split)
    from read_write_own [OF api own Pair [unfolded cm(1)] u _ this] w2
    show ?thesis by (simp add: cm'_def)
  qed
qed

lemma ownWrites_True: "ownWrites (\<lambda>_ _. True) l"
  unfolding ownWrites_def by (induction l rule: induct_list012) simp_all

lemma storeAttempt_leaves:
  assumes api: "cm_api get upd log" and rv: "rv \<noteq> []" and s: "storeAttempt get upd key rv c = (None, c')"
  shows "log (world c') \<noteq> [] \<and> dataAt (snd (last (log (world c')))) key = Some rv"
proof -
  obtain cm w1 where g: "get (world c) = (Inr cm, w1)"
    using s by (auto simp: storeAttempt_def split: prod.splits sum.splits)
  have last: "log w1 \<noteq> [] \<and> snd (last (log w1)) = cm"
    using api g unfolding cm_api_def by metis
  show ?thesis
  proof (cases "cmDataOf cm \<noteq> None \<and> dataValue cm key = rv")
    case True
    with s g have "world c' = w1" by (auto simp: storeAttempt_def)
    moreover from True rv have "dataAt cm key = Some rv"
      by (auto simp: dataValue_def split: option.splits)
    ultimately show ?thesis using last by simp
  next
    case False
    define cm' where "cm' = cm\<lparr>cmDataOf := Some ((case cmDataOf cm of None \<Rightarrow> Map.empty | Some d \<Rightarrow> d)(key \<mapsto> rv))\<rparr>"
    from False s g have u: "upd cm' w1 = (None, world c')"
      by (auto simp: storeAttempt_def cm'_def Let_def split: option.splits prod.splits)
    from read_write_own [OF api ownWrites_True g u] show ?thesis
      by (auto simp: cm'_def dataAt_def split: option.splits)
  qed
qed

text \<open>The conditional delete: what this process writes lacks the key, differs in nothing else, and
  replaces a version that held exactly the resource version given.\<close>

definition removesOnly :: "string \<Rightarrow> string \<Rightarrow> configMap \<Rightarrow> configMap \<Rightarrow> bool" where
  "removesOnly key rv x y \<longleftrightarrow> dataAt x key = Some rv \<and> onlyKey key None x y"

lemma deleteAttempt_own:
  assumes api: "cm_api get upd log" and own: "ownWrites (removesOnly key rv) (log (world c))"
    and s: "deleteAttempt K get upd key rv c = (r, c')"
  shows "ownWrites (removesOnly key rv) (log (world c'))"
proof (cases "get (world c)")
  case (Pair q w1)
  have own1: "ownWrites (removesOnly key rv) (log w1)"
    using get_log [OF api Pair] own by (auto simp: ownWrites_others)
  show ?thesis
  proof (cases "\<exists>cm. q = Inr cm \<and> dataAt cm key = Some rv")
    case False
    with s Pair own1 show ?thesis
      by (auto simp: deleteAttempt_def split: sum.splits option.splits if_splits)
  next
    case True
    then obtain cm where cm: "q = Inr cm" "dataAt cm key = Some rv" by blast
    note g = Pair [unfolded cm(1)]
    define cm' where "cm' = cm\<lparr>cmDataOf := map_option (\<lambda>d. d(key := None)) (cmDataOf cm)\<rparr>"
    from cm s g have u: "upd cm' w1 = (r, world c')"
      by (auto simp: deleteAttempt_def cm'_def Let_def split: prod.splits)
    have "removesOnly key rv cm new" if "cmDataOf new = cmDataOf cm'" for new
      using that cm(2) by (auto simp: removesOnly_def onlyKey_def dataAt_def cm'_def split: option.splits)
    from read_write_own [OF api own g u _ this] show ?thesis by (simp add: cm'_def)
  qed
qed

text \<open>A store without an error leaves its version in the last object.\<close>

lemma CM_Store_leaves:
  assumes api: "cm_api get upd log" and rc: "retry_contract retry"
    and s: "CM_Store K retry get upd w g rv = (None, w')"
  shows "log w' \<noteq> [] \<and> dataAt (snd (last (log w'))) (cmKey g) = Some rv"
proof -
  let ?op = "storeAttempt get upd (cmKey g) rv"
  have rv: "rv \<noteq> []" "\<not> gvr_Empty g" using s by (auto simp: CM_Store_def split: if_splits)
  then obtain c' where c': "retryAPIServer K retry ?op (cmStart w) = (None, c')" "w' = world c'"
    using s by (auto simp: CM_Store_def Let_def split_beta prod_eq_iff)
  from retryAPIServer_success [OF rc c'(1), where J = "\<lambda>_. True"]
  obtain c0 c1 where a: "?op c0 = (None, c1)" "c' = c1\<lparr>lastErr := None\<rparr>" by auto
  show ?thesis using storeAttempt_leaves [OF api rv(1) a(1)] a(2) c'(2) by simp
qed

lemma CM_Store_own:
  assumes api: "cm_api get upd log" and rc: "retry_contract retry"
    and own: "ownWrites (onlyKey (cmKey g) (Some rv)) (log w)"
    and s: "CM_Store K retry get upd w g rv = (r, w')"
  shows "ownWrites (onlyKey (cmKey g) (Some rv)) (log w') \<and>
    (r = None \<longrightarrow> log w' \<noteq> [] \<and> dataAt (snd (last (log w'))) (cmKey g) = Some rv)"
proof (cases "gvr_Empty g \<or> rv = []")
  case True
  with s own show ?thesis by (auto simp: CM_Store_def split: if_splits)
next
  case False
  then have rv: "rv \<noteq> []" by simp
  let ?op = "storeAttempt get upd (cmKey g) rv"
  let ?I = "\<lambda>w. ownWrites (onlyKey (cmKey g) (Some rv)) (log w)"
  obtain c' where c': "retryAPIServer K retry ?op (cmStart w) = (r, c')" "w' = world c'"
    using False s by (auto simp: CM_Store_def Let_def split_beta prod_eq_iff)
  have step: "?I (world (snd (?op c)))" if "?I (world c)" for c
    using storeAttempt_own [OF api that] .
  have I: "?I (world c')"
    using retryAPIServer_inv [OF rc, where I = ?I and c = "cmStart w" and oper = ?op and K = K] step own c'(1)
    by (simp add: cmStart_def)
  moreover have "log w' \<noteq> [] \<and> dataAt (snd (last (log w'))) (cmKey g) = Some rv" if "r = None"
    using CM_Store_leaves [OF api rc] s that by blast
  ultimately show ?thesis using c'(2) by simp
qed

text \<open>A load returns what the newest version held when it was read.\<close>

lemma CM_Load_value:
  assumes api: "cm_api get upd log" and rc: "retry_contract retry"
    and l: "CM_Load K retry get w g = (Inr v, w')"
  shows "\<exists>vs. log w' = log w @ others vs \<and> v = dataValue (snd (last (log w'))) (cmKey g)"
proof -
  let ?op = "loadAttempt get g"
  let ?I = "\<lambda>c. \<exists>vs. log (world c) = log w @ others vs"
  have keep: "?I (snd (?op c))" if "?I c" for c
  proof (cases "get (world c)")
    case (Pair r w1)
    from that obtain vs where "log (world c) = log w @ others vs" by blast
    moreover obtain vs' where "log w1 = log (world c) @ others vs'" using get_log [OF api Pair] by blast
    ultimately have "log w1 = log w @ others (vs @ vs')" by (simp add: others_def)
    then show ?thesis using Pair by (auto simp: loadAttempt_def split: sum.split)
  qed
  obtain c' where c': "retryAPIServer K retry ?op (cmStart w) = (None, c')" "w' = world c'" "v = loadedVersion c'"
    using l by (auto simp: CM_Load_def split: prod.splits option.splits)
  have start: "?I (cmStart w)" by (rule exI [where x = "[]"]) (simp add: cmStart_def others_def)
  from retryAPIServer_success [OF rc c'(1), where J = ?I] start keep
  obtain c0 c1 where a: "?I c0" "?op c0 = (None, c1)" "c' = c1\<lparr>lastErr := None\<rparr>" by auto
  have "?I c1" using keep [OF a(1)] a(2) by simp
  moreover obtain cm where "get (world c0) = (Inr cm, world c1)" "loadedVersion c1 = dataValue cm (cmKey g)"
    using a(2) by (auto simp: loadAttempt_def split: prod.splits sum.splits)
  moreover from this have "snd (last (log (world c1))) = cm" using api unfolding cm_api_def by metis
  ultimately show ?thesis using a(3) c'(2,3) by auto
qed

lemma CM_Delete_own:
  assumes api: "cm_api get upd log" and rc: "retry_contract retry"
    and own: "ownWrites (removesOnly (cmKey g) rv) (log w)"
    and s: "CM_Delete K retry get upd w g rv = (r, w')"
  shows "ownWrites (removesOnly (cmKey g) rv) (log w')"
proof (cases "gvr_Empty g \<or> rv = []")
  case True
  with s own show ?thesis by (auto simp: CM_Delete_def cmKey_Nil_iff Let_def split: if_splits)
next
  case False
  let ?op = "deleteAttempt K get upd (cmKey g) rv"
  let ?I = "\<lambda>w. ownWrites (removesOnly (cmKey g) rv) (log w)"
  have w': "w' = world (snd (retryAPIServer K retry ?op (cmStart w)))"
    using False s
    by (auto simp: CM_Delete_def cmKey_Nil_iff Let_def split: prod.splits option.splits)
  have "?I (world (snd (?op c)))" if "?I (world c)" for c
    using deleteAttempt_own [OF api that, of K "fst (?op c)" "snd (?op c)"] by simp
  then show ?thesis
    using retryAPIServer_inv [OF rc, where I = ?I and c = "cmStart w" and oper = ?op and K = K] own w'
    by (simp add: cmStart_def)
qed

end
