(* ===== verification/ConfigMapServer.thy ===== *)
theory ConfigMapServer
  imports ConfigMapStore
begin

text \<open>
  The ConfigMap store on an API server without other writers: the world is the list of versions the
  object has had, and the server does what \<open>cm_api\<close> asks. On it the store satisfies the laws of the
  bookmark interface.
\<close>

type_synonym memServer = "(bool \<times> cmData option) list"

definition memLog :: "memServer \<Rightarrow> cmLog" where
  "memLog ws = map (\<lambda>(i, b, d). (b, \<lparr>cmDataOf = d, cmVersion = dec i\<rparr>)) (enumerate 0 ws)"

definition memGet :: "memServer cmGet" where
  "memGet ws = (if ws = [] then (Inl (Ext 404 []), ws) else (Inr (snd (last (memLog ws))), ws))"

definition memUpdate :: "memServer cmUpdate" where
  "memUpdate cm ws =
     (if ws \<noteq> [] \<and> cmVersion cm = dec (length ws - 1) then (None, ws @ [(True, cmDataOf cm)])
      else (Some (Ext 409 []), ws))"

lemma memLog_simps [simp]:
  "memLog [] = []" "length (memLog ws) = length ws" "memLog ws = [] \<longleftrightarrow> ws = []"
  "memLog (ws @ [(b, d)]) = memLog ws @ [(b, \<lparr>cmDataOf = d, cmVersion = dec (length ws)\<rparr>)]"
  by (simp_all add: memLog_def enumerate_append_eq enumerate_eq_zip)

lemma memLog_last:
  "ws \<noteq> [] \<Longrightarrow> last (memLog ws) = (fst (last ws), \<lparr>cmDataOf = snd (last ws), cmVersion = dec (length ws - 1)\<rparr>)"
  by (cases ws rule: rev_cases) auto

lemma memLog_nth:
  "i < length ws \<Longrightarrow> memLog ws ! i = (fst (ws ! i), \<lparr>cmDataOf = snd (ws ! i), cmVersion = dec i\<rparr>)"
  by (simp add: memLog_def nth_enumerate_eq split_beta)

lemma memLog_version:
  "x \<in> set (memLog ws) \<Longrightarrow> \<exists>i < length ws. x = memLog ws ! i \<and> cmVersion (snd x) = dec i"
  by (auto simp: in_set_conv_nth memLog_nth)

lemma mem_api: "cm_api memGet memUpdate memLog"
  unfolding cm_api_def
proof (intro conjI allI impI ballI)
  fix w r w'
  assume "memGet w = (r, w')"
  then show "\<exists>vs. memLog w' = memLog w @ others vs"
    by (auto simp: memGet_def others_def split: if_splits)
next
  fix w r w' cm
  assume "memGet w = (r, w')" and "r = Inr cm"
  then show "memLog w' \<noteq> []" and "snd (last (memLog w')) = cm"
    by (auto simp: memGet_def split: if_splits)
next
  fix cm w r w'
  assume u: "memUpdate cm w = (r, w')"
  show "committed cm (memLog w) (memLog w') \<or> r \<noteq> None \<and> (\<exists>vs. memLog w' = memLog w @ others vs)"
  proof (cases "w \<noteq> [] \<and> cmVersion cm = dec (length w - 1)")
    case True
    with u have "committed cm (memLog w) (memLog w')"
      unfolding committed_def
      by (intro exI [where x = "[]"] exI [where x = "\<lparr>cmDataOf = cmDataOf cm, cmVersion = dec (length w)\<rparr>"])
        (auto simp: memUpdate_def others_def memLog_last)
    then show ?thesis ..
  next
    case False
    with u show ?thesis by (auto simp: memUpdate_def others_def)
  qed
next
  fix w x y
  assume "x \<in> set (memLog w)" and "y \<in> set (memLog w)" and "cmVersion (snd x) = cmVersion (snd y)"
  with memLog_version show "snd x = snd y" by (metis inj_dec)
qed

section \<open>One attempt is enough\<close>

lemma attempts_first: "oper s = (None, s') \<Longrightarrow> 0 < n \<Longrightarrow> attempts oper n s = (True, s')"
  by (cases n) auto

lemma retryAPIServer_first:
  assumes "oper c = (None, c')"
  shows "retryAPIServer K retryAll oper c = (None, c'\<lparr>lastErr := None\<rparr>)"
proof -
  have "retryAttempt K oper c = (None, c'\<lparr>lastErr := None\<rparr>)"
    using assms by (simp add: retryAttempt_def Let_def)
  then have "attempts (retryAttempt K oper) maxAttempts c = (True, c'\<lparr>lastErr := None\<rparr>)"
    by (intro attempts_first) (simp_all add: maxAttempts_def)
  then show ?thesis by (simp add: retryAPIServer_def retryAll_def)
qed

text \<open>An operation that always fails and leaves the world alone.\<close>

lemma attempts_fail:
  assumes "\<And>c. world c = w \<Longrightarrow> \<exists>c'. oper c = (Some err, c') \<and> world c' = w" and "world c = w"
  shows "\<exists>c'. attempts (retryAttempt K oper) n c = (False, c') \<and> world c' = w \<and>
    (0 < n \<longrightarrow> lastErr c' = Permanent K (Some err))"
  using assms(2)
proof (induction n arbitrary: c)
  case (Suc n)
  obtain c1 where "oper c = (Some err, c1)" "world c1 = w" using assms(1) Suc.prems by blast
  moreover obtain e where e: "Permanent K (Some err) = Some e"
    using Permanent_None_iff by (metis not_None_eq)
  ultimately have r: "retryAttempt K oper c = (Some e, c1\<lparr>lastErr := Some e\<rparr>)"
    by (simp add: retryAttempt_def Let_def)
  have w1: "world (c1\<lparr>lastErr := Some e\<rparr>) = w" using \<open>world c1 = w\<close> by simp
  from Suc.IH [OF w1] r e w1 show ?case by (cases n) auto
qed auto

lemma retryAPIServer_fail:
  assumes "\<And>c. world c = w \<Longrightarrow> \<exists>c'. oper c = (Some (Ext n []), c') \<and> world c' = w" and "world c = w"
  shows "\<exists>e c'. retryAPIServer K retryAll oper c = (Some e, c') \<and> world c' = w \<and>
    \<not> errors_Is e ErrBookmarkChanged"
proof -
  obtain c' where c': "attempts (retryAttempt K oper) maxAttempts c = (False, c')" "world c' = w"
    "lastErr c' = Permanent K (Some (Ext n []))"
    using attempts_fail [of w oper "Ext n []" c K maxAttempts, OF assms] by (auto simp: maxAttempts_def)
  have "lastErr c' = Some e \<Longrightarrow> \<not> errors_Is e ErrBookmarkChanged" for e
    using Permanent_Is_other [of K "Ext n []" e ErrBookmarkChanged] c'(3) by simp
  with c' show ?thesis
    by (cases "lastErr c'") (auto simp: retryAPIServer_def retryAll_def)
qed

section \<open>The operations on this server\<close>

definition memLook :: "memServer \<Rightarrow> gvr \<Rightarrow> string" where
  "memLook ws g =
     (if gvr_Empty g \<or> ws = [] then [] else dataValue (snd (last (memLog ws))) (cmKey g))"

lemma mem_Load:
  "CM_Load K retryAll memGet ws g =
     (case retryAPIServer K retryAll (loadAttempt memGet g) (cmStart ws) of
        (Some err, c) \<Rightarrow> (Inl err, ws)
      | (None, c) \<Rightarrow> (Inr (dataValue (snd (last (memLog ws))) (cmKey g)), ws)) \<and>
   (ws = [] \<longrightarrow> (\<exists>err. CM_Load K retryAll memGet ws g = (Inl err, ws)))"
proof (cases "ws = []")
  case True
  have "\<exists>e c'. retryAPIServer K retryAll (loadAttempt memGet g) (cmStart ws) = (Some e, c') \<and> world c' = ws \<and>
    \<not> errors_Is e ErrBookmarkChanged"
    by (rule retryAPIServer_fail [where n = 404]) (auto simp: loadAttempt_def memGet_def True cmStart_def)
  then show ?thesis using True by (auto simp: CM_Load_def)
next
  case False
  have "loadAttempt memGet g (cmStart ws) =
      (None, (cmStart ws)\<lparr>world := ws, loadedVersion := dataValue (snd (last (memLog ws))) (cmKey g)\<rparr>)"
    using False by (simp add: loadAttempt_def memGet_def cmStart_def)
  from retryAPIServer_first [where oper = "loadAttempt memGet g" and c = "cmStart ws", OF this] False show ?thesis by (simp add: CM_Load_def)
qed

lemma mem_Store:
  assumes "\<not> gvr_Empty g" and "rv \<noteq> []"
  shows "if ws = [] then \<exists>err. CM_Store K retryAll memGet memUpdate ws g rv = (Some err, ws)
    else \<exists>ws'. CM_Store K retryAll memGet memUpdate ws g rv = (None, ws') \<and> ws' \<noteq> [] \<and>
      dataAt (snd (last (memLog ws'))) = (dataAt (snd (last (memLog ws))))(cmKey g \<mapsto> rv)"
proof (cases "ws = []")
  case True
  have "\<exists>e c'. retryAPIServer K retryAll (storeAttempt memGet memUpdate (cmKey g) rv) (cmStart ws) = (Some e, c') \<and>
      world c' = ws \<and> \<not> errors_Is e ErrBookmarkChanged"
    by (rule retryAPIServer_fail [where n = 404]) (auto simp: storeAttempt_def memGet_def True cmStart_def)
  then show ?thesis using True assms by (auto simp: CM_Store_def)
next
  case False
  let ?cm = "snd (last (memLog ws))"
  obtain c' where c': "storeAttempt memGet memUpdate (cmKey g) rv (cmStart ws) = (None, c')"
    "world c' \<noteq> []" "dataAt (snd (last (memLog (world c')))) = (dataAt ?cm)(cmKey g \<mapsto> rv)"
  proof (cases "cmDataOf ?cm \<noteq> None \<and> dataValue ?cm (cmKey g) = rv")
    case True
    then have "dataAt ?cm (cmKey g) = Some rv"
      using assms(2) by (auto simp: dataValue_def split: option.splits)
    then have "dataAt ?cm = (dataAt ?cm)(cmKey g \<mapsto> rv)" by auto
    with True False that [of "(cmStart ws)\<lparr>world := ws\<rparr>"] show thesis
      by (auto simp: storeAttempt_def memGet_def cmStart_def)
  next
    case upd: False
    define d where "d = (case cmDataOf ?cm of None \<Rightarrow> Map.empty | Some d \<Rightarrow> d)(cmKey g \<mapsto> rv)"
    have "storeAttempt memGet memUpdate (cmKey g) rv (cmStart ws) =
        (None, (cmStart ws)\<lparr>world := ws @ [(True, Some d)]\<rparr>)"
      using upd False
      by (auto simp: storeAttempt_def memGet_def memUpdate_def cmStart_def memLog_last d_def Let_def
          split: option.splits)
    moreover have "dataAt \<lparr>cmDataOf = Some d, cmVersion = v\<rparr> = (dataAt ?cm)(cmKey g \<mapsto> rv)" for v
      by (auto simp: dataAt_def d_def split: option.split)
    ultimately show thesis using that by simp
  qed
  from retryAPIServer_first [where oper = "storeAttempt memGet memUpdate (cmKey g) rv" and c = "cmStart ws", OF c'(1)] c' False assms show ?thesis
    by (auto simp: CM_Store_def Let_def)
qed

lemma mem_Delete_absent:
  assumes "\<not> gvr_Empty g" and "rv \<noteq> []"
  shows "\<exists>r. CM_Delete K retryAll memGet memUpdate [] g rv = (r, []) \<and>
    (\<forall>err. r = Some err \<longrightarrow> \<not> errors_Is err ErrBookmarkChanged)"
proof -
  let ?op = "deleteAttempt K memGet memUpdate (cmKey g) rv"
  have key: "cmKey g \<noteq> []" using assms by (simp add: cmKey_Nil_iff)
  show ?thesis
  proof (cases "isNotFound K (Ext 404 [])")
    case True
    then have "?op (cmStart []) = (None, (cmStart [])\<lparr>world := []\<rparr>)"
      by (simp add: deleteAttempt_def memGet_def cmStart_def)
    from retryAPIServer_first [where oper = ?op and c = "cmStart []", OF this] assms key show ?thesis
      by (simp add: CM_Delete_def Let_def cmStart_def)
  next
    case False
    have "\<exists>e c'. retryAPIServer K retryAll ?op (cmStart []) = (Some e, c') \<and>
      world c' = [] \<and> \<not> errors_Is e ErrBookmarkChanged"
      by (rule retryAPIServer_fail [where n = 404]) (auto simp: deleteAttempt_def memGet_def cmStart_def False)
    then show ?thesis using assms key by (auto simp: CM_Delete_def Let_def)
  qed
qed

lemma mem_Delete_present:
  assumes "\<not> gvr_Empty g" and "rv \<noteq> []" and "ws \<noteq> []" and "dataAt (snd (last (memLog ws))) = old"
  shows "\<exists>ws'. ws' \<noteq> [] \<and>
    CM_Delete K retryAll memGet memUpdate ws g rv =
      (if old (cmKey g) \<in> {None, Some rv} then None else Some (Sent ErrBookmarkChanged), ws') \<and>
    dataAt (snd (last (memLog ws'))) = (if old (cmKey g) = Some rv then old(cmKey g := None) else old)"
proof -
  let ?cm = "snd (last (memLog ws))" and ?op = "deleteAttempt K memGet memUpdate (cmKey g) rv"
  note first = retryAPIServer_first [where oper = ?op and c = "cmStart ws"]
  have key: "cmKey g \<noteq> []" using assms by (simp add: cmKey_Nil_iff)
  consider (none) "old (cmKey g) = None" | (same) "old (cmKey g) = Some rv"
    | (diff) v where "old (cmKey g) = Some v" "v \<noteq> rv" by (cases "old (cmKey g)") auto
  then show ?thesis
  proof cases
    case none
    then have "?op (cmStart ws) = (None, (cmStart ws)\<lparr>world := ws\<rparr>)"
      using assms by (simp add: deleteAttempt_def memGet_def)
    from first [OF this] none assms key show ?thesis by (simp add: CM_Delete_def Let_def cmStart_def)
  next
    case diff
    then have "?op (cmStart ws) = (None, (cmStart ws)\<lparr>world := ws, changed := True\<rparr>)"
      using assms by (simp add: deleteAttempt_def memGet_def cmStart_def)
    from first [OF this] diff assms key show ?thesis by (simp add: CM_Delete_def Let_def)
  next
    case same
    define d where "d = map_option (\<lambda>d. d(cmKey g := None)) (cmDataOf ?cm)"
    have "?op (cmStart ws) = (None, (cmStart ws)\<lparr>world := ws @ [(True, d)]\<rparr>)"
      using same assms by (simp add: deleteAttempt_def memGet_def memUpdate_def cmStart_def memLog_last d_def)
    moreover have "dataAt \<lparr>cmDataOf = d, cmVersion = v\<rparr> = (dataAt ?cm)(cmKey g := None)" for v
      by (auto simp: dataAt_def d_def split: option.split)
    ultimately show ?thesis using same assms key first by (simp add: CM_Delete_def Let_def cmStart_def)
  qed
qed

lemma mem_Delete:
  assumes "\<not> gvr_Empty g" and "rv \<noteq> []"
  shows "if ws = [] then \<exists>r. CM_Delete K retryAll memGet memUpdate ws g rv = (r, ws) \<and>
        (\<forall>err. r = Some err \<longrightarrow> \<not> errors_Is err ErrBookmarkChanged)
    else \<exists>ws'. ws' \<noteq> [] \<and>
      CM_Delete K retryAll memGet memUpdate ws g rv =
        (if dataAt (snd (last (memLog ws))) (cmKey g) \<in> {None, Some rv} then None
         else Some (Sent ErrBookmarkChanged), ws') \<and>
      dataAt (snd (last (memLog ws'))) =
        (if dataAt (snd (last (memLog ws))) (cmKey g) = Some rv
         then (dataAt (snd (last (memLog ws))))(cmKey g := None) else dataAt (snd (last (memLog ws))))"
  using mem_Delete_absent [OF assms] mem_Delete_present [OF assms _ refl, of ws] by (cases "ws = []") simp_all

section \<open>The laws of the interface\<close>

lemma memLook_data: "\<not> gvr_Empty g \<Longrightarrow> ws \<noteq> [] \<Longrightarrow>
   memLook ws g = (case dataAt (snd (last (memLog ws))) (cmKey g) of None \<Rightarrow> [] | Some v \<Rightarrow> v)"
  by (simp add: memLook_def dataValue_def)

lemma CM_Store_refused:
  "gvr_Empty g \<or> rv = [] \<Longrightarrow> \<exists>err. CM_Store K retry get upd ws g rv = (Some err, ws)"
  by (auto simp: CM_Store_def)

lemma CM_Delete_refused:
  "gvr_Empty g \<or> rv = [] \<Longrightarrow>
   CM_Delete K retry get upd ws g rv =
     (if gvr_Empty g then None else Some (Msg ''resourceVersion is empty''), ws)"
  by (auto simp: CM_Delete_def cmKey_Nil_iff Let_def)

lemma mem_Store_look:
  assumes "CM_Store K retryAll memGet memUpdate ws g rv = (r, ws')"
  shows "memLook ws' g' = (if r = None \<and> cmKey g' = cmKey g then rv else memLook ws g') \<and>
    (r = None \<longrightarrow> \<not> gvr_Empty g \<and> rv \<noteq> [])"
proof (cases "gvr_Empty g \<or> rv = [] \<or> ws = []")
  case True
  with assms mem_Store [of g rv ws K] CM_Store_refused [of g rv K retryAll memGet memUpdate ws]
  show ?thesis by (cases "gvr_Empty g \<or> rv = []") auto
next
  case False
  with assms mem_Store [of g rv ws K] have *: "r = None" "ws' \<noteq> []"
    "dataAt (snd (last (memLog ws'))) = (dataAt (snd (last (memLog ws))))(cmKey g \<mapsto> rv)" by auto
  have empty: "gvr_Empty g' \<Longrightarrow> cmKey g' \<noteq> cmKey g"
    using False cmKey_Nil_iff by metis
  show ?thesis
  proof (cases "gvr_Empty g'")
    case True
    with empty False show ?thesis by (simp add: memLook_def)
  next
    case ne: False
    with * False show ?thesis by (simp add: memLook_data)
  qed
qed

lemma mem_Delete_look:
  assumes "CM_Delete K retryAll memGet memUpdate ws g rv = (r, ws')"
  shows "memLook ws' g' =
      (if \<not> gvr_Empty g \<and> cmKey g' = cmKey g \<and> memLook ws g = rv then [] else memLook ws g') \<and>
    (r = None \<longrightarrow> \<not> gvr_Empty g \<longrightarrow> memLook ws' g = []) \<and>
    (\<forall>err. r = Some err \<longrightarrow> errors_Is err ErrBookmarkChanged \<longrightarrow> memLook ws g \<noteq> rv)"
proof (cases "gvr_Empty g \<or> rv = []")
  case True
  with assms CM_Delete_refused [of g rv K retryAll memGet memUpdate ws] show ?thesis
    by (auto simp: memLook_def cmKey_Nil_iff split: if_splits)
next
  case False
  then have ne: "\<not> gvr_Empty g" and rv: "rv \<noteq> []" by auto
  note D = mem_Delete [OF ne rv, of ws K]
  have empty: "gvr_Empty g' \<Longrightarrow> cmKey g' \<noteq> cmKey g"
    using ne cmKey_Nil_iff by metis
  show ?thesis
  proof (cases "ws = []")
    case True
    with D assms show ?thesis using rv by (auto simp: memLook_def)
  next
    case nonempty: False
    with D assms have *: "ws' \<noteq> []"
      "r = (if dataAt (snd (last (memLog ws))) (cmKey g) \<in> {None, Some rv} then None
         else Some (Sent ErrBookmarkChanged))"
      "dataAt (snd (last (memLog ws'))) =
        (if dataAt (snd (last (memLog ws))) (cmKey g) = Some rv
         then (dataAt (snd (last (memLog ws))))(cmKey g := None) else dataAt (snd (last (memLog ws))))"
      by auto
    show ?thesis
    proof (cases "gvr_Empty g'")
      case True
      with empty * ne rv nonempty show ?thesis
        by (auto simp: memLook_data) (auto simp: memLook_def split: option.splits if_splits)
    next
      case False
      with * ne rv nonempty show ?thesis
        by (auto simp: memLook_data split: option.splits if_splits)
    qed
  qed
qed

lemma mem_Load_look:
  assumes "CM_Load K retryAll memGet ws g = (r, ws')"
  shows "ws' = ws \<and> (\<forall>v. r = Inr v \<longrightarrow> \<not> gvr_Empty g \<longrightarrow> v = memLook ws g)"
proof (cases "ws = []")
  case True
  with assms mem_Load [of K ws g] show ?thesis by auto
next
  case False
  with assms mem_Load [of K ws g] show ?thesis
    by (auto simp: memLook_def split: prod.splits option.splits)
qed

interpretation configmap: bookmarks "CM_Load K retryAll memGet" "CM_Store K retryAll memGet memUpdate"
  "CM_Delete K retryAll memGet memUpdate" memLook cmKey "\<lambda>_. True"
  for K :: k8s
proof unfold_locales
  fix s s' :: memServer and g g' :: gvr and rv :: string and r err
  show "CM_Store K retryAll memGet memUpdate s g rv = (None, s') \<Longrightarrow> memLook s' g = rv"
    using mem_Store_look [of K s g rv None s' g] by simp
  show "cmKey g' \<noteq> cmKey g \<Longrightarrow> CM_Store K retryAll memGet memUpdate s g rv = (r, s') \<Longrightarrow>
      memLook s' g' = memLook s g'"
    and "CM_Store K retryAll memGet memUpdate s g rv = (Some err, s') \<Longrightarrow> memLook s' g' = memLook s g'"
    by (auto dest: mem_Store_look)
  show "gvr_Empty g \<or> rv = [] \<Longrightarrow> fst (CM_Store K retryAll memGet memUpdate s g rv) \<noteq> None"
    by (auto simp: CM_Store_def)
  show "\<not> gvr_Empty g \<Longrightarrow> CM_Delete K retryAll memGet memUpdate s g rv = (None, s') \<Longrightarrow> memLook s' g = []"
    using mem_Delete_look [of K s g rv None s' g] by blast
  show "cmKey g' \<noteq> cmKey g \<Longrightarrow> CM_Delete K retryAll memGet memUpdate s g rv = (r, s') \<Longrightarrow>
      memLook s' g' = memLook s g'"
    and "memLook s g \<noteq> rv \<Longrightarrow> CM_Delete K retryAll memGet memUpdate s g rv = (r, s') \<Longrightarrow>
      memLook s' g = memLook s g"
    and "CM_Delete K retryAll memGet memUpdate s g rv = (Some err, s') \<Longrightarrow>
      errors_Is err ErrBookmarkChanged \<Longrightarrow> memLook s g \<noteq> rv"
    using mem_Delete_look [of K s g rv r s' g'] mem_Delete_look [of K s g rv r s' g]
      mem_Delete_look [of K s g rv "Some err" s' g]
    by simp_all
qed (auto dest: mem_Load_look)

lemma mem_Load_ok: "ws \<noteq> [] \<Longrightarrow> \<exists>v. CM_Load K retryAll memGet ws g = (Inr v, ws)"
  using retryAPIServer_first [of "loadAttempt memGet g" "cmStart ws"]
  by (auto simp: CM_Load_def loadAttempt_def memGet_def)

end
