(* ===== verification/Relay.thy ===== *)
theory Relay
  imports RelistTask Steps
begin

text \<open>
  One attempt of a relist as the two goroutines really run it: the lister of \<^verbatim>\<open>listAll\<close> and the loop of
  \<^verbatim>\<open>relistType\<close> that reads its channel, in any interleaving, with the context being cancelled at any
  moment. The channel has a buffer of one. A call of \<^verbatim>\<open>retryableList\<close> is one step. What the sends and
  the context answer is decided by the run: a send succeeds when there is room, and fails only when the
  context is done; the consumer of the output may take an entry at any time. Shown here: no run goes on for ever, and none strands a goroutine.
\<close>

section \<open>The machine\<close>

text \<open>Where the lister is: before the next resource; before a page, with its continue token, the fuel and
  the resources after it; sending the entries of a page; before \<^verbatim>\<open>TryPut\<close> and before \<^verbatim>\<open>Put\<close> of \<^verbatim>\<open>sendErr\<close>;
  before the deferred close; at its end.\<close>

datatype lctl =
    LBegin "gvr list"
  | LPage gvr string nat "gvr list"
  | LEntries "entry list" gvr string nat "gvr list"
  | LFail gerr
  | LFailWait gerr
  | LClosing
  | LEnded
  | LFaulted fault

text \<open>Where the reader is: receiving, putting an entry on the output, returned.\<close>

datatype rctl = RRecv | RPut entry | RRet "gerr option"

record relay =
  lCtl :: lctl
  lHist :: lhist                      \<comment> \<open>the calls before, and those of the lister\<close>
  taken :: "(gerr + entry) list"      \<comment> \<open>received\<close>
  chan :: "(gerr + entry) list"       \<comment> \<open>sent, not received yet\<close>
  chClosed :: bool
  rCtl :: rctl
  rSeen :: "string list"
  rActs :: lhist                      \<comment> \<open>the calls of the reader\<close>
  cancelled :: bool

definition relistBuffer :: nat where
  "relistBuffer = 1"

definition relayInit :: "gvr list \<Rightarrow> string list \<Rightarrow> lhist \<Rightarrow> relay" where
  "relayInit gs ids h = \<lparr>lCtl = LBegin gs, lHist = h, taken = [], chan = [], chClosed = False, rCtl = RRecv,
     rSeen = ids, rActs = [], cancelled = False\<rparr>"

definition offer :: "gerr + entry \<Rightarrow> lctl \<Rightarrow> relay \<Rightarrow> relay" where
  "offer v ctl s = s\<lparr>lCtl := ctl, lHist := lHist s @ [LSend v True], chan := chan s @ [v]\<rparr>"

definition refuse :: "gerr + entry \<Rightarrow> lctl \<Rightarrow> relay \<Rightarrow> relay" where
  "refuse v ctl s = s\<lparr>lCtl := ctl, lHist := lHist s @ [LSend v False]\<rparr>"

text \<open>The goroutine that \<^verbatim>\<open>listAll\<close> submits, with \<^verbatim>\<open>listOne\<close> and \<^verbatim>\<open>sendErr\<close>. \<open>cause\<close> is the cause of the context
  once it is done.\<close>

inductive lister_step :: "k8s \<Rightarrow> (lobj \<Rightarrow> rlist option) \<Rightarrow> renv \<Rightarrow> page retry \<Rightarrow> nat \<Rightarrow> gerr \<Rightarrow> relay \<Rightarrow> relay \<Rightarrow> bool"
  for K view E pretry n cause where
  list_next: "lCtl s = LBegin (g # gs) \<Longrightarrow> lister_step K view E pretry n cause s (s\<lparr>lCtl := LPage g [] n gs\<rparr>)"
| list_done: "lCtl s = LBegin [] \<Longrightarrow> lister_step K view E pretry n cause s (s\<lparr>lCtl := LClosing\<rparr>)"
| page_fuel: "lCtl s = LPage g ct 0 gs \<Longrightarrow> lister_step K view E pretry n cause s (s\<lparr>lCtl := LFaulted OutOfFuel\<rparr>)"
| page: "lCtl s = LPage g ct (Suc m) gs \<Longrightarrow>
     retryableList K view E pretry g (emptyOptions\<lparr>loLimit := 100, loContinue := ct\<rparr>) (lHist s) = (err, p) \<Longrightarrow>
     ctl = (if pgFault p \<noteq> NoFault then LFaulted (pgFault p)
            else (case err of Some e \<Rightarrow> LFail e | None \<Rightarrow> LEntries (pgResult p) g (pgCont p) m gs)) \<Longrightarrow>
     lister_step K view E pretry n cause s (s\<lparr>lCtl := ctl, lHist := pgHist p\<rparr>)"
| send: "lCtl s = LEntries (e # es) g ct m gs \<Longrightarrow> length (chan s) < relistBuffer \<Longrightarrow>
     lister_step K view E pretry n cause s (offer (Inr e) (LEntries es g ct m gs) s)"
| send_lost: "lCtl s = LEntries (e # es) g ct m gs \<Longrightarrow> cancelled s \<Longrightarrow>
     lister_step K view E pretry n cause s (refuse (Inr e) (LFail cause) s)"
| page_next: "lCtl s = LEntries [] g ct m gs \<Longrightarrow>
     lister_step K view E pretry n cause s (s\<lparr>lCtl := if ct = [] then LBegin gs else LPage g ct m gs\<rparr>)"
| err_try: "lCtl s = LFail e \<Longrightarrow> length (chan s) < relistBuffer \<Longrightarrow>
     lister_step K view E pretry n cause s (offer (Inl e) LClosing s)"
| err_full: "lCtl s = LFail e \<Longrightarrow> \<not> length (chan s) < relistBuffer \<Longrightarrow>
     lister_step K view E pretry n cause s (refuse (Inl e) (LFailWait e) s)"
| err_put: "lCtl s = LFailWait e \<Longrightarrow> length (chan s) < relistBuffer \<Longrightarrow>
     lister_step K view E pretry n cause s (offer (Inl e) LClosing s)"
| err_lost: "lCtl s = LFailWait e \<Longrightarrow> cancelled s \<Longrightarrow>
     lister_step K view E pretry n cause s (refuse (Inl e) LClosing s)"
| closing: "lCtl s = LClosing \<Longrightarrow> lister_step K view E pretry n cause s (s\<lparr>lCtl := LEnded, chClosed := True\<rparr>)"

text \<open>The loop of \<^verbatim>\<open>relistType\<close> over the channel, and what comes after it. \<open>cerr\<close> is the error of the context
  once it is done.\<close>

inductive reader_step :: "gerr \<Rightarrow> relay \<Rightarrow> relay \<Rightarrow> bool"
  for cerr where
  recv_err: "rCtl s = RRecv \<Longrightarrow> chan s = Inl e # q \<Longrightarrow>
     reader_step cerr s (s\<lparr>rCtl := RRet (Some e), taken := taken s @ [Inl e], chan := q\<rparr>)"
| recv_seen: "rCtl s = RRecv \<Longrightarrow> chan s = Inr e # q \<Longrightarrow> uid e \<in> set (rSeen s) \<Longrightarrow>
     reader_step cerr s (s\<lparr>taken := taken s @ [Inr e], chan := q\<rparr>)"
| recv_new: "rCtl s = RRecv \<Longrightarrow> chan s = Inr e # q \<Longrightarrow> uid e \<notin> set (rSeen s) \<Longrightarrow>
     reader_step cerr s
       (s\<lparr>rCtl := RPut e, rSeen := rSeen s @ [uid e], taken := taken s @ [Inr e], chan := q\<rparr>)"
| put: "rCtl s = RPut e \<Longrightarrow>
     reader_step cerr s (s\<lparr>rCtl := RRecv, rActs := rActs s @ [LPut e True]\<rparr>)"
| put_lost: "rCtl s = RPut e \<Longrightarrow> cancelled s \<Longrightarrow>
     reader_step cerr s
       (s\<lparr>rCtl := RRet (Some (Wrap ''relist context canceled'' [cerr])),
          rActs := rActs s @ [LPut e False, LDone (Some cerr)]\<rparr>)"
| recv_end: "rCtl s = RRecv \<Longrightarrow> chan s = [] \<Longrightarrow> chClosed s \<Longrightarrow> \<not> cancelled s \<Longrightarrow>
     reader_step cerr s (s\<lparr>rCtl := RRet None, rActs := rActs s @ [LDone None]\<rparr>)"
| recv_end_done: "rCtl s = RRecv \<Longrightarrow> chan s = [] \<Longrightarrow> chClosed s \<Longrightarrow> cancelled s \<Longrightarrow>
     reader_step cerr s
       (s\<lparr>rCtl := RRet (Some (Wrap ''relist context canceled'' [cerr])), rActs := rActs s @ [LDone (Some cerr)]\<rparr>)"

inductive work :: "k8s \<Rightarrow> (lobj \<Rightarrow> rlist option) \<Rightarrow> renv \<Rightarrow> page retry \<Rightarrow> nat \<Rightarrow> gerr \<Rightarrow> gerr \<Rightarrow> relay \<Rightarrow> relay \<Rightarrow> bool"
  for K view E pretry n cerr cause where
  lister: "lister_step K view E pretry n cause s t \<Longrightarrow> work K view E pretry n cerr cause s t"
| reader: "reader_step cerr s t \<Longrightarrow> work K view E pretry n cerr cause s t"

inductive_cases lister_stepE: "lister_step K view E pretry n cause s t"
inductive_cases reader_stepE: "reader_step cerr s t"
inductive_cases workE: "work K view E pretry n cerr cause s t"

text \<open>A step of the system: one of its goroutines works, or the context is cancelled.\<close>

inductive relay_step :: "k8s \<Rightarrow> (lobj \<Rightarrow> rlist option) \<Rightarrow> renv \<Rightarrow> page retry \<Rightarrow> nat \<Rightarrow> gerr \<Rightarrow> gerr \<Rightarrow>
    relay \<Rightarrow> relay \<Rightarrow> bool"
  for K view E pretry n cerr cause where
  works: "work K view E pretry n cerr cause s t \<Longrightarrow> relay_step K view E pretry n cerr cause s t"
| cancel: "\<not> cancelled s \<Longrightarrow> relay_step K view E pretry n cerr cause s (s\<lparr>cancelled := True\<rparr>)"

lemma offer_sel [simp]:
  "lCtl (offer v ctl s) = ctl" "lHist (offer v ctl s) = lHist s @ [LSend v True]" "chan (offer v ctl s) = chan s @ [v]"
  "taken (offer v ctl s) = taken s" "chClosed (offer v ctl s) = chClosed s" "rCtl (offer v ctl s) = rCtl s"
  "rSeen (offer v ctl s) = rSeen s" "rActs (offer v ctl s) = rActs s" "cancelled (offer v ctl s) = cancelled s"
  by (simp_all add: offer_def)

lemma refuse_sel [simp]:
  "lCtl (refuse v ctl s) = ctl" "lHist (refuse v ctl s) = lHist s @ [LSend v False]" "chan (refuse v ctl s) = chan s"
  "taken (refuse v ctl s) = taken s" "chClosed (refuse v ctl s) = chClosed s" "rCtl (refuse v ctl s) = rCtl s"
  "rSeen (refuse v ctl s) = rSeen s" "rActs (refuse v ctl s) = rActs s" "cancelled (refuse v ctl s) = cancelled s"
  by (simp_all add: refuse_def)

section \<open>Every run ends\<close>

text \<open>The lister advances through its resources, pages and entries; between two of its steps the reader
  has finitely many values to receive.\<close>

fun rankResources :: "lctl \<Rightarrow> nat" where
  "rankResources (LBegin gs) = 2 * length gs + 4"
| "rankResources (LPage g ct m gs) = 2 * length gs + 5"
| "rankResources (LEntries es g ct m gs) = 2 * length gs + 5"
| "rankResources (LFail e) = 3"
| "rankResources (LFailWait e) = 2"
| "rankResources LClosing = 1"
| "rankResources _ = 0"

fun rankPages :: "lctl \<Rightarrow> nat" where
  "rankPages (LPage g ct m gs) = 2 * m + 1"
| "rankPages (LEntries es g ct m gs) = 2 * m + 2"
| "rankPages _ = 0"

fun rankEntries :: "lctl \<Rightarrow> nat" where
  "rankEntries (LEntries es g ct m gs) = length es"
| "rankEntries _ = 0"

fun rankReader :: "rctl \<Rightarrow> nat" where
  "rankReader RRecv = 1"
| "rankReader (RPut e) = 2"
| "rankReader (RRet r) = 0"

definition relayMeasures :: "(relay \<Rightarrow> nat) list" where
  "relayMeasures =
     [\<lambda>s. rankResources (lCtl s), \<lambda>s. rankPages (lCtl s), \<lambda>s. rankEntries (lCtl s),
      \<lambda>s. 2 * length (chan s) + rankReader (rCtl s), \<lambda>s. if cancelled s then 0 else 1]"

lemma work_decreases: "work K view E pretry n cerr cause s t \<Longrightarrow> (t, s) \<in> measures relayMeasures"
  by (erule workE; erule lister_stepE reader_stepE) (auto simp: relayMeasures_def split: option.split)

interpretation relay: terminating "relay_step K view E pretry n cerr cause" relayMeasures
  for K view E pretry n cerr cause
  by unfold_locales (auto simp: relay_step.simps work_decreases, auto simp: relayMeasures_def)

section \<open>No goroutine is stranded\<close>

text \<open>An error is the last value on the channel. So a reader that has returned leaves a lister that is
  about to close the channel, or a context that is done.\<close>

definition strandInv :: "relay \<Rightarrow> bool" where
  "strandInv s \<longleftrightarrow>
     (chClosed s \<longleftrightarrow> lCtl s = LEnded) \<and>
     (\<forall>e. Inl e \<in> set (taken s @ chan s) \<longrightarrow> lCtl s = LClosing \<or> lCtl s = LEnded) \<and>
     (\<forall>r. rCtl s = RRet r \<longrightarrow> cancelled s \<or> lCtl s = LClosing \<or> lCtl s = LEnded)"

lemma strandInv_init: "strandInv (relayInit gs ids h)"
  by (simp add: strandInv_def relayInit_def)

lemma strandInv_work: "work K view E pretry n cerr cause s t \<Longrightarrow> strandInv s \<Longrightarrow> strandInv t"
  by (erule workE; erule lister_stepE reader_stepE) (auto simp: strandInv_def split: option.split)

lemma strandInv_reach:
  "(relay_step K view E pretry n cerr cause)\<^sup>*\<^sup>* (relayInit gs ids h) s \<Longrightarrow> strandInv s"
proof (induction rule: rtranclp_induct)
  case (step s t)
  from step(2,3) show ?case by cases (auto simp: strandInv_work, auto simp: strandInv_def)
qed (rule strandInv_init)

text \<open>The lister can always go on once the reader has returned.\<close>

lemma lister_works:
  assumes "lCtl s \<noteq> LEnded" and "\<forall>f. lCtl s \<noteq> LFaulted f" and "cancelled s \<or> chan s = []"
  shows "\<exists>t. lister_step K view E pretry n cause s t"
proof -
  have room: "length (chan s) < relistBuffer \<or> cancelled s" using assms(3) by (auto simp: relistBuffer_def)
  show ?thesis
  proof (cases "lCtl s")
    case (LBegin gs)
    then show ?thesis by (cases gs) (blast intro: list_next list_done)+
  next
    case (LPage g ct m gs)
    show ?thesis
    proof (cases m)
      case (Suc m')
      obtain err p where "retryableList K view E pretry g (emptyOptions\<lparr>loLimit := 100, loContinue := ct\<rparr>) (lHist s) = (err, p)"
        by force
      with page [OF LPage [unfolded Suc] this refl] show ?thesis by blast
    qed (use LPage page_fuel in blast)
  next
    case (LEntries es g ct m gs)
    show ?thesis
    proof (cases es)
      case (Cons e es')
      from room show ?thesis using send [OF LEntries [unfolded Cons]] send_lost [OF LEntries [unfolded Cons]] by blast
    qed (use LEntries page_next in blast)
  next
    case (LFail e)
    then show ?thesis by (cases "length (chan s) < relistBuffer") (blast intro: err_try err_full)+
  next
    case (LFailWait e)
    from room show ?thesis using err_put [OF LFailWait] err_lost [OF LFailWait] by blast
  qed (use assms closing in blast)+
qed

lemma relay_progress:
  assumes inv: "strandInv s" and stuck: "\<forall>t. \<not> work K view E pretry n cerr cause s t"
    and ok: "\<forall>f. lCtl s \<noteq> LFaulted f"
  shows "lCtl s = LEnded \<and> (\<exists>r. rCtl s = RRet r)"
proof -
  have idle: "\<not> reader_step cerr s t" for t using stuck reader by blast
  have receiving: "chan s = [] \<and> \<not> chClosed s \<or> (\<exists>r. rCtl s = RRet r)"
  proof (cases "rCtl s")
    case RRecv
    show ?thesis
    proof (cases "chan s")
      case Nil
      then show ?thesis using idle RRecv recv_end recv_end_done by blast
    next
      case (Cons v q)
      then show ?thesis using idle RRecv recv_err recv_seen recv_new by (cases v) metis+
    qed
  next
    case (RPut e)
    then show ?thesis using idle put by blast
  qed simp
  have listing: "lCtl s = LEnded" if "cancelled s \<or> chan s = []"
    using lister_works that stuck ok lister by metis
  show ?thesis
  proof (cases "\<exists>r. rCtl s = RRet r")
    case True
    then have "cancelled s \<or> lCtl s = LClosing \<or> lCtl s = LEnded" using inv by (auto simp: strandInv_def)
    then have "lCtl s = LEnded" using listing stuck lister [OF closing] by blast
    with True show ?thesis by blast
  next
    case False
    then have "chan s = []" and "\<not> chClosed s" using receiving by auto
    then show ?thesis using listing inv by (simp add: strandInv_def)
  qed
qed

section \<open>A schedule\<close>

text \<open>One schedule as a function, the reader first, without a cancellation: it computes runs.\<close>

definition readerMove :: "relay \<Rightarrow> relay option" where
  "readerMove s =
     (case rCtl s of
        RRecv \<Rightarrow>
          (case chan s of
             [] \<Rightarrow>
               if chClosed s \<and> \<not> cancelled s then Some (s\<lparr>rCtl := RRet None, rActs := rActs s @ [LDone None]\<rparr>)
               else None
           | Inl e # q \<Rightarrow> Some (s\<lparr>rCtl := RRet (Some e), taken := taken s @ [Inl e], chan := q\<rparr>)
           | Inr e # q \<Rightarrow>
               if uid e \<in> set (rSeen s) then Some (s\<lparr>taken := taken s @ [Inr e], chan := q\<rparr>)
               else Some (s\<lparr>rCtl := RPut e, rSeen := rSeen s @ [uid e], taken := taken s @ [Inr e], chan := q\<rparr>))
      | RPut e \<Rightarrow> Some (s\<lparr>rCtl := RRecv, rActs := rActs s @ [LPut e True]\<rparr>)
      | RRet r \<Rightarrow> None)"

definition listerMove :: "k8s \<Rightarrow> (lobj \<Rightarrow> rlist option) \<Rightarrow> renv \<Rightarrow> page retry \<Rightarrow> nat \<Rightarrow> relay \<Rightarrow> relay option" where
  "listerMove K view E pretry n s =
     (let room = length (chan s) < relistBuffer in
      case lCtl s of
        LBegin (g # gs) \<Rightarrow> Some (s\<lparr>lCtl := LPage g [] n gs\<rparr>)
      | LBegin [] \<Rightarrow> Some (s\<lparr>lCtl := LClosing\<rparr>)
      | LPage g ct 0 gs \<Rightarrow> Some (s\<lparr>lCtl := LFaulted OutOfFuel\<rparr>)
      | LPage g ct (Suc m) gs \<Rightarrow>
          (let (err, p) = retryableList K view E pretry g (emptyOptions\<lparr>loLimit := 100, loContinue := ct\<rparr>) (lHist s) in
           Some (s\<lparr>lCtl := if pgFault p \<noteq> NoFault then LFaulted (pgFault p)
                           else (case err of Some e \<Rightarrow> LFail e | None \<Rightarrow> LEntries (pgResult p) g (pgCont p) m gs),
                   lHist := pgHist p\<rparr>))
      | LEntries (e # es) g ct m gs \<Rightarrow> if room then Some (offer (Inr e) (LEntries es g ct m gs) s) else None
      | LEntries [] g ct m gs \<Rightarrow> Some (s\<lparr>lCtl := if ct = [] then LBegin gs else LPage g ct m gs\<rparr>)
      | LFail e \<Rightarrow> Some (if room then offer (Inl e) LClosing s else refuse (Inl e) (LFailWait e) s)
      | LFailWait e \<Rightarrow> if room then Some (offer (Inl e) LClosing s) else None
      | LClosing \<Rightarrow> Some (s\<lparr>lCtl := LEnded, chClosed := True\<rparr>)
      | _ \<Rightarrow> None)"

fun moves :: "k8s \<Rightarrow> (lobj \<Rightarrow> rlist option) \<Rightarrow> renv \<Rightarrow> page retry \<Rightarrow> nat \<Rightarrow> nat \<Rightarrow> relay \<Rightarrow> relay" where
  "moves K view E pretry n 0 s = s"
| "moves K view E pretry n (Suc k) s =
     (case readerMove s of
        Some t \<Rightarrow> moves K view E pretry n k t
      | None \<Rightarrow>
          (case listerMove K view E pretry n s of
             Some t \<Rightarrow> moves K view E pretry n k t
           | None \<Rightarrow> s))"

lemma readerMove_step: "readerMove s = Some t \<Longrightarrow> reader_step cerr s t"
  by (auto simp: readerMove_def intro: recv_err recv_seen recv_new put recv_end
      split: rctl.splits list.splits sum.splits if_splits)

lemma page_end: "lCtl s = LEntries [] g [] m gs \<Longrightarrow> lister_step K view E pretry n cause s (s\<lparr>lCtl := LBegin gs\<rparr>)"
  using page_next [of s g "[]" m gs] by simp

lemma page_more:
  "lCtl s = LEntries [] g ct m gs \<Longrightarrow> ct \<noteq> [] \<Longrightarrow> lister_step K view E pretry n cause s (s\<lparr>lCtl := LPage g ct m gs\<rparr>)"
  using page_next [of s g ct m gs] by simp

lemma listerMove_step: "listerMove K view E pretry n s = Some t \<Longrightarrow> lister_step K view E pretry n cause s t"
  by (auto simp: listerMove_def Let_def intro: list_next list_done page_fuel page send page_end page_more err_try err_full
      err_put closing split: lctl.splits list.splits nat.splits if_splits prod.splits)

lemma moves_run: "(relay_step K view E pretry n cerr cause)\<^sup>*\<^sup>* s (moves K view E pretry n k s)"
proof (induction k arbitrary: s)
  case (Suc k)
  have go: "(relay_step K view E pretry n cerr cause)\<^sup>*\<^sup>* s (moves K view E pretry n k t)"
    if "work K view E pretry n cerr cause s t" for t
    using works [OF that] Suc.IH by (rule converse_rtranclp_into_rtranclp)
  show ?case
  proof (cases "readerMove s")
    case (Some t)
    then show ?thesis using go [OF reader [OF readerMove_step]] by simp
  next
    case None
    then show ?thesis using go [OF lister [OF listerMove_step]] by (simp split: option.split)
  qed
qed simp

end
