(* ===== verification/Replay.thy ===== *)
theory Replay
  imports Relay
begin

text \<open>
  Every interleaving of the lister and its reader is a run of the sequential model: there is an
  environment, with the same answers of the server, in which the lister run to its end and its channel
  read afterwards make the same calls with the same results. What is proved of \<open>relistAttempt\<close> for all
  environments therefore holds of the goroutines. The environment answers each call as the run did: it
  replays the calls of the lister followed by those of the reader.
\<close>

section \<open>An environment that replays\<close>

text \<open>The call that comes next in the run \<open>A\<close>, begun at \<open>h0\<close>, after the history \<open>h\<close>.\<close>

definition nextAct :: "lhist \<Rightarrow> lhist \<Rightarrow> lhist \<Rightarrow> lact option" where
  "nextAct h0 A h =
     (if prefix h0 h \<and> strict_prefix (drop (length h0) h) A then Some (A ! (length h - length h0)) else None)"

lemma nextAct_iff: "nextAct h0 A h = Some a \<longleftrightarrow> (\<exists>p q. h = h0 @ p \<and> A = p @ a # q)"
proof
  assume "nextAct h0 A h = Some a"
  then show "\<exists>p q. h = h0 @ p \<and> A = p @ a # q"
    by (auto simp: nextAct_def prefix_def strict_prefix_def neq_Nil_conv nth_append split: if_splits)
qed (auto simp: nextAct_def prefix_def strict_prefix_def)

lemma nextAct_at: "nextAct h0 (p @ a # q) (h0 @ p) = Some a"
  by (auto simp: nextAct_iff)

definition replay :: "renv \<Rightarrow> gerr \<Rightarrow> gerr \<Rightarrow> lhist \<Rightarrow> lhist \<Rightarrow> renv" where
  "replay E cerr cause h0 A =
     (let sent = (\<lambda>h. case nextAct h0 A h of Some (LSend v ok) \<Rightarrow> ok | _ \<Rightarrow> True) in
      E\<lparr>rSubmit := \<lambda>h. True, rTryPut := sent, rPutCh := sent,
        rPutOut := \<lambda>h e. case nextAct h0 A h of Some (LPut e' ok) \<Rightarrow> ok | _ \<Rightarrow> True,
        rCtxErr := \<lambda>h. case nextAct h0 A h of Some (LDone x) \<Rightarrow> x | _ \<Rightarrow> Some cerr,
        rCause := \<lambda>h. Some cause\<rparr>)"

lemma replay_sel [simp]:
  "rList (replay E cerr cause h0 A) = rList E" "rSubmit (replay E cerr cause h0 A) h = True"
  "rCause (replay E cerr cause h0 A) h = Some cause"
  by (simp_all add: replay_def Let_def)

lemma replay_at [simp]:
  "rTryPut (replay E cerr cause h0 (p @ LSend v ok # q)) (h0 @ p) = ok"
  "rPutCh (replay E cerr cause h0 (p @ LSend v ok # q)) (h0 @ p) = ok"
  "rPutOut (replay E cerr cause h0 (p @ LPut e ok # q)) (h0 @ p) e' = ok"
  "rCtxErr (replay E cerr cause h0 (p @ LDone x # q)) (h0 @ p) = x"
  by (simp_all add: replay_def Let_def nextAct_at)

text \<open>A replayed run in which the context was found live only before anything was lost keeps the rule
  that a done context stays done.\<close>

lemma replay_stays:
  assumes "\<And>p q. A = p @ LDone None # q \<Longrightarrow> (\<forall>e. LPut e False \<notin> set p) \<and> (\<forall>v. LSend v False \<notin> set p)"
  shows "ctxStays (replay E cerr cause h0 A)"
proof -
  let ?E = "replay E cerr cause h0 A"
  have live: "\<exists>p q. h = h0 @ p \<and> A = p @ LDone None # q" if "rCtxErr ?E h = None" for h
    using that by (auto simp: replay_def Let_def nextAct_iff split: option.splits lact.splits)
  have put: "\<exists>p e' q. h = h0 @ p \<and> A = p @ LPut e' False # q" if "\<not> rPutOut ?E h e" for h e
    using that by (auto simp: replay_def Let_def nextAct_iff split: option.splits lact.splits)
  have send: "\<exists>p v q. h = h0 @ p \<and> A = p @ LSend v False # q" if "\<not> rPutCh ?E h" for h
    using that by (auto simp: replay_def Let_def nextAct_iff split: option.splits lact.splits)
  have later: "a \<in> set p'" if "A = p @ a # q" and "A = p' @ b # q'" and "h0 @ p' = (h0 @ p) @ x # more" for a b p q p' q' x more
  proof -
    from that have "p' = p @ x # more" by simp
    with that show ?thesis by simp
  qed
  show ?thesis
    unfolding ctxStays_def
  proof (intro conjI allI impI notI)
    fix h e more
    assume "\<not> rPutOut ?E h e" and "rCtxErr ?E (h @ LPut e False # more) = None"
    with put [of h e] live [of "h @ LPut e False # more"] obtain p e' q p' q' where
      h: "h = h0 @ p" "A = p @ LPut e' False # q" "h @ LPut e False # more = h0 @ p'" "A = p' @ LDone None # q'" by blast
    have "LPut e' False \<in> set p'" by (rule later [OF h(2,4), where x = "LPut e False" and more = more]) (use h(1,3) in simp)
    with assms [OF h(4)] show False by blast
  next
    fix h r more
    assume "\<not> rPutCh ?E h" and "rCtxErr ?E (h @ LSend r False # more) = None"
    with send [of h] live [of "h @ LSend r False # more"] obtain p v q p' q' where
      h: "h = h0 @ p" "A = p @ LSend v False # q" "h @ LSend r False # more = h0 @ p'" "A = p' @ LDone None # q'" by blast
    have "LSend v False \<in> set p'" by (rule later [OF h(2,4), where x = "LSend r False" and more = more]) (use h(1,3) in simp)
    with assms [OF h(4)] show False by blast
  qed simp
qed

section \<open>The lister\<close>

text \<open>The rest of the lister's program from a point on, as the sequential model runs it.\<close>

definition afterOne :: "k8s \<Rightarrow> (lobj \<Rightarrow> rlist option) \<Rightarrow> renv \<Rightarrow> page retry \<Rightarrow> nat \<Rightarrow> gvr list \<Rightarrow>
    gerr option \<times> rchan \<Rightarrow> rchan" where
  "afterOne K view E pretry n gs r =
     (case r of
        (Some err, c) \<Rightarrow> if chFault c \<noteq> NoFault then c else sendErr E err c
      | (None, c) \<Rightarrow> listEach K view E pretry n gs c)"

fun finish :: "k8s \<Rightarrow> (lobj \<Rightarrow> rlist option) \<Rightarrow> renv \<Rightarrow> page retry \<Rightarrow> nat \<Rightarrow> lctl \<Rightarrow> rchan \<Rightarrow> rchan" where
  "finish K view E pretry n (LBegin gs) c = listEach K view E pretry n gs c"
| "finish K view E pretry n (LPage g ct m gs) c = afterOne K view E pretry n gs (listOne K view E pretry m g ct c)"
| "finish K view E pretry n (LEntries es g ct m gs) c =
     afterOne K view E pretry n gs
       (case sendAll E es c of
          (False, c) \<Rightarrow> (rCause E (chHist c), c)
        | (True, c) \<Rightarrow> if ct = [] then (None, c) else listOne K view E pretry m g ct c)"
| "finish K view E pretry n (LFail e) c = sendErr E e c"
| "finish K view E pretry n (LFailWait e) c =
     (let ok = rPutCh E (chHist c); c = c\<lparr>chHist := chHist c @ [LSend (Inl e) ok]\<rparr> in
      if ok then c\<lparr>chQueue := chQueue c @ [Inl e]\<rparr> else c)"
| "finish K view E pretry n ctl c = c"

fun ctlFault :: "lctl \<Rightarrow> fault" where
  "ctlFault (LFaulted f) = f"
| "ctlFault ctl = NoFault"

text \<open>What the lister has done so far, as the sequential model keeps it.\<close>

definition sofar :: "relay \<Rightarrow> rchan" where
  "sofar s = \<lparr>chQueue = taken s @ chan s, chFault = ctlFault (lCtl s), chHist = lHist s\<rparr>"

lemma listEach_afterOne:
  "listEach K view E pretry n (g # gs) c = afterOne K view E pretry n gs (listOne K view E pretry n g [] c)"
  by (simp add: afterOne_def)

lemma retryableList_cong: "rList E' = rList E \<Longrightarrow> retryableList K view E' pretry = retryableList K view E pretry"
proof -
  assume "rList E' = rList E"
  then have "adapter K view E' = adapter K view E" by (intro ext) (simp add: adapter_def)
  then have "pageAttempt K view E' = pageAttempt K view E" by (intro ext) (simp add: pageAttempt_def)
  then show ?thesis by (intro ext) (simp add: retryableList_def)
qed

text \<open>A page that was read without an error was read without a panic.\<close>

lemma attempts_page_fault:
  "fst (attempts (pageAttempt K view E g opts) k s) \<Longrightarrow> pgFault s = NoFault \<Longrightarrow>
   pgFault (snd (attempts (pageAttempt K view E g opts) k s)) = NoFault"
proof (induction k arbitrary: s)
  case (Suc k)
  obtain r s1 where op: "pageAttempt K view E g opts s = (r, s1)" by force
  have "pgFault s1 = NoFault \<or> r = Some (Sent ErrPermanent)"
    using op Suc.prems(2) by (auto simp: pageAttempt_def split: prod.splits outcome.splits sum.splits)
  with Suc op show ?case by (auto split: option.splits if_splits)
qed simp

lemma retryableList_no_fault:
  assumes "retry_contract pretry" and "retryableList K view E pretry g opts h = (None, p)"
  shows "pgFault p = NoFault"
proof -
  let ?s = "\<lparr>pgResult = [], pgCont = [], pgFault = NoFault, pgHist = h\<rparr>"
  let ?op = "pageAttempt K view E g opts"
  obtain k where "snd (pretry (Some 10) ?op ?s) = snd (attempts ?op k ?s)"
    "fst (pretry (Some 10) ?op ?s) = None \<longleftrightarrow> fst (attempts ?op k ?s)"
    using assms(1) by (metis retry_contract_def)
  with assms(2) attempts_page_fault [of K view E g opts k ?s] show ?thesis by (simp add: retryableList_def)
qed

lemma retryableList_lists:
  assumes "retry_contract pretry"
  shows "\<exists>A. pgHist (snd (retryableList K view E pretry g options h)) = h @ A \<and> list_all (\<lambda>a. \<exists>g o' r. a = LList g o' r) A"
  unfolding retryableList_def
proof (rule retry_inv [OF assms])
  fix s :: page assume "\<exists>A. pgHist s = h @ A \<and> list_all (\<lambda>a. \<exists>g o' r. a = LList g o' r) A"
  then show "\<exists>A. pgHist (snd (pageAttempt K view E g options s)) = h @ A \<and> list_all (\<lambda>a. \<exists>g o' r. a = LList g o' r) A"
    using adapter_hist [of K view E g options "pgHist s"]
    by (auto simp: pageAttempt_def split: prod.splits outcome.splits sum.splits)
qed simp

text \<open>One step: what is left after it, and what it has done, make up what was left before it, in any
  environment that answers the calls of the step as it did.\<close>

definition answersLike :: "renv \<Rightarrow> gerr \<Rightarrow> renv \<Rightarrow> relay \<Rightarrow> relay \<Rightarrow> bool" where
  "answersLike E cause E' s t \<longleftrightarrow>
     rList E' = rList E \<and> (\<forall>h. rCause E' h = Some cause) \<and>
     (\<forall>v ok. lHist t = lHist s @ [LSend v ok] \<longrightarrow> rPutCh E' (lHist s) = ok \<and> rTryPut E' (lHist s) = ok)"

lemma finish_lister:
  assumes contract: "retry_contract pretry"
    and step: "lister_step K view E pretry n cause s t" and "answersLike E cause E' s t"
  shows "finish K view E' pretry n (lCtl s) (sofar s) = finish K view E' pretry n (lCtl t) (sofar t)"
  using step
proof cases
  case (page g ct m gs err p ctl)
  have same: "retryableList K view E' pretry g (emptyOptions\<lparr>loLimit := 100, loContinue := ct\<rparr>) (lHist s) = (err, p)"
    using page retryableList_cong [of E' E K view pretry] assms(3) by (simp add: answersLike_def)
  have "err = None \<Longrightarrow> pgFault p = NoFault" using retryableList_no_fault [OF contract] page(3) by blast
  then show ?thesis
    using page same by (cases err) (auto simp: sofar_def afterOne_def split: prod.split)
qed (use assms(3) in \<open>auto simp: answersLike_def sofar_def afterOne_def sendErr_def Let_def split: prod.split\<close>)

lemma finish_work:
  assumes "retry_contract pretry" and "work K view E pretry n cerr cause s t" and "answersLike E cause E' s t"
  shows "finish K view E' pretry n (lCtl s) (sofar s) = finish K view E' pretry n (lCtl t) (sofar t)"
  using assms(2)
proof cases
  case lister
  then show ?thesis by (rule finish_lister [OF assms(1) _ assms(3)])
next
  case reader
  then show ?thesis by cases (simp_all add: sofar_def)
qed

section \<open>What a run adds\<close>

definition grows :: "relay \<Rightarrow> relay \<Rightarrow> bool" where
  "grows s t \<longleftrightarrow>
     prefix (lHist s) (lHist t) \<and> prefix (rActs s) (rActs t) \<and> prefix (taken s) (taken t) \<and>
     prefix (taken s @ chan s) (taken t @ chan t) \<and>
     (lCtl s = LEnded \<longrightarrow> lCtl t = LEnded \<and> taken t @ chan t = taken s @ chan s)"

lemma grows_refl: "grows s s"
  by (simp add: grows_def)

lemma grows_trans: "grows s t \<Longrightarrow> grows t u \<Longrightarrow> grows s u"
  by (auto simp: grows_def intro: prefix_order.trans)

lemma grows_work:
  assumes "retry_contract pretry" and "work K view E pretry n cerr cause s t"
  shows "grows s t"
  using assms(2)
proof cases
  case lister
  then show ?thesis
  proof cases
    case (page g ct m gs err p ctl)
    have "prefix (lHist s) (pgHist p)"
      using retryableList_lists [OF assms(1), of K view E g "emptyOptions\<lparr>loLimit := 100, loContinue := ct\<rparr>" "lHist s"] page(3)
      by (auto simp: prefix_def)
    with page(1,2) show ?thesis by (simp add: grows_def)
  qed (simp_all add: grows_def)
next
  case reader
  then show ?thesis by cases (simp_all add: grows_def)
qed

lemma grows_step:
  "retry_contract pretry \<Longrightarrow> relay_step K view E pretry n cerr cause s t \<Longrightarrow> grows s t"
  by (auto simp: relay_step.simps grows_work) (simp add: grows_def)

lemma grows_run:
  assumes "retry_contract pretry" and "(relay_step K view E pretry n cerr cause)\<^sup>*\<^sup>* s t"
  shows "grows s t"
  using assms(2) by (induction rule: rtranclp_induct) (auto intro: grows_refl grows_trans grows_step [OF assms(1)])

text \<open>The lister's part of a run, in an environment that replays it.\<close>

lemma lister_run:
  assumes contract: "retry_contract pretry" and run: "(relay_step K view E pretry n cerr cause)\<^sup>*\<^sup>* s f"
    and f: "lHist f = h0 @ L" and E': "E' = replay E cerr cause h0 (L @ R)"
  shows "prefix h0 (lHist s) \<Longrightarrow> finish K view E' pretry n (lCtl s) (sofar s) = finish K view E' pretry n (lCtl f) (sofar f)"
  using run
proof (induction rule: converse_rtranclp_induct)
  case (step s t)
  have grow: "prefix (lHist s) (lHist t)" "prefix (lHist t) (lHist f)"
    using grows_step [OF contract step(1)] grows_run [OF contract step(2)] by (simp_all add: grows_def)
  then have IH: "finish K view E' pretry n (lCtl t) (sofar t) = finish K view E' pretry n (lCtl f) (sofar f)"
    using step.IH step.prems prefix_order.trans by blast
  from step(1) show ?case
  proof cases
    case works
    have "answersLike E cause E' s t"
      unfolding answersLike_def
    proof (intro conjI allI impI)
      fix v ok assume t: "lHist t = lHist s @ [LSend v ok]"
      from step.prems obtain p where p: "lHist s = h0 @ p" by (auto simp: prefix_def)
      with t grow(2) f obtain q where "L = p @ LSend v ok # q" by (auto simp: prefix_def)
      then show "rPutCh E' (lHist s) = ok" "rTryPut E' (lHist s) = ok" by (simp_all add: E' p)
    qed (simp_all add: E')
    from finish_work [OF contract works this] IH show ?thesis by simp
  next
    case cancel
    then show ?thesis using IH by (simp add: sofar_def)
  qed
qed simp

section \<open>The reader\<close>

fun rfinish :: "renv \<Rightarrow> rctl \<Rightarrow> (gerr + entry) list \<Rightarrow> rtype \<Rightarrow> gerr option \<times> rtype" where
  "rfinish E RRecv q s = forward E q s"
| "rfinish E (RPut e) q s =
     (let ok = rPutOut E (rtHist s) e; s = s\<lparr>rtHist := rtHist s @ [LPut e ok]\<rparr> in
      if ok then forward E q s
      else (let (e, s) = ctxErr E s in (Some (Wrap ''relist context canceled'' (optErr e)), s)))"
| "rfinish E (RRet r) q s = (r, s)"

definition readerSofar :: "fault \<Rightarrow> lhist \<Rightarrow> relay \<Rightarrow> rtype" where
  "readerSofar flt H s = \<lparr>seen = rSeen s, rtFault = flt, rtHist = H @ rActs s\<rparr>"

definition repliesLike :: "renv \<Rightarrow> lhist \<Rightarrow> relay \<Rightarrow> relay \<Rightarrow> bool" where
  "repliesLike E' H s t \<longleftrightarrow>
     (\<forall>p e ok q. rActs t = rActs s @ p @ LPut e ok # q \<longrightarrow> rPutOut E' (H @ rActs s @ p) e = ok) \<and>
     (\<forall>p x q. rActs t = rActs s @ p @ LDone x # q \<longrightarrow> rCtxErr E' (H @ rActs s @ p) = x)"

text \<open>\<open>Q\<close> is all that the lister sends.\<close>

lemma rfinish_reader:
  assumes step: "reader_step cerr s t" and like: "repliesLike E' H s t"
    and Q: "prefix (taken t @ chan t) Q" and closed: "chClosed s \<longrightarrow> Q = taken s @ chan s"
  shows "rfinish E' (rCtl s) (drop (length (taken s)) Q) (readerSofar flt H s) =
    rfinish E' (rCtl t) (drop (length (taken t)) Q) (readerSofar flt H t)"
proof -
  have out: "rPutOut E' (H @ rActs s) e = ok" if "rActs t = rActs s @ LPut e ok # q" for e ok q
    using like that unfolding repliesLike_def by (metis append_Nil append_Nil2)
  have ctx: "rCtxErr E' (H @ rActs s @ p) = x" if "rActs t = rActs s @ p @ LDone x # q" for p x q
    using like that unfolding repliesLike_def by blast
  from step show ?thesis
  proof cases
    case (put_lost e)
    then show ?thesis
      using out [of e False "[LDone (Some cerr)]"] ctx [of "[LPut e False]" "Some cerr" "[]"]
      by (simp add: readerSofar_def ctxErr_def Let_def optErr_def)
  next
    case (put e)
    then show ?thesis using out [of e True "[]"]
      by (simp add: readerSofar_def)
  next
    case recv_end
    then show ?thesis using ctx [of "[]" None "[]"] closed by (simp add: readerSofar_def ctxErr_def Let_def)
  next
    case recv_end_done
    then show ?thesis using ctx [of "[]" "Some cerr" "[]"] closed by (simp add: readerSofar_def ctxErr_def Let_def)
  qed (use Q in \<open>auto simp: prefix_def readerSofar_def Let_def\<close>)
qed

lemma rfinish_work:
  assumes "work K view E pretry n cerr cause s t" and "repliesLike E' H s t"
    and "prefix (taken t @ chan t) Q" and "chClosed s \<longrightarrow> Q = taken s @ chan s"
  shows "rfinish E' (rCtl s) (drop (length (taken s)) Q) (readerSofar flt H s) =
    rfinish E' (rCtl t) (drop (length (taken t)) Q) (readerSofar flt H t)"
  using assms(1)
proof cases
  case lister
  then show ?thesis by cases (simp_all add: readerSofar_def)
next
  case reader
  then show ?thesis by (rule rfinish_reader [OF _ assms(2-4)])
qed

lemma reader_run:
  assumes contract: "retry_contract pretry" and run: "(relay_step K view E pretry n cerr cause)\<^sup>*\<^sup>* s f"
    and f: "lHist f = h0 @ L" and E': "E' = replay E cerr cause h0 (L @ rActs f)"
  shows "strandInv s \<Longrightarrow>
    rfinish E' (rCtl s) (drop (length (taken s)) (taken f @ chan f)) (readerSofar flt (lHist f) s) =
    rfinish E' (rCtl f) (chan f) (readerSofar flt (lHist f) f)"
  using run
proof (induction rule: converse_rtranclp_induct)
  case base
  then show ?case by simp
next
  case (step s t)
  have grow: "prefix (rActs t) (rActs f)" "prefix (taken t @ chan t) (taken f @ chan f)" "grows s f"
    using grows_run [OF contract step(2)] grows_trans [OF grows_step [OF contract step(1)] grows_run [OF contract step(2)]]
    by (simp_all add: grows_def)
  have inv: "strandInv t" using step(1) step.prems by cases (simp add: strandInv_work, auto simp: strandInv_def)
  note IH = step.IH [OF inv]
  from step(1) show ?case
  proof cases
    case works
    have "repliesLike E' (lHist f) s t"
      unfolding repliesLike_def
    proof (intro conjI allI impI)
      fix p e ok q assume "rActs t = rActs s @ p @ LPut e ok # q"
      with grow(1) obtain q' where "rActs f = rActs s @ p @ LPut e ok # q'" by (auto simp: prefix_def)
      then show "rPutOut E' (lHist f @ rActs s @ p) e = ok"
        using replay_at(3) [of E cerr cause h0 "L @ rActs s @ p"] by (simp add: E' f)
    next
      fix p x q assume "rActs t = rActs s @ p @ LDone x # q"
      with grow(1) obtain q' where "rActs f = rActs s @ p @ LDone x # q'" by (auto simp: prefix_def)
      then show "rCtxErr E' (lHist f @ rActs s @ p) = x"
        using replay_at(4) [of E cerr cause h0 "L @ rActs s @ p"] by (simp add: E' f)
    qed
    moreover have "chClosed s \<longrightarrow> taken f @ chan f = taken s @ chan s"
      using step.prems grow(3) by (simp add: strandInv_def grows_def)
    ultimately show ?thesis using rfinish_work [OF works _ grow(2)] IH by simp
  next
    case cancel
    then show ?thesis using IH by (simp add: readerSofar_def)
  qed
qed

section \<open>What a run can have lost\<close>

definition lActs :: "lhist \<Rightarrow> relay \<Rightarrow> lhist" where
  "lActs h s = drop (length h) (lHist s)"

text \<open>The calls of the two goroutines are of different kinds; a send that failed means a done context, an
  error waiting for room, or an error on the channel; an error received or a put that failed ends the
  reader with an error.\<close>

definition lossInv :: "lhist \<Rightarrow> relay \<Rightarrow> bool" where
  "lossInv h s \<longleftrightarrow>
     length h \<le> length (lHist s) \<and>
     list_all (\<lambda>a. case a of LDone _ \<Rightarrow> False | LPut _ _ \<Rightarrow> False | _ \<Rightarrow> True) (lActs h s) \<and>
     list_all (\<lambda>a. case a of LDone _ \<Rightarrow> True | LPut _ _ \<Rightarrow> True | _ \<Rightarrow> False) (rActs s) \<and>
     ((\<exists>v. LSend v False \<in> set (lActs h s)) \<longrightarrow>
        cancelled s \<or> (\<exists>e. lCtl s = LFailWait e) \<or> (\<exists>e. Inl e \<in> set (taken s @ chan s))) \<and>
     ((\<exists>e. Inl e \<in> set (taken s)) \<longrightarrow> (\<exists>x. rCtl s = RRet (Some x))) \<and>
     ((\<exists>e. LPut e False \<in> set (rActs s)) \<longrightarrow> (\<exists>x. rCtl s = RRet (Some x)))"

text \<open>And a reader that returned without an error has seen the whole channel of a lister that lost nothing.\<close>

definition endInv :: "lhist \<Rightarrow> relay \<Rightarrow> bool" where
  "endInv h s \<longleftrightarrow>
     (LDone None \<in> set (rActs s) \<longrightarrow> rCtl s = RRet None) \<and>
     (rCtl s = RRet None \<longrightarrow>
        LDone None \<in> set (rActs s) \<and> lCtl s = LEnded \<and> chan s = [] \<and> (\<forall>e. Inl e \<notin> set (taken s)) \<and>
        (\<forall>v. LSend v False \<notin> set (lActs h s)))"

lemma page_acts:
  assumes "retry_contract pretry" and "retryableList K view E pretry g opts h = (err, p)"
  obtains A where "pgHist p = h @ A" and "list_all (\<lambda>a. \<exists>g o' r. a = LList g o' r) A"
  using retryableList_lists [OF assms(1), of K view E g opts h] assms(2) by auto

lemma lossInv_work:
  assumes contract: "retry_contract pretry" and step: "work K view E pretry n cerr cause s t"
    and inv: "lossInv h s"
  shows "lossInv h t"
  using step
proof cases
  case lister
  then show ?thesis
  proof cases
    case (page g ct m gs err p ctl)
    from page_acts [OF contract page(3)] obtain A where A: "pgHist p = lHist s @ A"
      "list_all (\<lambda>a. \<exists>g o' r. a = LList g o' r) A" .
    then have "list_all (\<lambda>a. case a of LDone _ \<Rightarrow> False | LPut _ _ \<Rightarrow> False | _ \<Rightarrow> True) A" "\<And>v. LSend v False \<notin> set A"
      by (auto simp: list_all_iff split: lact.split)
    moreover have "lCtl s \<noteq> LFailWait e" for e using page(2) by simp
    ultimately show ?thesis using inv page(1) A(1) unfolding lossInv_def lActs_def by (simp, blast)
  qed (use inv in \<open>auto simp: lossInv_def lActs_def\<close>)
next
  case reader
  then show ?thesis by cases (use inv in \<open>auto simp: lossInv_def lActs_def\<close>)
qed

lemma endInv_work:
  assumes contract: "retry_contract pretry" and step: "work K view E pretry n cerr cause s t"
    and inv: "lossInv h s" "endInv h s" "strandInv s"
  shows "endInv h t"
  using step
proof cases
  case lister
  then show ?thesis
  proof cases
    case (page g ct m gs err p ctl)
    then show ?thesis using inv(2) by (auto simp: endInv_def)
  qed (use inv in \<open>auto simp: lossInv_def endInv_def strandInv_def lActs_def\<close>)
next
  case reader
  then show ?thesis by cases (use inv in \<open>auto simp: lossInv_def endInv_def strandInv_def lActs_def\<close>)
qed

lemma run_invs:
  assumes contract: "retry_contract pretry"
    and run: "(relay_step K view E pretry n cerr cause)\<^sup>*\<^sup>* (relayInit gs ids h) s"
  shows "lossInv h s \<and> endInv h s \<and> strandInv s"
  using run
proof (induction rule: rtranclp_induct)
  case base
  show ?case by (simp add: lossInv_def endInv_def strandInv_def relayInit_def lActs_def)
next
  case (step s t)
  from step(2) show ?case
  proof cases
    case works
    with step(3) lossInv_work [OF contract works] endInv_work [OF contract works] strandInv_work [OF works]
    show ?thesis by blast
  next
    case cancel
    with step(3) show ?thesis by (simp add: lossInv_def endInv_def strandInv_def lActs_def)
  qed
qed

section \<open>The sequential run\<close>

text \<open>The attempt has asked for the context and submitted the lister before the goroutines run.\<close>

definition firstActs :: lhist where
  "firstActs = [LDone None, LSubmit True]"

lemma firstActs_split:
  assumes "lossInv h f" and "endInv h f" and "firstActs @ lActs h f @ rActs f = p @ LDone None # q"
  shows "(\<forall>e. LPut e False \<notin> set p) \<and> (\<forall>v. LSend v False \<notin> set p)"
proof (cases "p = []")
  case False
  then obtain a p1 where p1: "p = a # p1" by (cases p) auto
  obtain b p' where p': "p1 = b # p'"
    using assms(3) unfolding p1 firstActs_def by (cases p1) auto
  have p: "lActs h f @ rActs f = p' @ LDone None # q" "p = LDone None # LSubmit True # p'"
    using assms(3) unfolding p1 p' firstActs_def by auto
  have "LDone None \<notin> set (lActs h f)" using assms(1) by (auto simp: lossInv_def list_all_iff)
  moreover from p(1) have "LDone None \<in> set (lActs h f @ rActs f)" by simp
  ultimately have "rCtl f = RRet None" using assms(2) by (auto simp: endInv_def)
  then have "\<forall>v. LSend v False \<notin> set (lActs h f)" and "\<forall>e. LPut e False \<notin> set (rActs f)"
    using assms(1,2) by (auto simp: endInv_def lossInv_def)
  moreover have "\<forall>e. LPut e False \<notin> set (lActs h f)" and "\<forall>v. LSend v False \<notin> set (rActs f)"
    using assms(1) by (auto simp: lossInv_def list_all_iff)
  ultimately have "\<forall>a \<in> set (lActs h f @ rActs f). (\<forall>e. a \<noteq> LPut e False) \<and> (\<forall>v. a \<noteq> LSend v False)" by auto
  then have "\<forall>a \<in> set p'. (\<forall>e. a \<noteq> LPut e False) \<and> (\<forall>v. a \<noteq> LSend v False)" using p(1) by auto
  with p(2) show ?thesis by auto
qed simp

text \<open>A run of the goroutines to their ends is a sequential attempt in an environment with the same
  server, in which a done context stays done.\<close>

lemma relay_sequential:
  assumes contract: "retry_contract pretry" and gs: "makePagers S rt = Some gs"
    and run: "(relay_step K view E pretry n cerr cause)\<^sup>*\<^sup>* (relayInit gs ids (h @ firstActs)) f"
    and ended: "lCtl f = LEnded" "rCtl f = RRet r"
  shows "\<exists>E'. rList E' = rList E \<and> ctxStays E' \<and>
    listAll K view E' pretry n gs (h @ [LDone None]) = \<lparr>chQueue = taken f @ chan f, chFault = NoFault, chHist = lHist f\<rparr> \<and>
    relistAttempt K view E' pretry n S rt \<lparr>seen = ids, rtFault = flt, rtHist = h\<rparr> =
      (r, \<lparr>seen = rSeen f, rtFault = flt, rtHist = lHist f @ rActs f\<rparr>)"
proof -
  let ?h = "h @ firstActs" and ?s = "relayInit gs ids (h @ firstActs)"
  define L where "L = firstActs @ lActs ?h f"
  define E' where "E' = replay E cerr cause h (L @ rActs f)"
  from run_invs [OF contract run] have inv: "lossInv ?h f" "endInv ?h f" by simp_all
  from grows_run [OF contract run] have f: "lHist f = h @ L"
    by (auto simp: grows_def relayInit_def L_def lActs_def prefix_def)
  have stays: "ctxStays E'"
    unfolding E'_def L_def using firstActs_split [OF inv] by (intro replay_stays) simp
  have first: "rCtxErr E' h = None"
    using replay_at(4) [of E cerr cause h "[]" None "LSubmit True # lActs ?h f @ rActs f"]
    by (simp add: E'_def L_def firstActs_def)
  have "finish K view E' pretry n (lCtl ?s) (sofar ?s) = finish K view E' pretry n (lCtl f) (sofar f)"
    by (rule lister_run [OF contract run f E'_def]) (simp add: relayInit_def)
  then have list: "listAll K view E' pretry n gs (h @ [LDone None]) =
      \<lparr>chQueue = taken f @ chan f, chFault = NoFault, chHist = lHist f\<rparr>"
    by (simp add: ended sofar_def relayInit_def listAll_def E'_def firstActs_def)
  have "rfinish E' (rCtl ?s) (drop (length (taken ?s)) (taken f @ chan f)) (readerSofar flt (lHist f) ?s) =
      rfinish E' (rCtl f) (chan f) (readerSofar flt (lHist f) f)"
    by (rule reader_run [OF contract run f E'_def]) (rule strandInv_init)
  then have "forward E' (taken f @ chan f) \<lparr>seen = ids, rtFault = flt, rtHist = lHist f\<rparr> =
      (r, \<lparr>seen = rSeen f, rtFault = flt, rtHist = lHist f @ rActs f\<rparr>)"
    by (simp add: ended readerSofar_def relayInit_def)
  then have "relistAttempt K view E' pretry n S rt \<lparr>seen = ids, rtFault = flt, rtHist = h\<rparr> =
      (r, \<lparr>seen = rSeen f, rtFault = flt, rtHist = lHist f @ rActs f\<rparr>)"
    using first list gs by (simp add: relistAttempt_def ctxErr_def Relister_List_def)
  with stays list show ?thesis by (intro exI [where x = E']) (simp add: E'_def)
qed

text \<open>So a reader that has returned without an error has received a complete list of every resource, and
  every object of it has been sent by this attempt or an earlier one.\<close>

lemma relay_complete:
  assumes contract: "retry_contract pretry" and gs: "makePagers S rt = Some gs"
    and run: "(relay_step K view E pretry n cerr cause)\<^sup>*\<^sup>* (relayInit gs ids (h @ firstActs)) f"
    and ended: "rCtl f = RRet None"
  shows "lCtl f = LEnded \<and> chan f = [] \<and>
    (\<exists>ess. list_all2 (\<lambda>g es. \<exists>ls. pageChain K view (lHist f) g [] ls es) gs ess \<and>
      taken f = map Inr (concat ess) \<and> (\<forall>e \<in> set (concat ess). uid e \<in> set (rSeen f)))"
proof -
  from run_invs [OF contract run] ended have l: "lCtl f = LEnded" "chan f = []" "\<forall>e. Inl e \<notin> set (taken f)"
    by (auto simp: endInv_def)
  from relay_sequential [OF contract gs run l(1) ended, of NoFault] obtain E' where E': "ctxStays E'"
    "listAll K view E' pretry n gs (h @ [LDone None]) = \<lparr>chQueue = taken f, chFault = NoFault, chHist = lHist f\<rparr>"
    "relistAttempt K view E' pretry n S rt \<lparr>seen = ids, rtFault = NoFault, rtHist = h\<rparr> =
      (None, \<lparr>seen = rSeen f, rtFault = NoFault, rtHist = lHist f @ rActs f\<rparr>)" using l(2) by auto
  from relistAttempt_success [OF E'(3)] obtain s1 gs' c where c: "ctxErr E' \<lparr>seen = ids, rtFault = NoFault, rtHist = h\<rparr> = (None, s1)"
    "makePagers S rt = Some gs'" "c = listAll K view E' pretry n gs' (rtHist s1)"
    "forward E' (chQueue c) (s1\<lparr>rtHist := chHist c\<rparr>) = (None, \<lparr>seen = rSeen f, rtFault = NoFault, rtHist = lHist f @ rActs f\<rparr>)" .
  then have "gs' = gs" "rtHist s1 = h @ [LDone None]" using gs by (auto simp: ctxErr_def Let_def)
  with c(3) E'(2) have c': "c = \<lparr>chQueue = taken f, chFault = NoFault, chHist = lHist f\<rparr>" by simp
  from forward_success [OF c(4)] have F: "\<forall>e. Inr e \<in> set (taken f) \<longrightarrow> uid e \<in> set (rSeen f)" and
    "live E' (lHist f)" by (auto simp: c' live_def)
  with listAll_complete [OF contract E'(1) E'(2) [symmetric]] l(3) obtain ess where
    "list_all2 (\<lambda>g es. \<exists>ls. pageChain K view (lHist f) g [] ls es) gs ess" "taken f = map Inr (concat ess)" by auto
  with l F show ?thesis by (intro conjI exI [where x = ess]) auto
qed

text \<open>On a server that stops handing out continue tokens the lister does not run out of pages.\<close>

lemma relay_fuel:
  assumes contract: "retry_contract pretry" and ends: "pagesEnd view E N" "N < n"
    and run: "(relay_step K view E pretry n cerr cause)\<^sup>*\<^sup>* (relayInit gs ids h) f"
  shows "lCtl f \<noteq> LFaulted OutOfFuel"
proof
  assume f: "lCtl f = LFaulted OutOfFuel"
  let ?s = "relayInit gs ids h" and ?c = "\<lparr>chQueue = [], chFault = NoFault, chHist = h\<rparr>"
  define E' where "E' = replay E cerr cause h (lActs h f @ [])"
  from grows_run [OF contract run] have hist: "lHist f = h @ lActs h f"
    by (auto simp: grows_def relayInit_def lActs_def prefix_def)
  have "finish K view E' pretry n (lCtl ?s) (sofar ?s) = finish K view E' pretry n (lCtl f) (sofar f)"
    by (rule lister_run [OF contract run hist E'_def]) (simp add: relayInit_def)
  then have "chFault (listEach K view E' pretry n gs ?c) = OutOfFuel"
    by (simp add: f sofar_def relayInit_def)
  moreover have "pagesEnd view E' N" using ends(1) by (simp add: pagesEnd_def E'_def)
  ultimately show False using listEach_ends [OF contract _ ends(2), of view E' ?c] by simp
qed

section \<open>Every run can be finished\<close>

text \<open>Lists of the client's types never make the conversion panic.\<close>

definition typedLists :: "(lobj \<Rightarrow> rlist option) \<Rightarrow> bool" where
  "typedLists view \<longleftrightarrow> (\<forall>l x. view l = Some x \<longrightarrow> typedList x)"

lemma adapter_typed:
  assumes "typedLists view"
  shows "adapter K view E g options h \<noteq> (Panic m, h')"
proof (cases "rList E h g options")
  case (Inr l)
  show ?thesis
  proof (cases "view l")
    case None
    with Inr show ?thesis by (simp add: adapter_def listToEntries_def Let_def)
  next
    case (Some x)
    with assms have "typedList x" by (simp add: typedLists_def)
    from pageOf_typed [of view l x K, OF Some this] obtain es c where "pageOf K view l = Some (es, c)" by blast
    with Inr show ?thesis by (auto simp: adapter_def pageOf_def Let_def split: outcome.splits sum.splits)
  qed
qed (simp add: adapter_def Let_def)

lemma retryableList_typed:
  assumes "retry_contract pretry" and "typedLists view"
  shows "pgFault (snd (retryableList K view E pretry g options h)) = NoFault"
  unfolding retryableList_def
proof (rule retry_inv [OF assms(1)])
  fix s :: page assume "pgFault s = NoFault"
  then show "pgFault (snd (pageAttempt K view E g options s)) = NoFault"
    using adapter_typed [OF assms(2), of K E g options "pgHist s"]
    by (auto simp: pageAttempt_def split: prod.split outcome.split sum.split)
qed simp

lemma relay_no_panic:
  assumes contract: "retry_contract pretry" and "typedLists view"
    and run: "(relay_step K view E pretry n cerr cause)\<^sup>*\<^sup>* (relayInit gs ids h) s"
  shows "lCtl s = LFaulted f \<Longrightarrow> f = OutOfFuel"
  using run
proof (induction arbitrary: f rule: rtranclp_induct)
  case (step s t)
  from step(2) show ?case
  proof cases
    case works
    then show ?thesis
    proof cases
      case lister
      then show ?thesis
      proof cases
        case (page g ct m gs err p ctl)
        then have "pgFault p = NoFault"
          using retryableList_typed [OF contract assms(2), of K E g "emptyOptions\<lparr>loLimit := 100, loContinue := ct\<rparr>" "lHist s"]
          by simp
        with page step.prems show ?thesis by (simp split: option.splits)
      qed (use step in \<open>auto split: if_splits\<close>)
    next
      case reader
      then show ?thesis by cases (use step in auto)
    qed
  qed (use step in simp)
qed (simp add: relayInit_def)

lemma relay_ends:
  assumes "retry_contract pretry" and "typedLists view" and "pagesEnd view E N" and "N < n"
    and run: "(relay_step K view E pretry n cerr cause)\<^sup>*\<^sup>* (relayInit gs ids h) s"
    and "\<forall>t. \<not> work K view E pretry n cerr cause s t"
  shows "lCtl s = LEnded \<and> (\<exists>r. rCtl s = RRet r)"
proof (rule relay_progress [OF _ assms(6)])
  show "strandInv s" by (rule strandInv_reach [OF run])
  show "\<forall>f. lCtl s \<noteq> LFaulted f"
    using relay_fuel [OF assms(1,3,4) run] relay_no_panic [OF assms(1,2) run] by blast
qed

end
