(* ===== verification/Samples.thy ===== *)
theory Samples
  imports EndToEnd FakeStore ConfigMapServer Replay
begin

text \<open>
  Concrete inputs: a memory with one pod, an API library, an environment, a server of lists. The
  theorems of the development are applied to them, to show that their hypotheses can be met.
\<close>

section \<open>A memory\<close>

definition sl1 :: slice where "sl1 = \<lparr>sArr = 0, sOff = 0, sLen = 1\<rparr>"
definition sl0 :: slice where "sl0 = \<lparr>sArr = 1, sOff = 0, sLen = 0\<rparr>"

definition sampleSpec :: "unit podSpec" where
  "sampleSpec = \<lparr>Containers = sl1, InitContainers = sl0, EphemeralContainers = sl0, psRest = ()\<rparr>"

definition sampleHeap :: "unit heap" where
  "sampleHeap =
     \<lparr>pods = (\<lambda>_. \<lparr>pSpec = sampleSpec, pRest = ()\<rparr>),
      deployments = (\<lambda>_. \<lparr>dTemplateSpec = sampleSpec, dRest = ()\<rparr>),
      contArrs = (\<lambda>a. if a = 0 then [\<lparr>cEnv = sl1, cRest = ()\<rparr>] else []),
      ephArrs = (\<lambda>_. []),
      envArrs = (\<lambda>a. if a = 0 then [\<lparr>evName = ''TOKEN'', evValue = ''secret'', evRest = ()\<rparr>] else []),
      otherMem = (\<lambda>_ _. ())\<rparr>"

definition samplePod :: robj where "samplePod = \<lparr>okind = KPod, optr = Some 5\<rparr>"

definition sampleEntry :: entry where
  "sampleEntry = \<lparr>data = Some samplePod, uid = ''u5'', sourceType = STWatchList, changeType = CTAdd, objectType = OTPod\<rparr>"

lemma sampleHeap_wf: "wf_heap sampleHeap"
  by (auto simp: wf_heap_def wf_spec_def inBounds_def sampleHeap_def sampleSpec_def sl1_def sl0_def)

lemma sampleEntry_wf: "wf_entry sampleEntry"
  by (simp add: wf_entry_def sampleEntry_def samplePod_def)

text \<open>The run of the pipeline on that pod, to the router.\<close>

definition sampleDone :: "unit pipe" where
  "sampleDone = (pipeInit sampleHeap [sampleEntry])
     \<lparr>mem := redactSet (entryCells sampleHeap sampleEntry) sampleHeap, inQ := [], routed := [sampleEntry]\<rparr>"

lemma sampleDone_reached: "(pipe_step None)\<^sup>*\<^sup>* (pipeInit sampleHeap [sampleEntry]) sampleDone"
proof -
  let ?m = "redactSet (entryCells sampleHeap sampleEntry) sampleHeap"
  let ?s0 = "pipeInit sampleHeap [sampleEntry]"
  let ?s1 = "?s0\<lparr>mem := ?m, inQ := [], secHold := Some sampleEntry\<rparr>"
  let ?s2 = "?s1\<lparr>secHold := None, routerInQ := routerInQ ?s1 @ [sampleEntry]\<rparr>"
  let ?s3 = "?s2\<lparr>routerInQ := [], routed := routed ?s2 @ [sampleEntry]\<rparr>"
  have "scrubber (mem ?s0) sampleEntry = Ret (?m, Some sampleEntry)"
    using scrubber_wf [OF sampleEntry_wf, of sampleHeap] by (simp add: pipeInit_def)
  then have "pipe_step None ?s0 ?s1"
    using sec_direct [OF refl, of ?s0 sampleEntry "[]" ?m "Some sampleEntry"] by (simp add: pipeInit_def)
  moreover have "pipe_step None ?s1 ?s2"
    by (rule sec_send) (simp_all add: pipeInit_def chanBuffer_def)
  moreover have "pipe_step None ?s2 ?s3"
    by (rule router_take) (simp add: pipeInit_def)
  moreover have "?s3 = sampleDone" by (simp add: sampleDone_def pipeInit_def)
  ultimately show ?thesis by (metis (no_types, lifting) rtranclp.simps)
qed

text \<open>A run with a processor that overwrites the values of its entry, access by access.\<close>

definition sampleFine :: "unit fine" where
  "sampleFine = fineMoves [overwrite ''leak''] 40 (fineInit sampleHeap [sampleEntry])"

lemma sampleEntry_apart: "apart sampleHeap [sampleEntry]"
  by (simp add: apart_def)

lemma sampleFine_reached: "(fine_step (Some [overwrite ''leak'']))\<^sup>*\<^sup>* (fineInit sampleHeap [sampleEntry]) sampleFine"
  unfolding sampleFine_def by (rule fineMoves_run)

lemma sampleFine_routed: "fRouted sampleFine = [sampleEntry]"
  by code_simp

lemma sampleFine_procs: "\<forall>procs. Some [overwrite ''leak''] = Some procs \<longrightarrow> (\<forall>p \<in> set procs. keepsTo p)"
  using overwrite_keepsTo by auto

section \<open>An API library\<close>

definition sampleGvr :: gvr where "sampleGvr = \<lparr>Group = [], Version = ''v1'', Resource = ''pods''\<rparr>"

text \<open>The meta object of a pointer has the pointer in decimal as its version; list \<open>n\<close> has version 7, the
  pods \<open>2 n\<close> and \<open>2 n + 1\<close>, and continues at list 1 if it is list 0. Error 410 is a gone version.\<close>

definition sampleK :: k8s where
  "sampleK =
     \<lparr>isNotFound = (\<lambda>e. e = Ext 404 []), isForbidden = (\<lambda>e. e = Ext 403 []), isUnauthorized = (\<lambda>e. e = Ext 401 []),
      isInvalid = (\<lambda>e. e = Ext 422 []), isResourceExpired = (\<lambda>e. False), isGone = (\<lambda>e. e = Ext 410 []),
      isBadRequest = (\<lambda>e. e = Ext 400 []),
      statusCauses = (\<lambda>e. if e = Ext 422 [] then Some (Some [(''sendInitialEvents'', ''WatchList feature gate'')]) else None),
      getUID = (\<lambda>v. case optr v of None \<Rightarrow> [] | Some p \<Rightarrow> CHR ''u'' # dec p),
      asMetaObject = (\<lambda>v. case optr v of None \<Rightarrow> None
                        | Some p \<Rightarrow> Some \<lparr>annotations = (\<lambda>_. None), resourceVersionOf = dec p\<rparr>),
      initialEventsKey = ''k8s.io/initial-events-end'',
      fromObject = (\<lambda>_. Ext 410 []),
      listAccessor = (\<lambda>l. Inr (''7'', if l = 0 then ''next'' else [])),
      extractList = (\<lambda>l. Inr [Some \<lparr>okind = KPod, optr = Some (2 * l)\<rparr>, Some \<lparr>okind = KPod, optr = Some (2 * l + 1)\<rparr>])\<rparr>"

text \<open>An environment: a watch shows one new pod, a bookmark and closes; the server lists in two pages;
  the context is done once a watch has been read twice.\<close>

definition sampleE :: env where
  "sampleE =
     \<lparr>envWatch = (\<lambda>h g opts. Inr (length h)),
      envList = (\<lambda>h g opts. Inr (if loContinue opts = [] \<and> loLimit opts \<noteq> 1 then 0 else 1)),
      envGet = (\<lambda>h w. if getsOf h = [] then Some \<lparr>evType = Added, evObject = Some samplePod\<rparr>
                      else if length (getsOf h) = 1 then Some \<lparr>evType = Bookmark, evObject = Some \<lparr>okind = KPod, optr = Some 42\<rparr>\<rparr>
                      else None),
      envPut = (\<lambda>h e. True), envLoad = (\<lambda>h g. Inr ''5''), envStore = (\<lambda>h g rv. None), envDelete = (\<lambda>h g rv. None),
      envCtxDone = (\<lambda>h. False), envCause = (\<lambda>h. Sent Canceled), envSpawnPut = (\<lambda>h. True),
      envPromise = (\<lambda>h. None), envFellBack = (\<lambda>h. False)\<rparr>"

definition sampleWatcher :: watcher where "sampleWatcher = \<lparr>wId = 3, wMode = None\<rparr>"

section \<open>A relist\<close>

definition sampleView :: "lobj \<Rightarrow> rlist option" where
  "sampleView l = Some
     \<lparr>rlPointer = True, rlNil = False, rlStruct = True,
      rlItems = Some [\<lparr>riPointer = False, riCanAddr = True, riCanInterface = True,
                       riObject = Some \<lparr>okind = KPod, optr = Some l\<rparr>\<rparr>],
      rlMetaContinue = Some (if l = 0 then ''next'' else []), rlContinue = None\<rparr>"

definition sampleR :: renv where
  "sampleR =
     \<lparr>rList = (\<lambda>h g opts. Inr (if loContinue opts = [] then 0 else 1)),
      rSubmit = (\<lambda>h. True), rTryPut = (\<lambda>h. True), rPutCh = (\<lambda>h. True), rPutOut = (\<lambda>h e. True),
      rCtxErr = (\<lambda>h. None), rCause = (\<lambda>h. None)\<rparr>"

definition sampleSchemes :: schemes where
  "sampleSchemes = \<lparr>coreGV = ([], ''v1''), appsGV = (''apps'', ''v1''),
     networkingGV = (''networking.k8s.io'', ''v1''), rbacGV = (''rbac.authorization.k8s.io'', ''v1'')\<rparr>"

lemma sampleR_ctx: "ctxStays sampleR"
  by (simp add: ctxStays_def sampleR_def)

lemma sampleE_ctx: "ctxMonotone sampleE"
  by (simp add: ctxMonotone_def sampleE_def)

text \<open>A server that comes to an end: it shows two events, hands out one continue token, and the context is
  done after ten calls.\<close>

definition sampleEnding :: env where
  "sampleEnding = sampleE\<lparr>envList := \<lambda>h g opts. Inr (listsOf h), envGet := \<lambda>h w. if length (getsOf h) < 2 then envGet sampleE h w else None,
     envCtxDone := \<lambda>h. 10 \<le> length h\<rparr>"

lemma sampleEnding_events: "eventsEnd sampleEnding 2"
  by (simp add: eventsEnd_def sampleEnding_def)

lemma sampleEnding_ctx: "ctxEnds sampleEnding 10"
  by (simp add: ctxEnds_def sampleEnding_def)

lemma sampleEnding_lists: "listsEnd sampleK sampleEnding g 1"
  by (simp add: listsEnd_def sampleEnding_def sampleK_def)

definition sampleEndingR :: renv where
  "sampleEndingR = sampleR\<lparr>rList := \<lambda>h g opts. Inr (llistsOf h)\<rparr>"

lemma sampleEndingR_pages: "pagesEnd sampleView sampleEndingR 1"
  by (auto simp: pagesEnd_def sampleEndingR_def sampleR_def sampleView_def getContinue_def)

section \<open>Evaluated runs\<close>

lemma sample_watch:
  "watchEvents sampleK sampleE True sampleGvr 5 sampleWatcher [] =
     (Some (Ret (''42'', None)),
      [AGet 3 (Some \<lparr>evType = Added, evObject = Some samplePod\<rparr>), AMetric \<lparr>evType = Added, evObject = Some samplePod\<rparr>,
       APut sampleEntry True,
       AGet 3 (Some \<lparr>evType = Bookmark, evObject = Some \<lparr>okind = KPod, optr = Some 42\<rparr>\<rparr>),
       AMetric \<lparr>evType = Bookmark, evObject = Some \<lparr>okind = KPod, optr = Some 42\<rparr>\<rparr>,
       AStore sampleGvr ''42'' None, AGet 3 None, AStop 3])"
  by code_simp

definition sampleReader :: reader where
  "sampleReader =
     \<lparr>rdTypes = 66, rdRelistInterval = -1, rdBookmarking = True, rdBookmarkStore = True, rdDataCh = Some 0,
      rdStarted = False, rdCancelled = False, rdWatchesCancelled = False, rdCloseChClosed = False,
      rdSpawnChClosed = False, rdRelisting = False, rdJobs = []\<rparr>"

lemma sample_recovery:
  "\<exists>w s'. getRecoveryWatcher sampleK sampleE True 5 (newWatchSpec sampleE sampleGvr)
     \<lparr>spw = fallBack (spawnerInit True), sHist = []\<rparr> = (Some (Inr w), s') \<and> wMode w \<noteq> None"
proof -
  let ?r = "getRecoveryWatcher sampleK sampleE True 5 (newWatchSpec sampleE sampleGvr)
     \<lparr>spw = fallBack (spawnerInit True), sHist = []\<rparr>"
  have "(case fst ?r of Some (Inr w) \<Rightarrow> wMode w \<noteq> None | _ \<Rightarrow> False)" by code_simp
  then show ?thesis by (cases ?r) (auto split: option.splits sum.splits)
qed



lemma sample_ahead: "bookmarkAhead sampleK retryAll (doList sampleE g) ''5'' h = (Inr False, h @ [AList g (emptyOptions\<lparr>loLimit := 1\<rparr>) (Inr 1)])"
proof -
  have p: "parseUint64 ''5'' = Some 5" "parseUint64 ''7'' = Some 7"
    by (simp_all add: parseUint64_def decVal_def isDecDigit_def digitVal_def)
  have c: "currentAttempt sampleK (doList sampleE g) ([], h) = (None, ''7'', h @ [AList g (emptyOptions\<lparr>loLimit := 1\<rparr>) (Inr 1)])"
    by (simp add: currentAttempt_def doList_def sampleE_def sampleK_def Let_def)
  have "retryAll (Some bookmarkCheckAttempts) (currentAttempt sampleK (doList sampleE g)) ([], h) = (None, ''7'', h @ [AList g (emptyOptions\<lparr>loLimit := 1\<rparr>) (Inr 1)])"
    by (simp add: retryAll_def bookmarkCheckAttempts_def c numeral_3_eq_3)
  then show ?thesis by (simp add: bookmarkAhead_def p)
qed

lemma sample_get:
  assumes "spw s = spawnerInit True"
  shows "\<exists>w s'. getWatcher sampleK sampleE True (withResourceVersion (wsSpawn (newWatchSpec sampleE g)) ''5'') s = (Inr w, s') \<and> spw s' = spawnerInit True"
  using assms
  by (simp add: getWatcher_def othersServed_def serve_def withResourceVersion_def newWatchSpec_def doWatch_def sampleE_def Let_def spawnerInit_def soInit_def errOf_def watchListFeatureDisabled_def)

lemma sample_start:
  assumes "spw s = spawnerInit True" and "\<not> gvr_Empty g"
  shows "\<exists>j s'. startSpec sampleK sampleE retryAll True True (newWatchSpec sampleE g) s = (Inr j, s') \<and> spw s' = spawnerInit True \<and> jVersion j = ''5''"
proof -
  let ?h = "sHist s @ [ALoad g (Inr ''5'')]"
  have ld: "loadVersion sampleE True True g (sHist s) = (''5'', ?h)"
    using assms(2) by (simp add: loadVersion_def bmLoad_def sampleE_def Let_def)
  have ck: "checkVersion sampleK retryAll (newWatchSpec sampleE g) ''5'' ?h = (None, ?h @ [AList g (emptyOptions\<lparr>loLimit := 1\<rparr>) (Inr 1)])"
    using sample_ahead [of g ?h] by (simp add: checkVersion_def newWatchSpec_def)
  let ?s = "s\<lparr>sHist := ?h @ [AList g (emptyOptions\<lparr>loLimit := 1\<rparr>) (Inr 1)]\<rparr>"
  from sample_get [of ?s g] assms(1) obtain w s' where
    g: "getWatcher sampleK sampleE True (withResourceVersion (wsSpawn (newWatchSpec sampleE g)) ''5'') ?s = (Inr w, s')" "spw s' = spawnerInit True"
    by auto
  have key: "wsGvr (newWatchSpec sampleE g) = g" by (simp add: newWatchSpec_def)
  show ?thesis using g by (simp add: startSpec_def key ld ck Let_def)
qed

lemma sample_startWatch:
  assumes "spw s = spawnerInit True" and "rt = RTPod \<or> rt = RTDeployment"
  shows "\<exists>js s'. startWatch sampleK sampleE retryAll sampleSchemes True True rt s = (js, None, s') \<and> spw s' = spawnerInit True"
proof -
  obtain g where ws: "watchSpecs sampleE sampleSchemes rt = Some [newWatchSpec sampleE g]" and g: "\<not> gvr_Empty g"
  proof (cases "rt = RTPod")
    case True
    then show thesis
      by (intro that [of "WithResource (coreGV sampleSchemes) ''pods''"])
        (simp_all add: watchSpecs_def create_defs sentinel_defs WithResource_def gvr_Empty_def)
  next
    case False
    with assms(2) show thesis
      by (intro that [of "WithResource (appsGV sampleSchemes) ''deployments''"])
        (simp_all add: watchSpecs_def create_defs sentinel_defs WithResource_def gvr_Empty_def)
  qed
  let ?s = "s\<lparr>sHist := sHist s @ [ACtx False]\<rparr>"
  obtain j s' where st: "startSpec sampleK sampleE retryAll True True (newWatchSpec sampleE g) ?s = (Inr j, s')"
    "spw s' = spawnerInit True"
    using sample_start [of ?s g] assms(1) g by auto
  have "envCtxDone sampleE h = False" for h by (simp add: sampleE_def)
  with ws st show ?thesis by (simp add: startWatch_def watchAll_def ctxDone_def Let_def)
qed

lemma sample_run:
  "\<exists>r' s'. Run sampleK sampleE retryAll sampleSchemes sampleReader \<lparr>spw = spawnerInit True, sHist = []\<rparr> = (None, r', s')"
proof -
  let ?r = "sampleReader\<lparr>rdWatchesCancelled := False\<rparr>" and ?s = "\<lparr>spw = spawnerInit True, sHist = []\<rparr>"
  obtain js1 s1 where p: "startWatch sampleK sampleE retryAll sampleSchemes True True RTPod ?s = (js1, None, s1)"
    "spw s1 = spawnerInit True"
    using sample_startWatch [of ?s RTPod] by auto
  obtain js2 s2 where d: "startWatch sampleK sampleE retryAll sampleSchemes True True RTDeployment s1 = (js2, None, s2)"
    using sample_startWatch [OF p(2), of RTDeployment] by auto
  have r: "rdTypes ?r = 66" "rdBookmarking ?r" "rdBookmarkStore ?r" "\<not> rdStarted sampleReader" "rdDataCh sampleReader \<noteq> None"
    by (simp_all add: sampleReader_def)
  have skip: "runStep sampleK sampleE retryAll sampleSchemes ?r rt x = (True, x)" if "66 AND rt \<noteq> rt" for rt x
    using that r by (simp add: runStep_def split_beta)
  have take: "runStep sampleK sampleE retryAll sampleSchemes ?r RTPod ([], None, ?s) = (True, js1, None, s1)"
    "runStep sampleK sampleE retryAll sampleSchemes ?r RTDeployment (js1, None, s1) = (True, js1 @ js2, None, s2)"
    using p d r by (simp_all add: runStep_def sentinel_defs)
  have "ListRetrieve (runStep sampleK sampleE retryAll sampleSchemes ?r) ([], None, ?s) = (js1 @ js2, None, s2)"
    using take by (simp add: ListRetrieve_def skip sentinel_defs)
  with r show ?thesis by (simp add: Run_def)
qed

lemma sample_relist:
  "\<exists>s. relistType sampleK sampleView sampleR retryAll retryAll 3 sampleSchemes RTPod [] = (None, s)"
proof -
  have "fst (relistType sampleK sampleView sampleR retryAll retryAll 3 sampleSchemes RTPod []) = None"
    by code_simp
  then show ?thesis by (metis prod.collapse)
qed

lemma sample_new:
  "\<exists>r. Reader_New (\<lambda>_. False) True (Inr (map of_char ''1'', map of_char ''29+'')) 511 [WithRelist (2 * hour)] None = Inr r \<and>
     rdRelistInterval r = 2 * hour"
proof -
  have "checkBits 511 [0..<32] = None" by (simp add: checkBits_iff)
  then show ?thesis
    by (simp add: Reader_New_def Relister_New_def majorMinor_def WithRelist_def hour_def Let_def)
qed

lemma sample_run_fails:
  "\<exists>e r' s'. Run sampleK (sampleE\<lparr>envCtxDone := \<lambda>_. True\<rparr>) retryAll sampleSchemes sampleReader
     \<lparr>spw = spawnerInit True, sHist = []\<rparr> = (Some e, r', s')"
proof -
  let ?E = "sampleE\<lparr>envCtxDone := \<lambda>_. True\<rparr>"
  let ?r = "sampleReader\<lparr>rdWatchesCancelled := False\<rparr>" and ?s = "\<lparr>spw = spawnerInit True, sHist = []\<rparr>"
  obtain ws where ws: "watchSpecs ?E sampleSchemes RTPod = Some ws"
    using watchSpecs_iff [of ?E sampleSchemes RTPod] by (auto simp: Retrieve_Valid_def sentinel_defs)
  then obtain js s1 e where w: "startWatch sampleK ?E retryAll sampleSchemes True True RTPod ?s = (js, Some e, s1)"
    by (simp add: startWatch_def watchAll_def ctxDone_def Let_def)
  have r: "rdTypes ?r = 66" "rdBookmarking ?r" "rdBookmarkStore ?r" "\<not> rdStarted sampleReader" "rdDataCh sampleReader \<noteq> None"
    by (simp_all add: sampleReader_def)
  have skip: "runStep sampleK ?E retryAll sampleSchemes ?r rt x = (True, x)" if "66 AND rt \<noteq> rt" for rt x
    using that r by (simp add: runStep_def split_beta)
  have "runStep sampleK ?E retryAll sampleSchemes ?r RTPod ([], None, ?s) = (False, js, Some e, s1)"
    using w r by (simp add: runStep_def sentinel_defs)
  then have "ListRetrieve (runStep sampleK ?E retryAll sampleSchemes ?r) ([], None, ?s) = (js, Some e, s1)"
    by (simp add: ListRetrieve_def skip sentinel_defs)
  with r show ?thesis by (simp add: Run_def)
qed

section \<open>Goroutines\<close>

text \<open>A run of the lister and its reader to their ends, and the state that a reader without a store, started
  for pods, leaves.\<close>

definition samplePods :: gvr where
  "samplePods = WithResource (coreGV sampleSchemes) ''pods''"

definition sampleRelay :: relay where
  "sampleRelay = moves sampleK sampleView sampleR retryAll 3 30 (relayInit [samplePods] [] firstActs)"

lemma sampleRelay_reached:
  "(relay_step sampleK sampleView sampleR retryAll 3 cerr cause)\<^sup>*\<^sup>* (relayInit [samplePods] [] ([] @ firstActs)) sampleRelay"
  by (simp add: sampleRelay_def moves_run)

lemma sampleRelay_ended: "lCtl sampleRelay = LEnded" "rCtl sampleRelay = RRet None" "length (taken sampleRelay) = 2"
  by code_simp+

lemma sample_pagers: "makePagers sampleSchemes RTPod = Some [samplePods]"
  by code_simp

definition plainReader :: reader where
  "plainReader = sampleReader\<lparr>rdTypes := 2, rdBookmarking := False, rdBookmarkStore := False\<rparr>"

definition plainDone :: "reader \<times> sstate" where
  "plainDone = snd (Run sampleK sampleE retryAll sampleSchemes plainReader \<lparr>spw = spawnerInit False, sHist = []\<rparr>)"

lemma plain_run:
  "Run sampleK sampleE retryAll sampleSchemes plainReader \<lparr>spw = spawnerInit False, sHist = []\<rparr> =
     (None, fst plainDone, snd plainDone)"
proof -
  have "fst (Run sampleK sampleE retryAll sampleSchemes plainReader \<lparr>spw = spawnerInit False, sHist = []\<rparr>) = None"
    by code_simp
  then show ?thesis by (simp add: plainDone_def prod_eq_iff)
qed

lemma plain_sends: "sampleEntry \<in> readerSends sampleK retryAll 5 1 (fst plainDone) (snd plainDone) hr"
proof -
  let ?r = "fst plainDone" and ?s = "snd plainDone"
  have "rdJobs ?r \<noteq> []" and "sentOf (sHist (hState (endState (jobRun sampleK sampleE retryAll (rdBookmarking ?r)
      (rdBookmarkStore ?r) 5 1 ?s (hd (rdJobs ?r)))))) = [sampleEntry]"
    by code_simp+
  then show ?thesis unfolding readerSends_def by (intro UnI1 UN_I [of "hd (rdJobs ?r)"] UN_I [of sampleE]) auto
qed

section \<open>A runner\<close>

definition sampleRouter :: router where
  "sampleRouter = \<lparr>routerIn = 2, routes = [newRoute ''a'' 6, newRoute ''b'' 7], rStarted = False, rBlocking = True\<rparr>"

definition sampleRunner :: "(unit, reader) runner" where
  "sampleRunner = \<lparr>rnInput = 0, rnRouter = sampleRouter, rnTasks = [SecretsTask 0 2], rnReaders = [sampleReader], rnStarted = False\<rparr>"

lemma sample_run_readers:
  "\<exists>rs w. runReaders (Run sampleK sampleE retryAll sampleSchemes) [sampleReader] \<lparr>spw = spawnerInit True, sHist = []\<rparr> = (None, rs, w)"
  using sample_run by auto

lemma sample_start_runner:
  "\<exists>r' w'. Start (Run sampleK sampleE retryAll sampleSchemes) None sampleRunner \<lparr>spw = spawnerInit True, sHist = []\<rparr> = (None, r', w')"
  using sample_run by (auto simp: Start_def sampleRunner_def sampleRouter_def Router_Start_def Let_def)

end
